(* ===== verification/Prelude.thy ===== *)
theory Prelude
  imports Main "HOL-Library.Code_Target_Nat"
begin

text \<open>
  The part of the Rust standard library that the proxy's sources use, over bytes, and the generic
  lemmas the components share.

  A \<open>Vec<u8>\<close>, a \<open>&[u8]\<close>, a \<open>String\<close> and a \<open>&str\<close> are all a list of bytes here: the type \<^typ>\<open>char\<close>
  of Isabelle/HOL is a byte. A Rust \<open>str\<close> is such a list for which \<open>utf8_valid\<close> holds. Slicing a \<open>str\<close>
  at a byte index panics off a character boundary, so the slices \<open>str_from\<close> and \<open>str_upto\<close> return
  \<^typ>\<open>string option\<close>, with \<^const>\<open>None\<close> for the panic.
\<close>

named_theorems byte_defs "the byte classes of the Rust standard library"
named_theorems str_defs "string operations of the Rust standard library"

type_synonym byte = char
type_synonym bytes = "char list"

abbreviation ord :: "byte \<Rightarrow> nat" where
  "ord b \<equiv> of_char b"

abbreviation (input) CR :: byte where
  "CR \<equiv> CHR 0x0D"

abbreviation (input) LF :: byte where
  "LF \<equiv> CHR 0x0A"

abbreviation (input) TAB :: byte where
  "TAB \<equiv> CHR 0x09"

abbreviation (input) SP :: byte where
  "SP \<equiv> CHR 0x20"

abbreviation (input) DOT :: byte where
  "DOT \<equiv> CHR 0x2E"

abbreviation (input) CRLF :: bytes where
  "CRLF \<equiv> [CHR 0x0D, CHR 0x0A]"


section \<open>Byte classes\<close>

definition in_range :: "nat \<Rightarrow> nat \<Rightarrow> byte \<Rightarrow> bool" where
  [byte_defs]: "in_range lo hi b \<longleftrightarrow> lo \<le> ord b \<and> ord b \<le> hi"

definition is_ascii :: "byte \<Rightarrow> bool" where
  [byte_defs]: "is_ascii b \<longleftrightarrow> ord b < 128"

definition is_ascii_digit :: "byte \<Rightarrow> bool" where
  [byte_defs]: "is_ascii_digit b \<longleftrightarrow> in_range 0x30 0x39 b"

definition is_ascii_upper :: "byte \<Rightarrow> bool" where
  [byte_defs]: "is_ascii_upper b \<longleftrightarrow> in_range 0x41 0x5A b"

definition is_ascii_lower :: "byte \<Rightarrow> bool" where
  [byte_defs]: "is_ascii_lower b \<longleftrightarrow> in_range 0x61 0x7A b"

definition is_ascii_alphabetic :: "byte \<Rightarrow> bool" where
  [byte_defs]: "is_ascii_alphabetic b \<longleftrightarrow> is_ascii_upper b \<or> is_ascii_lower b"

definition is_ascii_alphanumeric :: "byte \<Rightarrow> bool" where
  [byte_defs]: "is_ascii_alphanumeric b \<longleftrightarrow> is_ascii_alphabetic b \<or> is_ascii_digit b"

definition is_ascii_hexdigit :: "byte \<Rightarrow> bool" where
  [byte_defs]: "is_ascii_hexdigit b \<longleftrightarrow> is_ascii_digit b \<or> in_range 0x41 0x46 b \<or> in_range 0x61 0x66 b"

text \<open>\<open>u8::is_ascii_whitespace\<close>: space, tab, LF, FF, CR; not the vertical tab.\<close>

definition is_ascii_whitespace :: "byte \<Rightarrow> bool" where
  [byte_defs]: "is_ascii_whitespace b \<longleftrightarrow> ord b \<in> {0x20, 0x09, 0x0A, 0x0C, 0x0D}"

definition ascii_upper :: "byte \<Rightarrow> byte" where
  "ascii_upper b = (if is_ascii_lower b then char_of (ord b - 32) else b)"

definition to_ascii_uppercase :: "bytes \<Rightarrow> bytes" where
  "to_ascii_uppercase s = map ascii_upper s"

text \<open>
  \<open>eq_ignore_ascii_case\<close> compares the two strings after folding ASCII letters to one case.
\<close>

definition eq_ignore_ascii_case :: "bytes \<Rightarrow> bytes \<Rightarrow> bool" where
  "eq_ignore_ascii_case s t \<longleftrightarrow> to_ascii_uppercase s = to_ascii_uppercase t"

lemma ord_less_256 [simp]: "ord b < 256"
proof -
  have "ord b mod 256 < 256" by simp
  then show ?thesis by simp
qed

lemma ord_inject [simp]: "ord a = ord b \<longleftrightarrow> a = b"
  by simp

lemma char_eqI: "ord a = ord b \<Longrightarrow> a = b"
  by simp

lemma ord_char_of: "n < 256 \<Longrightarrow> ord (char_of n) = n"
  by simp

lemma ord_ascii_upper:
  "ord (ascii_upper b) = (if is_ascii_lower b then ord b - 32 else ord b)"
proof -
  have "ord b - 32 < 256" using ord_less_256 [of b] by linarith
  then show ?thesis by (simp add: ascii_upper_def)
qed

lemma ascii_upper_idem [simp]: "ascii_upper (ascii_upper b) = ascii_upper b"
  by (rule char_eqI) (auto simp: ord_ascii_upper byte_defs)

lemma ascii_upper_not_alpha:
  "\<not> is_ascii_alphabetic b \<Longrightarrow> ascii_upper b = b"
  by (auto simp: ascii_upper_def byte_defs)

lemma ascii_upper_alpha [simp]: "is_ascii_alphabetic (ascii_upper b) = is_ascii_alphabetic b"
  by (auto simp: ord_ascii_upper byte_defs)

lemma to_ascii_uppercase_idem [simp]:
  "to_ascii_uppercase (to_ascii_uppercase s) = to_ascii_uppercase s"
  by (simp add: to_ascii_uppercase_def)

lemma length_to_ascii_uppercase [simp]: "length (to_ascii_uppercase s) = length s"
  by (simp add: to_ascii_uppercase_def)

lemma to_ascii_uppercase_append [simp]:
  "to_ascii_uppercase (s @ t) = to_ascii_uppercase s @ to_ascii_uppercase t"
  by (simp add: to_ascii_uppercase_def)

lemma eq_ignore_ascii_case_refl [simp]: "eq_ignore_ascii_case s s"
  by (simp add: eq_ignore_ascii_case_def)

lemma eq_ignore_ascii_case_sym: "eq_ignore_ascii_case s t = eq_ignore_ascii_case t s"
  by (auto simp: eq_ignore_ascii_case_def)

lemma eq_ignore_ascii_case_trans:
  "eq_ignore_ascii_case s t \<Longrightarrow> eq_ignore_ascii_case t u \<Longrightarrow> eq_ignore_ascii_case s u"
  by (simp add: eq_ignore_ascii_case_def)

lemma eq_ignore_ascii_case_length: "eq_ignore_ascii_case s t \<Longrightarrow> length s = length t"
  unfolding eq_ignore_ascii_case_def by (metis length_to_ascii_uppercase)


section \<open>Searching and splitting\<close>

definition strip_prefix :: "bytes \<Rightarrow> bytes \<Rightarrow> bytes option" where
  "strip_prefix p s = (if take (length p) s = p then Some (drop (length p) s) else None)"

definition strip_suffix :: "bytes \<Rightarrow> bytes \<Rightarrow> bytes option" where
  "strip_suffix p s =
     (if length p \<le> length s \<and> drop (length s - length p) s = p
      then Some (take (length s - length p) s) else None)"

text \<open>\<open>find\<close> and \<open>position\<close> of one byte.\<close>

fun position :: "(byte \<Rightarrow> bool) \<Rightarrow> bytes \<Rightarrow> nat option" where
  "position P [] = None"
| "position P (b # s) = (if P b then Some 0 else map_option Suc (position P s))"

definition split_once :: "byte \<Rightarrow> bytes \<Rightarrow> (bytes \<times> bytes) option" where
  "split_once c s = (case position ((=) c) s of None \<Rightarrow> None | Some i \<Rightarrow> Some (take i s, drop (Suc i) s))"

text \<open>\<open>split\<close> at every byte of a class; a string with no such byte is one piece.\<close>

fun split_at :: "(byte \<Rightarrow> bool) \<Rightarrow> bytes \<Rightarrow> bytes list" where
  "split_at P [] = [[]]"
| "split_at P (b # s) =
     (if P b then [] # split_at P s
      else (case split_at P s of [] \<Rightarrow> [[b]] | w # ws \<Rightarrow> (b # w) # ws))"

text \<open>\<open>split_inclusive\<close>: every piece keeps the byte that ends it, and there is no empty last piece.\<close>

fun split_inclusive :: "(byte \<Rightarrow> bool) \<Rightarrow> bytes \<Rightarrow> bytes list" where
  "split_inclusive P [] = []"
| "split_inclusive P (b # s) =
     (if P b then [b] # split_inclusive P s
      else (case split_inclusive P s of [] \<Rightarrow> [[b]] | w # ws \<Rightarrow> (b # w) # ws))"

definition split_ascii_whitespace :: "bytes \<Rightarrow> bytes list" where
  "split_ascii_whitespace s = filter (\<lambda>w. w \<noteq> []) (split_at is_ascii_whitespace s)"

text \<open>\<open>trim_end_matches\<close> with a set of bytes.\<close>

definition trim_end_matches :: "(byte \<Rightarrow> bool) \<Rightarrow> bytes \<Rightarrow> bytes" where
  "trim_end_matches P s = rev (dropWhile P (rev s))"

lemma position_Some:
  "position P s = Some i \<longleftrightarrow> i < length s \<and> P (s ! i) \<and> (\<forall>j < i. \<not> P (s ! j))"
proof (induction s arbitrary: i)
  case Nil
  then show ?case by simp
next
  case (Cons b s)
  show ?case
  proof (cases i)
    case 0
    then show ?thesis by (auto simp: Cons.IH)
  next
    case (Suc k)
    then show ?thesis by (auto simp: Cons.IH less_Suc_eq_0_disj)
  qed
qed

lemma position_None: "position P s = None \<longleftrightarrow> (\<forall>b \<in> set s. \<not> P b)"
  by (induction s) auto

lemma position_append:
  "\<forall>b \<in> set s. \<not> P b \<Longrightarrow> P c \<Longrightarrow> position P (s @ c # t) = Some (length s)"
  by (induction s) auto

lemma position_app:
  "position P (s @ t) =
     (case position P s of Some i \<Rightarrow> Some i | None \<Rightarrow> map_option (\<lambda>i. length s + i) (position P t))"
proof (induction s)
  case Nil
  show ?case by (cases "position P t") auto
next
  case (Cons b s)
  then show ?case by (cases "position P t") (auto split: option.splits)
qed

lemma split_once_Some:
  "split_once c s = Some (a, b) \<longleftrightarrow> s = a @ c # b \<and> c \<notin> set a"
proof
  assume "split_once c s = Some (a, b)"
  then obtain i where i: "position ((=) c) s = Some i" and ab: "a = take i s" "b = drop (Suc i) s"
    by (auto simp: split_once_def split: option.splits)
  from i have "i < length s" "s ! i = c" and less: "\<And>j. j < i \<Longrightarrow> s ! j \<noteq> c"
    by (auto simp: position_Some)
  then have "s = a @ c # b" using ab by (metis id_take_nth_drop)
  moreover have "c \<notin> set a"
    using less \<open>i < length s\<close> ab by (auto simp: in_set_conv_nth)
  ultimately show "s = a @ c # b \<and> c \<notin> set a" by blast
next
  assume "s = a @ c # b \<and> c \<notin> set a"
  then have "s = a @ c # b" and "\<forall>x \<in> set a. \<not> (=) c x" by auto
  then show "split_once c s = Some (a, b)"
    by (simp add: split_once_def position_append)
qed

lemma split_once_None: "split_once c s = None \<longleftrightarrow> c \<notin> set s"
  using position_None [of "(=) c" s] by (auto simp: split_once_def split: option.splits)

lemma split_at_not_Nil [simp]: "split_at P s \<noteq> []"
  by (cases s) (auto split: list.splits)

lemma split_at_no: "\<forall>b \<in> set s. \<not> P b \<Longrightarrow> split_at P s = [s]"
  by (induction s) auto

lemma split_at_Cons_no:
  "\<forall>b \<in> set s. \<not> P b \<Longrightarrow> P c \<Longrightarrow> split_at P (s @ c # t) = s # split_at P t"
  by (induction s) auto

lemma split_at_pieces: "w \<in> set (split_at P s) \<Longrightarrow> b \<in> set w \<Longrightarrow> b \<in> set s \<and> \<not> P b"
  by (induction s arbitrary: w) (auto split: if_splits list.splits; fastforce)+

lemma split_ascii_whitespace_pieces:
  assumes "w \<in> set (split_ascii_whitespace s)"
  shows "w \<noteq> []" and "\<And>b. b \<in> set w \<Longrightarrow> b \<in> set s \<and> \<not> is_ascii_whitespace b"
  using assms split_at_pieces unfolding split_ascii_whitespace_def by fastforce+

lemma concat_split_inclusive [simp]: "concat (split_inclusive P s) = s"
  by (induction s) (auto split: list.splits)

lemma split_inclusive_no:
  "\<forall>b \<in> set s. \<not> P b \<Longrightarrow> split_inclusive P s = (if s = [] then [] else [s])"
  by (induction s) auto

lemma split_inclusive_Cons_no:
  "\<forall>b \<in> set s. \<not> P b \<Longrightarrow> P c \<Longrightarrow> split_inclusive P (s @ c # t) = (s @ [c]) # split_inclusive P t"
  by (induction s) auto

lemma strip_prefix_Some: "strip_prefix p s = Some r \<longleftrightarrow> s = p @ r"
  by (auto simp: strip_prefix_def) (metis append_take_drop_id)

lemma strip_suffix_Some: "strip_suffix p s = Some r \<longleftrightarrow> s = r @ p"
proof
  assume "strip_suffix p s = Some r"
  then show "s = r @ p"
    by (auto simp: strip_suffix_def split: if_splits) (metis append_take_drop_id)
next
  assume "s = r @ p"
  then show "strip_suffix p s = Some r" by (simp add: strip_suffix_def)
qed

lemma trim_end_matches_id: "s = [] \<or> \<not> P (last s) \<Longrightarrow> trim_end_matches P s = s"
  by (cases s rule: rev_cases) (auto simp: trim_end_matches_def)

lemma trim_end_matches_append_all:
  "\<forall>b \<in> set t. P b \<Longrightarrow> trim_end_matches P (s @ t) = trim_end_matches P s"
proof -
  assume "\<forall>b \<in> set t. P b"
  then have "dropWhile P (rev t @ rev s) = dropWhile P (rev s)"
    by (intro dropWhile_append2) auto
  then show ?thesis by (simp add: trim_end_matches_def)
qed

lemma trim_end_matches_prefix: "\<exists>t. s = trim_end_matches P s @ t \<and> (\<forall>b \<in> set t. P b)"
proof -
  have "s = trim_end_matches P s @ rev (takeWhile P (rev s))"
    unfolding trim_end_matches_def by (metis rev_append rev_rev_ident takeWhile_dropWhile_id)
  moreover have "\<forall>b \<in> set (rev (takeWhile P (rev s))). P b"
    by (auto dest: set_takeWhileD)
  ultimately show ?thesis by blast
qed

lemma trim_end_matches_last: "trim_end_matches P s \<noteq> [] \<Longrightarrow> \<not> P (last (trim_end_matches P s))"
  unfolding trim_end_matches_def by (metis hd_dropWhile last_rev rev_is_Nil_conv)

lemma length_trim_end_matches [simp]: "length (trim_end_matches P s) \<le> length s"
  unfolding trim_end_matches_def by (metis length_dropWhile_le length_rev)


section \<open>UTF-8\<close>

text \<open>A continuation byte, \<open>10xxxxxx\<close>.\<close>

definition is_cont :: "byte \<Rightarrow> bool" where
  "is_cont b \<longleftrightarrow> 0x80 \<le> ord b \<and> ord b < 0xC0"

text \<open>
  The second byte that the lead byte \<open>b\<close> of a sequence of three or four bytes admits: no overlong
  form, no surrogate, nothing above U+10FFFF.
\<close>

definition second_ok :: "byte \<Rightarrow> byte \<Rightarrow> bool" where
  "second_ok b c \<longleftrightarrow>
     (if ord b = 0xE0 then 0xA0 \<le> ord c \<and> ord c < 0xC0
      else if ord b = 0xED then 0x80 \<le> ord c \<and> ord c < 0xA0
      else if ord b = 0xF0 then 0x90 \<le> ord c \<and> ord c < 0xC0
      else if ord b = 0xF4 then 0x80 \<le> ord c \<and> ord c < 0x90
      else is_cont c)"

text \<open>
  The number of bytes of the well-formed sequence at the front, 0 when there is none: the table of
  \<open>core::str::from_utf8\<close>.
\<close>

fun utf8_len :: "bytes \<Rightarrow> nat" where
  "utf8_len [] = 0"
| "utf8_len (b # s) =
     (if ord b < 0x80 then 1
      else if 0xC2 \<le> ord b \<and> ord b < 0xE0 then
        (case s of c # _ \<Rightarrow> if is_cont c then 2 else 0 | _ \<Rightarrow> 0)
      else if 0xE0 \<le> ord b \<and> ord b < 0xF0 then
        (case s of c # d # _ \<Rightarrow> if second_ok b c \<and> is_cont d then 3 else 0 | _ \<Rightarrow> 0)
      else if 0xF0 \<le> ord b \<and> ord b < 0xF5 then
        (case s of c # d # e # _ \<Rightarrow> if second_ok b c \<and> is_cont d \<and> is_cont e then 4 else 0 | _ \<Rightarrow> 0)
      else 0)"

text \<open>
  The bytes that \<open>String::from_utf8_lossy\<close> replaces by one U+FFFD when no well-formed sequence is at
  the front: the longest prefix that could still begin one, at least one byte.
\<close>

fun utf8_bad_len :: "bytes \<Rightarrow> nat" where
  "utf8_bad_len (b # c # d # _) =
     (if 0xE0 \<le> ord b \<and> ord b < 0xF5 \<and> second_ok b c
      then (if 0xF0 \<le> ord b \<and> is_cont d then 3 else 2) else 1)"
| "utf8_bad_len [b, c] = (if 0xE0 \<le> ord b \<and> ord b < 0xF5 \<and> second_ok b c then 2 else 1)"
| "utf8_bad_len _ = 1"

lemma utf8_len_le: "utf8_len s \<le> length s"
  by (cases s rule: utf8_len.cases) (auto split: list.splits)

lemma utf8_bad_len_pos: "0 < utf8_bad_len s"
  by (cases s rule: utf8_bad_len.cases) auto

function utf8_valid :: "bytes \<Rightarrow> bool" where
  "utf8_valid s = (if s = [] then True
     else if utf8_len s = 0 then False else utf8_valid (drop (utf8_len s) s))"
  by pat_completeness auto
termination
  by (relation "measure length") auto

declare utf8_valid.simps [simp del]

text \<open>U+FFFD in UTF-8.\<close>

definition replacement :: bytes where
  "replacement = [CHR 0xEF, CHR 0xBF, CHR 0xBD]"

function from_utf8_lossy :: "bytes \<Rightarrow> bytes" where
  "from_utf8_lossy s = (if s = [] then []
     else if utf8_len s = 0 then replacement @ from_utf8_lossy (drop (utf8_bad_len s) s)
     else take (utf8_len s) s @ from_utf8_lossy (drop (utf8_len s) s))"
  by pat_completeness auto
termination
  by (relation "measure length") (auto simp: utf8_bad_len_pos)

declare from_utf8_lossy.simps [simp del]

text \<open>\<open>std::str::from_utf8\<close>\<close>

definition from_utf8 :: "bytes \<Rightarrow> bytes option" where
  "from_utf8 s = (if utf8_valid s then Some s else None)"

text \<open>\<open>str::is_char_boundary\<close>, and the two slices that panic off a boundary.\<close>

definition is_char_boundary :: "bytes \<Rightarrow> nat \<Rightarrow> bool" where
  "is_char_boundary s i \<longleftrightarrow>
     (if i = 0 then True else if length s \<le> i then i = length s else \<not> is_cont (s ! i))"

definition str_from :: "bytes \<Rightarrow> nat \<Rightarrow> bytes option" where
  "str_from s i = (if is_char_boundary s i then Some (drop i s) else None)"

definition str_upto :: "bytes \<Rightarrow> nat \<Rightarrow> bytes option" where
  "str_upto s i = (if is_char_boundary s i then Some (take i s) else None)"

lemma utf8_valid_Nil [simp]: "utf8_valid []"
  by (simp add: utf8_valid.simps)

lemma utf8_len_ascii [simp]: "ord b < 0x80 \<Longrightarrow> utf8_len (b # s) = 1"
  by simp

lemma utf8_valid_ascii_Cons [simp]: "ord b < 0x80 \<Longrightarrow> utf8_valid (b # s) = utf8_valid s"
  by (subst utf8_valid.simps) simp

lemma utf8_valid_ascii_append:
  "\<forall>b \<in> set s. is_ascii b \<Longrightarrow> utf8_valid (s @ t) = utf8_valid t"
  by (induction s) (auto simp: is_ascii_def)

lemma utf8_valid_ascii: "\<forall>b \<in> set s. is_ascii b \<Longrightarrow> utf8_valid s"
  using utf8_valid_ascii_append [of s "[]"] by simp

lemma utf8_valid_not_cont: "utf8_valid (b # s) \<Longrightarrow> \<not> is_cont b"
  by (subst (asm) utf8_valid.simps) (auto simp: is_cont_def split: if_splits)

text \<open>The four shapes of a well-formed sequence at the front.\<close>

lemma utf8_len_1: "ord b < 0x80 \<Longrightarrow> utf8_len (b # r) = 1"
  by simp

lemma utf8_len_2: "0xC2 \<le> ord b \<Longrightarrow> ord b < 0xE0 \<Longrightarrow> is_cont c \<Longrightarrow> utf8_len (b # c # r) = 2"
  by simp

lemma utf8_len_3:
  "0xE0 \<le> ord b \<Longrightarrow> ord b < 0xF0 \<Longrightarrow> second_ok b c \<Longrightarrow> is_cont d \<Longrightarrow> utf8_len (b # c # d # r) = 3"
  by simp

lemma utf8_len_4:
  "0xF0 \<le> ord b \<Longrightarrow> ord b < 0xF5 \<Longrightarrow> second_ok b c \<Longrightarrow> is_cont d \<Longrightarrow> is_cont e \<Longrightarrow>
   utf8_len (b # c # d # e # r) = 4"
  by simp

lemmas utf8_len_rules = utf8_len_1 utf8_len_2 utf8_len_3 utf8_len_4

lemma utf8_len_0:
  "\<not> ord b < 0x80 \<Longrightarrow> \<not> (0xC2 \<le> ord b \<and> ord b < 0xE0) \<Longrightarrow> \<not> (0xE0 \<le> ord b \<and> ord b < 0xF0) \<Longrightarrow>
   \<not> (0xF0 \<le> ord b \<and> ord b < 0xF5) \<Longrightarrow> utf8_len (b # r) = 0"
  by (simp only: utf8_len.simps if_False)

lemma utf8_len_cases:
  assumes "utf8_len s \<noteq> 0"
  obtains (one) b r where "s = b # r" "ord b < 0x80"
    | (two) b c r where "s = b # c # r" "0xC2 \<le> ord b" "ord b < 0xE0" "is_cont c"
    | (three) b c d r where "s = b # c # d # r" "0xE0 \<le> ord b" "ord b < 0xF0"
        "second_ok b c" "is_cont d"
    | (four) b c d e r where "s = b # c # d # e # r" "0xF0 \<le> ord b" "ord b < 0xF5"
        "second_ok b c" "is_cont d" "is_cont e"
proof -
  from assms obtain b r where s: "s = b # r" by (cases s) auto
  consider "ord b < 0x80" | "0xC2 \<le> ord b \<and> ord b < 0xE0" | "0xE0 \<le> ord b \<and> ord b < 0xF0"
    | "0xF0 \<le> ord b \<and> ord b < 0xF5"
    using assms utf8_len_0 [of b r] unfolding s by (metis (no_types))
  then show thesis
  proof cases
    case 1
    then show ?thesis using one s by simp
  next
    case 2
    then show ?thesis using two s assms by (cases r) (auto split: if_splits)
  next
    case 3
    then show ?thesis using three s assms by (auto split: if_splits list.splits)
  next
    case 4
    then show ?thesis using four s assms by (auto split: if_splits list.splits)
  qed
qed

declare utf8_len.simps(2) [simp del]

lemma second_ok_cont: "second_ok b c \<Longrightarrow> is_cont c"
  by (auto simp: second_ok_def is_cont_def split: if_splits)

text \<open>Inside a well-formed sequence of more than one byte no byte is ASCII.\<close>

lemma utf8_len_inner:
  assumes "i < utf8_len s" and "1 < utf8_len s"
  shows "0x80 \<le> ord (s ! i)"
proof -
  have cont: "\<And>c. is_cont c \<Longrightarrow> 0x80 \<le> ord c" by (simp add: is_cont_def)
  have sec: "\<And>b c. second_ok b c \<Longrightarrow> 0x80 \<le> ord c" using second_ok_cont cont by blast
  from assms have "utf8_len s \<noteq> 0" by simp
  then show ?thesis
  proof (cases s rule: utf8_len_cases)
    case one
    with assms show ?thesis by simp
  next
    case two
    then have "i < 2" using assms(1) utf8_len_2 by simp
    with two cont show ?thesis by (auto simp: less_2_cases_iff)
  next
    case three
    then have "i = 0 \<or> i = 1 \<or> i = 2" using assms(1) utf8_len_3 by auto
    with three cont sec show ?thesis by auto
  next
    case four
    then have "i = 0 \<or> i = 1 \<or> i = 2 \<or> i = 3" using assms(1) utf8_len_4 by auto
    with four cont sec show ?thesis by auto
  qed
qed

lemma utf8_len_append:
  assumes "utf8_len s \<noteq> 0"
  shows "utf8_len (s @ t) = utf8_len s"
  using assms by (cases s rule: utf8_len_cases) (simp_all add: utf8_len_rules)

lemma utf8_len_take:
  assumes "utf8_len s \<noteq> 0" and "utf8_len s \<le> n"
  shows "utf8_len (take n s) = utf8_len s"
proof -
  have "utf8_len (take (utf8_len s) s) = utf8_len s"
    using assms(1) by (cases s rule: utf8_len_cases) (simp_all add: utf8_len_rules take_Cons')
  moreover have "take n s = take (utf8_len s) s @ take (n - utf8_len s) (drop (utf8_len s) s)"
    using assms(2) by (metis le_add_diff_inverse take_add)
  ultimately show ?thesis using assms(1) utf8_len_append by metis
qed

text \<open>
  An ASCII byte of a valid string is a character of its own: the string splits there into valid
  halves. This is what makes every slice of the sources at an ASCII byte safe.
\<close>

lemma utf8_valid_split:
  assumes "utf8_valid (s @ b # t)" and "is_ascii b"
  shows "utf8_valid s \<and> utf8_valid t"
  using assms(1)
proof (induction s rule: length_induct)
  case (1 s)
  let ?u = "s @ b # t"
  show ?case
  proof (cases "s = []")
    case True
    with 1 assms(2) show ?thesis by (simp add: is_ascii_def)
  next
    case False
    have len: "utf8_len ?u \<noteq> 0" and rest: "utf8_valid (drop (utf8_len ?u) ?u)"
      using "1.prems" False by (subst (asm) utf8_valid.simps; simp split: if_splits)+
    have le: "utf8_len ?u \<le> length s"
    proof (rule ccontr)
      assume "\<not> ?thesis"
      then have "length s < utf8_len ?u" and "1 < utf8_len ?u"
        using False by (auto simp: not_le) (metis One_nat_def Suc_lessI length_greater_0_conv less_trans)
      then have "0x80 \<le> ord (?u ! length s)" by (rule utf8_len_inner)
      with assms(2) show False by (simp add: is_ascii_def)
    qed
    have ls: "utf8_len s = utf8_len ?u"
      using utf8_len_take [OF len le] by simp
    have "utf8_valid (drop (utf8_len ?u) s @ b # t)"
      using rest le by simp
    moreover have "length (drop (utf8_len ?u) s) < length s" using len False by simp
    ultimately have "utf8_valid (drop (utf8_len ?u) s) \<and> utf8_valid t"
      using "1.IH" by blast
    with ls len False show ?thesis by (subst utf8_valid.simps) simp
  qed
qed

lemma utf8_valid_boundary:
  assumes "utf8_valid s" and "i < length s" and "is_ascii (s ! i)"
  shows "is_char_boundary s i" and "is_char_boundary s (Suc i)"
    and "utf8_valid (take i s)" and "utf8_valid (drop (Suc i) s)"
proof -
  have "s = take i s @ s ! i # drop (Suc i) s" using assms(2) by (rule id_take_nth_drop)
  with assms(1,3) have v: "utf8_valid (take i s) \<and> utf8_valid (drop (Suc i) s)"
    by (metis utf8_valid_split)
  then show "utf8_valid (take i s)" and "utf8_valid (drop (Suc i) s)" by auto
  show "is_char_boundary s i"
    using assms(2,3) by (auto simp: is_char_boundary_def is_cont_def is_ascii_def)
  show "is_char_boundary s (Suc i)"
  proof (cases "Suc i < length s")
    case True
    then have "drop (Suc i) s = s ! Suc i # drop (Suc (Suc i)) s" by (simp add: Cons_nth_drop_Suc)
    with v have "\<not> is_cont (s ! Suc i)" by (metis utf8_valid_not_cont)
    with True show ?thesis by (simp add: is_char_boundary_def)
  next
    case False
    with assms(2) show ?thesis by (simp add: is_char_boundary_def)
  qed
qed

lemma utf8_valid_append:
  "utf8_valid s \<Longrightarrow> utf8_valid t \<Longrightarrow> utf8_valid (s @ t)"
proof (induction s rule: length_induct)
  case (1 s)
  show ?case
  proof (cases "s = []")
    case True
    with 1 show ?thesis by simp
  next
    case False
    have len: "utf8_len s \<noteq> 0" and rest: "utf8_valid (drop (utf8_len s) s)"
      using "1.prems" False by (subst (asm) utf8_valid.simps; simp split: if_splits)+
    have "utf8_valid (drop (utf8_len s) s @ t)"
      using "1.IH" rest "1.prems"(2) len False by simp
    moreover have "drop (utf8_len s) (s @ t) = drop (utf8_len s) s @ t"
      using utf8_len_le [of s] by simp
    ultimately show ?thesis
      using len False utf8_len_append [OF len, of t] by (subst utf8_valid.simps) simp
  qed
qed

lemma utf8_valid_take_len:
  assumes "utf8_len s \<noteq> 0"
  shows "utf8_valid (take (utf8_len s) s)"
proof -
  have "utf8_len (take (utf8_len s) s) = utf8_len s" using assms by (rule utf8_len_take) simp
  with assms utf8_len_le [of s] show ?thesis by (subst utf8_valid.simps) simp
qed

lemma utf8_valid_replacement: "utf8_valid replacement"
proof -
  have "utf8_len replacement = 3"
    unfolding replacement_def by (rule utf8_len_3) (simp_all add: second_ok_def is_cont_def)
  then show ?thesis by (subst utf8_valid.simps) (simp add: replacement_def)
qed

text \<open>The lossy conversion always gives a valid string, and is the identity on valid ones.\<close>

lemma from_utf8_lossy_valid: "utf8_valid (from_utf8_lossy s)"
proof (induction s rule: from_utf8_lossy.induct)
  case (1 s)
  then show ?case
    by (subst from_utf8_lossy.simps)
       (auto intro: utf8_valid_append utf8_valid_replacement utf8_valid_take_len)
qed

lemma from_utf8_lossy_id: "utf8_valid s \<Longrightarrow> from_utf8_lossy s = s"
proof (induction s rule: from_utf8_lossy.induct)
  case (1 s)
  show ?case
  proof (cases "s = []")
    case True
    then show ?thesis by (simp add: from_utf8_lossy.simps)
  next
    case False
    have "utf8_len s \<noteq> 0" and "utf8_valid (drop (utf8_len s) s)"
      using "1.prems" False by (subst (asm) utf8_valid.simps; simp split: if_splits)+
    with "1.IH" False show ?thesis by (subst from_utf8_lossy.simps) simp
  qed
qed


section \<open>Unicode white space: \<open>str::trim_start\<close>, \<open>str::trim_end\<close>, \<open>str::trim\<close>\<close>

text \<open>
  The characters with the property \<open>White_Space\<close> take one byte (U+0009 to U+000D and U+0020), two
  bytes (U+0085, U+00A0) or three (U+1680, U+2000 to U+200A, U+2028, U+2029, U+202F, U+205F, U+3000).
\<close>

definition ws1 :: "byte \<Rightarrow> bool" where
  "ws1 b \<longleftrightarrow> in_range 0x09 0x0D b \<or> ord b = 0x20"

definition ws2 :: "byte \<Rightarrow> byte \<Rightarrow> bool" where
  "ws2 b c \<longleftrightarrow> ord b = 0xC2 \<and> ord c \<in> {0x85, 0xA0}"

definition ws3 :: "byte \<Rightarrow> byte \<Rightarrow> byte \<Rightarrow> bool" where
  "ws3 b c d \<longleftrightarrow>
     (ord b = 0xE1 \<and> ord c = 0x9A \<and> ord d = 0x80) \<or>
     (ord b = 0xE2 \<and> ord c = 0x80 \<and> (in_range 0x80 0x8A d \<or> ord d \<in> {0xA8, 0xA9, 0xAF})) \<or>
     (ord b = 0xE2 \<and> ord c = 0x81 \<and> ord d = 0x9F) \<or>
     (ord b = 0xE3 \<and> ord c = 0x80 \<and> ord d = 0x80)"

fun trim_start :: "bytes \<Rightarrow> bytes" where
  "trim_start (b # c # d # s) =
     (if ws1 b then trim_start (c # d # s)
      else if ws2 b c then trim_start (d # s)
      else if ws3 b c d then trim_start s
      else b # c # d # s)"
| "trim_start [b, c] = (if ws1 b then trim_start [c] else if ws2 b c then [] else [b, c])"
| "trim_start [b] = (if ws1 b then [] else [b])"
| "trim_start [] = []"

text \<open>\<open>trim_end\<close> reads the string from its end: the bytes of a character come in reverse there.\<close>

fun trim_start_rev :: "bytes \<Rightarrow> bytes" where
  "trim_start_rev (b # c # d # s) =
     (if ws1 b then trim_start_rev (c # d # s)
      else if ws2 c b then trim_start_rev (d # s)
      else if ws3 d c b then trim_start_rev s
      else b # c # d # s)"
| "trim_start_rev [b, c] = (if ws1 b then trim_start_rev [c] else if ws2 c b then [] else [b, c])"
| "trim_start_rev [b] = (if ws1 b then [] else [b])"
| "trim_start_rev [] = []"

definition trim_end :: "bytes \<Rightarrow> bytes" where
  "trim_end s = rev (trim_start_rev (rev s))"

definition trim :: "bytes \<Rightarrow> bytes" where
  "trim s = trim_end (trim_start s)"

lemma ws2_cont: "ws2 b c \<Longrightarrow> 0xC2 \<le> ord b \<and> ord b < 0xE0 \<and> is_cont c"
  by (auto simp: ws2_def is_cont_def)

lemma ws3_cont: "ws3 b c d \<Longrightarrow> 0xE0 \<le> ord b \<and> ord b < 0xF0 \<and> second_ok b c \<and> is_cont d"
  by (auto simp: ws3_def second_ok_def is_cont_def in_range_def)

lemma ws1_ascii: "ws1 b \<Longrightarrow> ord b < 0x80"
  by (auto simp: ws1_def in_range_def)

lemma utf8_valid_ws2: "ws2 b c \<Longrightarrow> utf8_valid (b # c # s) = utf8_valid s"
  using utf8_len_2 [of b c s] ws2_cont [of b c] by (subst utf8_valid.simps) simp

lemma utf8_valid_ws3: "ws3 b c d \<Longrightarrow> utf8_valid (b # c # d # s) = utf8_valid s"
  using utf8_len_3 [of b c d s] ws3_cont [of b c d] by (subst utf8_valid.simps) simp

lemma utf8_valid_ws1: "ws1 b \<Longrightarrow> utf8_valid (b # s) = utf8_valid s"
  using ws1_ascii [of b] by simp

lemma ws_exclusive: "ws1 b \<Longrightarrow> \<not> ws2 b c" "ws1 b \<Longrightarrow> \<not> ws3 b c d" "ws2 b c \<Longrightarrow> \<not> ws3 b c d"
  by (auto simp: ws1_def ws2_def ws3_def in_range_def)

lemma utf8_valid_trim_start: "utf8_valid s \<Longrightarrow> utf8_valid (trim_start s)"
  by (induction s rule: trim_start.induct)
     (auto simp: utf8_valid_ws1 utf8_valid_ws2 utf8_valid_ws3 ws_exclusive)

lemma trim_start_suffix: "\<exists>t. s = t @ trim_start s"
proof (induction s rule: trim_start.induct)
  case (1 b c d s)
  then show ?case by (auto; metis append_Cons)
qed auto

lemma trim_start_non_ws:
  assumes "\<not> ws1 b" and "ord b < 0x80"
  shows "trim_start (b # s) = b # s"
proof -
  have "\<And>c. \<not> ws2 b c" and "\<And>c d. \<not> ws3 b c d" using assms(2) by (auto simp: ws2_def ws3_def)
  then show ?thesis using assms(1) by (cases "b # s" rule: trim_start.cases) auto
qed

text \<open>A string is white space when trimming leaves nothing of it.\<close>

definition ws_only :: "bytes \<Rightarrow> bool" where
  "ws_only s \<longleftrightarrow> trim_start s = []"

lemma trim_start_ws_append: "ws_only s \<Longrightarrow> trim_start (s @ t) = trim_start t"
  unfolding ws_only_def
proof (induction s rule: trim_start.induct)
  case (2 b c)
  then show ?case by (cases t rule: trim_start.cases) (auto split: if_splits simp: ws_exclusive)
next
  case (3 b)
  then show ?case by (cases t rule: trim_start.cases) (auto split: if_splits)
qed (auto split: if_splits)

lemma trim_start_decomp: "\<exists>w. s = w @ trim_start s \<and> ws_only w"
  unfolding ws_only_def
proof (induction s rule: trim_start.induct)
  case (1 b c d s)
  consider "ws1 b" | "\<not> ws1 b" "ws2 b c" | "\<not> ws1 b" "\<not> ws2 b c" "ws3 b c d"
    | "\<not> ws1 b" "\<not> ws2 b c" "\<not> ws3 b c d" by blast
  then show ?case
  proof cases
    case 1
    then obtain w where w: "c # d # s = w @ trim_start (c # d # s)" "trim_start w = []"
      using "1.IH"(1) by auto
    moreover have "trim_start (b # w) = []"
      using trim_start_ws_append [of "[b]" w] 1 w(2) by (simp add: ws_only_def)
    ultimately show ?thesis using 1 by (intro exI [of _ "b # w"]) simp
  next
    case 2
    then obtain w where w: "d # s = w @ trim_start (d # s)" "trim_start w = []"
      using "1.IH"(2) by auto
    moreover have "trim_start (b # c # w) = []"
      using trim_start_ws_append [of "[b, c]" w] 2 w(2) by (simp add: ws_only_def)
    ultimately show ?thesis using 2 by (intro exI [of _ "b # c # w"]) simp
  next
    case 3
    then obtain w where w: "s = w @ trim_start s" "trim_start w = []"
      using "1.IH"(3) by auto
    moreover have "trim_start (b # c # d # w) = []"
      using trim_start_ws_append [of "[b, c, d]" w] 3 w(2) by (simp add: ws_only_def)
    ultimately show ?thesis using 3 by (intro exI [of _ "b # c # d # w"]) simp
  next
    case 4
    then show ?thesis by (intro exI [of _ "[]"]) simp
  qed
next
  case (2 b c)
  then show ?case by (cases "ws1 b"; cases "ws1 c"; cases "ws2 b c") (auto intro: exI [of _ "[]"] exI [of _ "[b]"])
next
  case (3 b)
  then show ?case by (cases "ws1 b") auto
qed auto

lemma trim_start_ascii:
  "\<forall>b \<in> set s. is_ascii b \<Longrightarrow> trim_start s = dropWhile ws1 s"
  by (induction s rule: trim_start.induct) (auto simp: is_ascii_def ws2_def ws3_def)

lemma trim_start_rev_ascii:
  "\<forall>b \<in> set s. is_ascii b \<Longrightarrow> trim_start_rev s = dropWhile ws1 s"
  by (induction s rule: trim_start_rev.induct) (auto simp: is_ascii_def ws2_def ws3_def)

lemma trim_end_ascii:
  "\<forall>b \<in> set s. is_ascii b \<Longrightarrow> trim_end s = trim_end_matches ws1 s"
  by (simp add: trim_end_def trim_end_matches_def trim_start_rev_ascii)


section \<open>Decimal numbers\<close>

definition digit_char :: "nat \<Rightarrow> byte" where
  "digit_char d = char_of (0x30 + d)"

text \<open>The \<open>Display\<close> form of an unsigned integer.\<close>

fun show_nat :: "nat \<Rightarrow> bytes" where
  "show_nat n = (if n < 10 then [digit_char n] else show_nat (n div 10) @ [digit_char (n mod 10)])"

declare show_nat.simps [simp del]

definition digit_val :: "byte \<Rightarrow> nat" where
  "digit_val b = ord b - 0x30"

definition nat_of_digits :: "bytes \<Rightarrow> nat" where
  "nat_of_digits s = foldl (\<lambda>n b. 10 * n + digit_val b) 0 s"

text \<open>
  \<open>str::parse\<close> to an unsigned integer of \<open>w\<close> bits: an optional \<open>+\<close>, then at least one digit and only
  digits, and the value must fit.
\<close>

definition parse_uint :: "nat \<Rightarrow> bytes \<Rightarrow> nat option" where
  "parse_uint w s =
     (let ds = (case s of b # r \<Rightarrow> if b = CHR ''+'' then r else s | [] \<Rightarrow> s)
      in if ds \<noteq> [] \<and> list_all is_ascii_digit ds \<and> nat_of_digits ds < 2 ^ w
         then Some (nat_of_digits ds) else None)"

lemma ord_digit_char: "d < 10 \<Longrightarrow> ord (digit_char d) = 0x30 + d"
  by (simp add: digit_char_def)

lemma digit_char_digit: "d < 10 \<Longrightarrow> is_ascii_digit (digit_char d)"
  by (simp add: ord_digit_char byte_defs)

lemma show_nat_digits: "\<forall>b \<in> set (show_nat n). is_ascii_digit b"
proof (induction n rule: show_nat.induct)
  case (1 n)
  then show ?case by (subst show_nat.simps) (auto simp: digit_char_digit)
qed

lemma show_nat_not_Nil [simp]: "show_nat n \<noteq> []"
  by (subst show_nat.simps) simp

lemma nat_of_digits_show: "nat_of_digits (show_nat n) = n"
proof (induction n rule: show_nat.induct)
  case (1 n)
  show ?case
  proof (cases "n < 10")
    case True
    then show ?thesis
      by (subst show_nat.simps) (simp add: nat_of_digits_def digit_val_def ord_digit_char)
  next
    case False
    with 1 have "nat_of_digits (show_nat (n div 10)) = n div 10" by simp
    with False show ?thesis
      by (subst show_nat.simps) (simp add: nat_of_digits_def digit_val_def ord_digit_char)
  qed
qed

lemma parse_uint_show:
  assumes "n < 2 ^ w"
  shows "parse_uint w (show_nat n) = Some n"
proof -
  obtain b r where br: "show_nat n = b # r" by (cases "show_nat n") auto
  then have "b \<noteq> CHR ''+''" using show_nat_digits [of n] by (auto simp: byte_defs)
  moreover have "list_all is_ascii_digit (show_nat n)"
    using show_nat_digits [of n] by (simp add: list_all_iff)
  ultimately show ?thesis
    using assms nat_of_digits_show [of n] br by (simp add: parse_uint_def)
qed

lemma show_nat_3:
  "n < 1000 \<Longrightarrow> 100 \<le> n \<Longrightarrow>
   show_nat n = [digit_char (n div 100), digit_char (n div 10 mod 10), digit_char (n mod 10)]"
proof -
  assume "n < 1000" "100 \<le> n"
  then have "\<not> n < 10" "\<not> n div 10 < 10" "n div 10 div 10 < 10" "n div 10 div 10 = n div 100" by auto
  then show ?thesis
    by (simp add: show_nat.simps [of n] show_nat.simps [of "n div 10"]
        show_nat.simps [of "n div 100"])
qed

end
