(* ===== verification/Streams.thy ===== *)
theory Streams
  imports Prelude
begin

text \<open>
  What the client side and the upstream side share of the asynchronous I/O of the sources: error kinds,
  reads as data (the bytes of each arrival with the silence before it), one read under a timeout, and the
  \<open>?\<close> operator over results that may also be a panic.
\<close>

text \<open>
  \<open>std::io::ErrorKind\<close>, as far as the sources tell kinds apart. \<open>Never\<close> is not one of them: it is what becomes of an
  \<open>await\<close> that does not complete, and ends whatever waits for it. A read has a timeout, which it runs into
  then; a write to a client has none.
\<close>

datatype error_kind =
    TimedOut | UnexpectedEof | BrokenPipe | ConnectionReset | ConnectionAborted | NotConnected
  | InvalidData | OtherKind | Never

text \<open>One read of the socket: the time in milliseconds that passes before it, and what it gives.\<close>

datatype read_event = Arrives nat bytes | Fails nat error_kind

definition arrival :: "read_event \<Rightarrow> bytes" where
  "arrival e = (case e of Arrives _ bs \<Rightarrow> bs | Fails _ _ \<Rightarrow> [])"

definition READ_CHUNK :: nat where
  "READ_CHUNK = 8192"

definition event_size :: "read_event \<Rightarrow> nat" where
  "event_size e = (case e of Arrives _ bs \<Rightarrow> Suc (length bs) | Fails _ _ \<Rightarrow> 1)"

definition events_size :: "read_event list \<Rightarrow> nat" where
  "events_size evs = sum_list (map event_size evs)"

text \<open>
  One \<open>stream.read\<close> under \<open>timeout\<close>: at most \<open>READ_CHUNK\<close> bytes; what a longer arrival leaves is there at once
  for the next read.
\<close>

fun read_chunk :: "nat \<Rightarrow> read_event list \<Rightarrow> (error_kind + bytes) \<times> read_event list" where
  "read_chunk deadline [] = (Inl TimedOut, [])"
| "read_chunk deadline (Fails w e # evs) =
     (if w > deadline \<or> e = Never then (Inl TimedOut, Fails w e # evs) else (Inl e, evs))"
| "read_chunk deadline (Arrives w bs # evs) =
     (if w > deadline then (Inl TimedOut, Arrives w bs # evs)
      else (Inr (take READ_CHUNK bs),
            if length bs > READ_CHUNK then Arrives 0 (drop READ_CHUNK bs) # evs else evs))"

lemma read_chunk_size:
  assumes "read_chunk d evs = (Inr bs, evs')"
  shows "events_size evs' < events_size evs" and "length bs + events_size evs' \<le> events_size evs"
  using assms
  by (cases "(d, evs)" rule: read_chunk.cases;
      auto simp: events_size_def event_size_def READ_CHUNK_def split: if_splits)+

lemma read_chunk_fail_size: "read_chunk d evs = (Inl e, evs') \<Longrightarrow> events_size evs' \<le> events_size evs"
  by (cases "(d, evs)" rule: read_chunk.cases) (auto simp: events_size_def split: if_splits)

lemma read_chunk_error: "read_chunk d evs = (Inl e, evs') \<Longrightarrow> e \<noteq> Never"
  by (cases "(d, evs)" rule: read_chunk.cases) (auto split: if_splits)

text \<open>The \<open>?\<close> of the source: an error ends the function, a panic ends the task.\<close>

definition and_then ::
  "(('e + 'a) \<times> 's) option \<Rightarrow> ('a \<Rightarrow> 's \<Rightarrow> (('e + 'b) \<times> 's) option) \<Rightarrow> (('e + 'b) \<times> 's) option" where
  "and_then m k =
     (case m of
        None \<Rightarrow> None
      | Some (Inl e, s) \<Rightarrow> Some (Inl e, s)
      | Some (Inr a, s) \<Rightarrow> k a s)"

definition ok :: "'a \<Rightarrow> 's \<Rightarrow> (('e + 'a) \<times> 's) option" where
  "ok a s = Some (Inr a, s)"

end
