(* ===== verification/Params.thy ===== *)
theory Params
  imports Prelude
begin

text \<open>
  \<open>src/src/smtp/params.rs\<close>: the esmtp-param lists of RFC 5321 section 4.1.2. \<open>parse_params\<close> is the
  parser of the source; \<open>param_text\<close> writes one parameter the way \<open>dsn_suffix\<close> of the relay does, and
  is its inverse.
\<close>

record param =
  par_keyword :: bytes
  par_value :: "bytes option"

definition is_keyword_start :: "byte \<Rightarrow> bool" where
  [byte_defs]: "is_keyword_start b \<longleftrightarrow> is_ascii_alphanumeric b"

definition is_keyword_char :: "byte \<Rightarrow> bool" where
  [byte_defs]: "is_keyword_char b \<longleftrightarrow> is_ascii_alphanumeric b \<or> b = CHR ''-''"

definition is_value_char :: "byte \<Rightarrow> bool" where
  [byte_defs]: "is_value_char b \<longleftrightarrow> in_range 0x21 0x7E b \<and> b \<noteq> CHR ''=''"

text \<open>One round of the loop of \<open>parse_params\<close>: a word to a parameter, or the early return.\<close>

definition parse_param :: "bytes \<Rightarrow> param option" where
  "parse_param word =
     (let (kw, val) = (case split_once (CHR ''='') word of
                         Some (k, v) \<Rightarrow> (k, Some v)
                       | None \<Rightarrow> (word, None))
      in if kw = [] \<or> \<not> is_keyword_start (hd kw) \<or> \<not> list_all is_keyword_char kw then None
         else if (case val of Some v \<Rightarrow> v = [] \<or> \<not> list_all is_value_char v | None \<Rightarrow> False) then None
         else Some \<lparr>par_keyword = kw, par_value = val\<rparr>)"

fun parse_words :: "bytes list \<Rightarrow> param list \<Rightarrow> param list option" where
  "parse_words [] out = Some out"
| "parse_words (w # ws) out =
     (case parse_param w of None \<Rightarrow> None | Some p \<Rightarrow> parse_words ws (out @ [p]))"

definition parse_params :: "bytes \<Rightarrow> param list option" where
  "parse_params text = parse_words (split_ascii_whitespace text) []"


section \<open>Well-formed parameters\<close>

definition wf_param :: "param \<Rightarrow> bool" where
  "wf_param p \<longleftrightarrow>
     par_keyword p \<noteq> [] \<and> is_keyword_start (hd (par_keyword p)) \<and>
     list_all is_keyword_char (par_keyword p) \<and>
     (case par_value p of None \<Rightarrow> True | Some v \<Rightarrow> v \<noteq> [] \<and> list_all is_value_char v)"

definition param_text :: "param \<Rightarrow> bytes" where
  "param_text p = par_keyword p @ (case par_value p of None \<Rightarrow> [] | Some v \<Rightarrow> CHR ''='' # v)"

lemma keyword_char_no_eq: "is_keyword_char b \<Longrightarrow> b \<noteq> CHR ''='' \<and> \<not> is_ascii_whitespace b"
  by (auto simp: byte_defs)

lemma value_char_no_ws: "is_value_char b \<Longrightarrow> \<not> is_ascii_whitespace b"
  by (auto simp: byte_defs)

lemma keyword_char_ascii: "is_keyword_char b \<Longrightarrow> is_ascii b"
  by (auto simp: byte_defs)

lemma value_char_ascii: "is_value_char b \<Longrightarrow> is_ascii b"
  by (auto simp: byte_defs)

lemma parse_param_text: "wf_param p \<Longrightarrow> parse_param (param_text p) = Some p"
proof -
  assume wf: "wf_param p"
  then have eq: "CHR ''='' \<notin> set (par_keyword p)"
    by (auto simp: wf_param_def list_all_iff dest: keyword_char_no_eq)
  have "split_once (CHR ''='') (param_text p) = map_option (\<lambda>v. (par_keyword p, v)) (par_value p)"
    using eq by (cases "par_value p") (auto simp: param_text_def split_once_None split_once_Some)
  then show ?thesis
    using wf by (cases p) (auto simp: parse_param_def wf_param_def param_text_def split: option.splits)
qed

text \<open>A word is parsed to a parameter exactly when it is the text of a well-formed one.\<close>

lemma parse_param_iff: "parse_param w = Some p \<longleftrightarrow> wf_param p \<and> w = param_text p"
proof
  assume "parse_param w = Some p"
  then show "wf_param p \<and> w = param_text p"
    by (auto simp: parse_param_def wf_param_def param_text_def Let_def split_once_Some
        split: option.splits prod.splits if_splits)
qed (auto simp: parse_param_text)

lemma parse_words_acc:
  "parse_words ws out = map_option ((@) out) (those (map parse_param ws))"
proof (induction ws arbitrary: out)
  case Nil
  then show ?case by simp
next
  case (Cons w ws)
  then show ?case by (auto simp: option.map_comp comp_def split: option.splits)
qed

lemma parse_words_iff:
  "parse_words ws [] = Some ps \<longleftrightarrow> list_all wf_param ps \<and> ws = map param_text ps"
proof (induction ws arbitrary: ps)
  case Nil
  then show ?case by auto
next
  case (Cons w ws)
  have "parse_words (w # ws) [] = Some ps \<longleftrightarrow>
    (\<exists>p ps'. parse_param w = Some p \<and> parse_words ws [] = Some ps' \<and> ps = p # ps')"
    by (auto simp: parse_words_acc split: option.splits)
  then show ?case by (auto simp: Cons.IH parse_param_iff Cons_eq_map_conv)
qed

text \<open>\<open>parse_params\<close> accepts a text exactly when every one of its words is a well-formed parameter.\<close>

lemma parse_params_iff:
  "parse_params t = Some ps \<longleftrightarrow> list_all wf_param ps \<and> split_ascii_whitespace t = map param_text ps"
  by (simp add: parse_params_def parse_words_iff)

lemma param_text_no_ws:
  "wf_param p \<Longrightarrow> b \<in> set (param_text p) \<Longrightarrow> \<not> is_ascii_whitespace b \<and> is_ascii b"
proof -
  assume wf: "wf_param p" and b: "b \<in> set (param_text p)"
  consider "b \<in> set (par_keyword p)" | "b = CHR ''=''" | v where "par_value p = Some v" "b \<in> set v"
    using b by (cases "par_value p") (auto simp: param_text_def)
  then show ?thesis
  proof cases
    case 1
    with wf have "is_keyword_char b" by (auto simp: wf_param_def list_all_iff)
    then show ?thesis by (simp add: keyword_char_no_eq keyword_char_ascii)
  next
    case 2
    then show ?thesis by (simp add: byte_defs)
  next
    case 3
    with wf have "is_value_char b" by (auto simp: wf_param_def list_all_iff)
    then show ?thesis by (simp add: value_char_no_ws value_char_ascii)
  qed
qed

lemma param_text_not_Nil: "wf_param p \<Longrightarrow> param_text p \<noteq> []"
  by (auto simp: param_text_def wf_param_def)

text \<open>The parameters after the path of a command, each with a space in front.\<close>

definition params_suffix :: "param list \<Rightarrow> bytes" where
  "params_suffix ps = concat (map (\<lambda>p. SP # param_text p) ps)"

lemma SP_whitespace: "is_ascii_whitespace SP"
  by (simp add: byte_defs)

lemma split_ascii_whitespace_suffix:
  assumes "\<forall>b \<in> set w. \<not> is_ascii_whitespace b" and "list_all wf_param ps"
  shows "split_ascii_whitespace (w @ params_suffix ps) =
         (if w = [] then [] else [w]) @ map param_text ps"
  using assms
proof (induction ps arbitrary: w)
  case Nil
  then show ?case by (simp add: params_suffix_def split_ascii_whitespace_def split_at_no)
next
  case (Cons p ps)
  let ?t = "param_text p"
  have t: "\<forall>b \<in> set ?t. \<not> is_ascii_whitespace b" "?t \<noteq> []" "list_all wf_param ps"
    using Cons.prems param_text_no_ws param_text_not_Nil by auto
  have "w @ params_suffix (p # ps) = w @ SP # (?t @ params_suffix ps)"
    by (simp add: params_suffix_def)
  then have "split_ascii_whitespace (w @ params_suffix (p # ps)) =
      (if w = [] then [] else [w]) @ split_ascii_whitespace (?t @ params_suffix ps)"
    using Cons.prems(1) SP_whitespace
    by (simp add: split_ascii_whitespace_def split_at_Cons_no)
  also have "\<dots> = (if w = [] then [] else [w]) @ map param_text (p # ps)"
    using Cons.IH [OF t(1,3)] t(2) by simp
  finally show ?case .
qed

lemma parse_params_suffix:
  assumes "list_all wf_param (p # ps)"
  shows "parse_params (tl (params_suffix (p # ps))) = Some (p # ps)"
proof -
  have "tl (params_suffix (p # ps)) = param_text p @ params_suffix ps"
    by (simp add: params_suffix_def)
  moreover have "split_ascii_whitespace (param_text p @ params_suffix ps) = map param_text (p # ps)"
    using assms split_ascii_whitespace_suffix [of "param_text p" ps] param_text_no_ws param_text_not_Nil
    by auto
  ultimately show ?thesis using assms by (simp add: parse_params_iff)
qed

end
