(* ===== verification/Dsn.thy ===== *)
theory Dsn
  imports Params
begin

text \<open>
  \<open>src/src/smtp/dsn.rs\<close>: the four delivery status notification parameters of RFC 3461. The checkers are the
  loops of the source; the lemmas state what each accepts without a loop: xtext as a grammar
  (\<open>is_xtext_iff\<close>), \<open>NOTIFY\<close> as a set of distinct values (\<open>check_notify_iff\<close>), and a whole parameter list as
  \<open>dsn_ok\<close> (\<open>validate_dsn_iff\<close>).
\<close>

datatype dsn_command = DsnMail | DsnRcpt

definition is_mail_dsn_keyword :: "bytes \<Rightarrow> bool" where
  "is_mail_dsn_keyword k \<longleftrightarrow> eq_ignore_ascii_case k ''RET'' \<or> eq_ignore_ascii_case k ''ENVID''"

definition is_rcpt_dsn_keyword :: "bytes \<Rightarrow> bool" where
  "is_rcpt_dsn_keyword k \<longleftrightarrow> eq_ignore_ascii_case k ''NOTIFY'' \<or> eq_ignore_ascii_case k ''ORCPT''"

definition xtext_char :: "byte \<Rightarrow> bool" where
  [byte_defs]: "xtext_char b \<longleftrightarrow> in_range 0x21 0x2A b \<or> in_range 0x2C 0x3C b \<or> in_range 0x3E 0x7E b"

fun is_xtext :: "bytes \<Rightarrow> bool" where
  "is_xtext [] = True"
| "is_xtext (b # s) =
     (if b = CHR ''+'' then
        (case s of
           h1 # h2 # r \<Rightarrow>
             if \<not> is_ascii_hexdigit h1 \<or> \<not> is_ascii_hexdigit h2 then False else is_xtext r
         | _ \<Rightarrow> False)
      else if xtext_char b then is_xtext s
      else False)"

definition check_ret :: "bytes option \<Rightarrow> bytes + unit" where
  "check_ret val =
     (case val of
        Some v \<Rightarrow> if eq_ignore_ascii_case v ''FULL'' \<or> eq_ignore_ascii_case v ''HDRS'' then Inr ()
                  else Inl ''RET requires a value of FULL or HDRS''
      | None \<Rightarrow> Inl ''RET requires a value of FULL or HDRS'')"

definition nonempty_value :: "bytes option \<Rightarrow> bytes option" where
  "nonempty_value val = (case val of Some v \<Rightarrow> if v = [] then None else Some v | None \<Rightarrow> None)"

definition check_envid :: "bytes option \<Rightarrow> bytes + unit" where
  "check_envid val =
     (case nonempty_value val of
        None \<Rightarrow> Inl ''ENVID requires a value''
      | Some v \<Rightarrow> if length v > 100 then Inl ''ENVID is limited to 100 characters''
                  else if \<not> is_xtext v then Inl ''ENVID must be xtext''
                  else Inr ())"

definition notify_values :: "bytes set" where
  "notify_values = {''NEVER'', ''SUCCESS'', ''FAILURE'', ''DELAY''}"

text \<open>The loop of \<open>check_notify\<close> over the items, with the list of values already seen.\<close>

fun notify_items :: "bytes list \<Rightarrow> bytes list \<Rightarrow> bytes + bytes list" where
  "notify_items [] seen = Inr seen"
| "notify_items (item # items) seen =
     (let upper = to_ascii_uppercase item
      in if upper \<notin> notify_values then Inl (''NOTIFY value '' @ [CHR 0x27] @ item @ [CHR 0x27] @ '' is not recognised'')
         else if List.member seen upper then Inl (''NOTIFY lists '' @ upper @ '' more than once'')
         else notify_items items (seen @ [upper]))"

definition check_notify :: "bytes option \<Rightarrow> bytes + unit" where
  "check_notify val =
     (case nonempty_value val of
        None \<Rightarrow> Inl ''NOTIFY requires a value''
      | Some v \<Rightarrow>
          (let items = split_at ((=) (CHR '','')) v
           in if list_ex (\<lambda>i. i = []) items then Inl ''NOTIFY has an empty element''
              else (case notify_items items [] of
                      Inl e \<Rightarrow> Inl e
                    | Inr seen \<Rightarrow>
                        if list_ex (\<lambda>s. s = ''NEVER'') seen \<and> length items > 1
                        then Inl ''NOTIFY=NEVER cannot be combined with other values''
                        else Inr ())))"

definition bad_shape :: bytes where
  "bad_shape = ''ORCPT must be an address type, a semicolon and an address''"

definition type_char :: "byte \<Rightarrow> bool" where
  [byte_defs]: "type_char b \<longleftrightarrow> is_ascii_alphanumeric b \<or> b = CHR ''-''"

definition check_orcpt :: "bytes option \<Rightarrow> bytes + unit" where
  "check_orcpt val =
     (case nonempty_value val of
        None \<Rightarrow> Inl ''ORCPT requires a value''
      | Some v \<Rightarrow>
          if length v > 500 then Inl ''ORCPT is limited to 500 characters''
          else (case split_once (CHR '';'') v of
                  None \<Rightarrow> Inl bad_shape
                | Some (atype, address) \<Rightarrow>
                    (let type_ok = (atype \<noteq> [] \<and> is_ascii_alphanumeric (hd atype) \<and> list_all type_char atype)
                     in if \<not> type_ok \<or> address = [] then Inl bad_shape
                        else if \<not> is_xtext address then Inl ''ORCPT address must be xtext''
                        else Inr ())))"

text \<open>The checker a keyword (in upper case) has at a command; \<^const>\<open>None\<close> is the \<open>continue\<close> of the loop.\<close>

definition dsn_check :: "dsn_command \<Rightarrow> bytes \<Rightarrow> (bytes option \<Rightarrow> bytes + unit) option" where
  "dsn_check which keyword =
     (case which of
        DsnMail \<Rightarrow> if keyword = ''RET'' then Some check_ret
                   else if keyword = ''ENVID'' then Some check_envid else None
      | DsnRcpt \<Rightarrow> if keyword = ''NOTIFY'' then Some check_notify
                   else if keyword = ''ORCPT'' then Some check_orcpt else None)"

fun validate_loop :: "dsn_command \<Rightarrow> param list \<Rightarrow> bytes list \<Rightarrow> bytes + unit" where
  "validate_loop which [] seen = Inr ()"
| "validate_loop which (p # ps) seen =
     (let keyword = to_ascii_uppercase (par_keyword p)
      in case dsn_check which keyword of
           None \<Rightarrow> validate_loop which ps seen
         | Some check \<Rightarrow>
             if List.member seen keyword then Inl (keyword @ '' given more than once'')
             else (case check (par_value p) of
                     Inl e \<Rightarrow> Inl e
                   | Inr _ \<Rightarrow> validate_loop which ps (seen @ [keyword])))"

definition validate_dsn :: "param list \<Rightarrow> dsn_command \<Rightarrow> bytes + unit" where
  "validate_dsn params which = validate_loop which params []"


section \<open>What each checker accepts\<close>

text \<open>xtext by its grammar: RFC 3461 section 4.\<close>

inductive xtext :: "bytes \<Rightarrow> bool" where
  empty: "xtext []"
| plain: "xtext_char b \<Longrightarrow> xtext s \<Longrightarrow> xtext (b # s)"
| hex: "is_ascii_hexdigit h1 \<Longrightarrow> is_ascii_hexdigit h2 \<Longrightarrow> xtext s \<Longrightarrow> xtext (CHR ''+'' # h1 # h2 # s)"

inductive_cases xtext_ConsE: "xtext (b # s)"

lemma plus_not_xtext_char: "\<not> xtext_char (CHR ''+'')"
  by (simp add: byte_defs)

lemma is_xtext_imp: "is_xtext s \<Longrightarrow> xtext s"
proof (induction s rule: is_xtext.induct)
  case (2 b s)
  then show ?case by (auto split: if_splits list.splits intro: xtext.intros)
qed (rule xtext.empty)

lemma xtext_imp: "xtext s \<Longrightarrow> is_xtext s"
  by (induction rule: xtext.induct) (auto simp: plus_not_xtext_char)

lemma is_xtext_iff: "is_xtext s \<longleftrightarrow> xtext s"
  using is_xtext_imp xtext_imp by blast

text \<open>The loop over the items of \<open>NOTIFY\<close> ends well exactly on known values that are all distinct.\<close>

lemma notify_items_ok:
  "notify_items items seen = Inr r \<longleftrightarrow>
     r = seen @ map to_ascii_uppercase items \<and>
     set (map to_ascii_uppercase items) \<subseteq> notify_values \<and>
     distinct (map to_ascii_uppercase items) \<and>
     set seen \<inter> set (map to_ascii_uppercase items) = {}"
  by (induction items arbitrary: seen) (auto simp: Let_def)

definition notify_ok :: "bytes \<Rightarrow> bool" where
  "notify_ok v \<longleftrightarrow>
     (let items = map to_ascii_uppercase (split_at ((=) (CHR '','')) v)
      in set items \<subseteq> notify_values \<and> distinct items \<and> (''NEVER'' \<in> set items \<longrightarrow> items = [''NEVER'']))"

lemma length_one_iff: "x \<in> set xs \<Longrightarrow> \<not> Suc 0 < length xs \<longleftrightarrow> xs = [x]"
  by (cases xs) (auto simp: not_less_eq)

lemma Nil_not_notify: "[] \<notin> notify_values"
  by (simp add: notify_values_def)

lemma check_notify_iff:
  "check_notify val = Inr () \<longleftrightarrow> (\<exists>v. val = Some v \<and> notify_ok v)"
proof (cases "nonempty_value val")
  case None
  then have "val = None \<or> val = Some []"
    by (auto simp: nonempty_value_def split: option.splits if_splits)
  moreover have "\<not> notify_ok []"
    by (simp add: notify_ok_def to_ascii_uppercase_def Nil_not_notify)
  ultimately show ?thesis using None by (auto simp: check_notify_def)
next
  case (Some v)
  then have val: "val = Some v" by (auto simp: nonempty_value_def split: option.splits if_splits)
  with Some have nv: "nonempty_value (Some v) = Some v" by simp
  let ?items = "split_at ((=) (CHR '','')) v"
  let ?up = "map to_ascii_uppercase ?items"
  show ?thesis
  proof (cases "list_ex (\<lambda>i. i = []) ?items")
    case True
    then have "[] \<in> set ?up" by (force simp: list_ex_iff to_ascii_uppercase_def)
    then have "\<not> notify_ok v" using Nil_not_notify by (auto simp: notify_ok_def Let_def)
    with True show ?thesis by (simp add: check_notify_def val nv Let_def)
  next
    case False
    have len: "''NEVER'' \<in> set ?up \<Longrightarrow> \<not> Suc 0 < length ?items \<longleftrightarrow> ?up = [''NEVER'']"
      using length_one_iff [of "''NEVER''" ?up] by simp
    show ?thesis
    proof (cases "notify_items ?items []")
      case (Inl e)
      then have "\<not> (set ?up \<subseteq> notify_values \<and> distinct ?up)"
        using notify_items_ok [of ?items "[]" ?up] by auto
      with Inl False show ?thesis by (auto simp: check_notify_def val nv Let_def notify_ok_def)
    next
      case (Inr r)
      then have r: "r = ?up" and ok: "set ?up \<subseteq> notify_values \<and> distinct ?up"
        using notify_items_ok [of ?items "[]" r] by auto
      have "check_notify val = Inr () \<longleftrightarrow> \<not> (''NEVER'' \<in> set ?up \<and> Suc 0 < length ?items)"
        using Inr False r by (auto simp: check_notify_def val nv Let_def list_ex_iff simp del: length_0_conv)
      also have "\<dots> \<longleftrightarrow> notify_ok v"
        using ok len by (auto simp: notify_ok_def Let_def)
      finally show ?thesis using val by simp
    qed
  qed
qed


lemma check_ret_iff:
  "check_ret val = Inr () \<longleftrightarrow>
     (\<exists>v. val = Some v \<and> (eq_ignore_ascii_case v ''FULL'' \<or> eq_ignore_ascii_case v ''HDRS''))"
  by (auto simp: check_ret_def split: option.splits)

lemma nonempty_value_Some: "nonempty_value val = Some v \<longleftrightarrow> val = Some v \<and> v \<noteq> []"
  by (auto simp: nonempty_value_def split: option.splits)

lemma check_envid_iff:
  "check_envid val = Inr () \<longleftrightarrow> (\<exists>v. val = Some v \<and> v \<noteq> [] \<and> length v \<le> 100 \<and> xtext v)"
proof (cases "nonempty_value val")
  case None
  then show ?thesis by (auto simp: check_envid_def nonempty_value_def split: option.splits if_splits)
next
  case (Some v)
  then have "val = Some v" "v \<noteq> []" by (simp_all add: nonempty_value_Some)
  then show ?thesis by (auto simp: check_envid_def is_xtext_iff nonempty_value_def)
qed

definition orcpt_ok :: "bytes \<Rightarrow> bool" where
  "orcpt_ok v \<longleftrightarrow> length v \<le> 500 \<and>
     (\<exists>t a. v = t @ '';'' @ a \<and> t \<noteq> [] \<and> is_ascii_alphanumeric (hd t) \<and> list_all type_char t \<and>
            a \<noteq> [] \<and> xtext a)"

lemma type_char_no_semicolon: "list_all type_char t \<Longrightarrow> CHR '';'' \<notin> set t"
  by (auto simp: list_all_iff byte_defs)

lemma check_orcpt_iff: "check_orcpt val = Inr () \<longleftrightarrow> (\<exists>v. val = Some v \<and> orcpt_ok v)"
proof (cases "nonempty_value val")
  case None
  then show ?thesis
    by (auto simp: check_orcpt_def nonempty_value_def orcpt_ok_def split: option.splits if_splits)
next
  case (Some v)
  then have val: "val = Some v" and v: "v \<noteq> []" by (auto simp: nonempty_value_Some)
  show ?thesis
  proof (cases "split_once (CHR '';'') v")
    case None
    then have "CHR '';'' \<notin> set v" by (simp add: split_once_None)
    then have "\<not> orcpt_ok v" by (auto simp: orcpt_ok_def)
    with None Some val show ?thesis by (simp add: check_orcpt_def)
  next
    case so: (Some ta)
    obtain t a where ta: "ta = (t, a)" by fastforce
    with so have va: "v = t @ CHR '';'' # a" "CHR '';'' \<notin> set t" by (auto simp: split_once_Some)
    have uniq: "v = t' @ CHR '';'' # a' \<Longrightarrow> list_all type_char t' \<Longrightarrow> t' = t \<and> a' = a" for t' a'
      using type_char_no_semicolon split_once_Some [of "CHR '';''" v t' a'] so ta by simp
    have "check_orcpt val = Inr () \<longleftrightarrow> length v \<le> 500 \<and> t \<noteq> [] \<and> is_ascii_alphanumeric (hd t) \<and>
        list_all type_char t \<and> a \<noteq> [] \<and> xtext a"
      using so ta Some by (auto simp: check_orcpt_def Let_def is_xtext_iff)
    also have "\<dots> \<longleftrightarrow> orcpt_ok v" unfolding orcpt_ok_def
      using va uniq by (metis append_Cons append_Nil)
    finally show ?thesis using val by simp
  qed
qed

text \<open>
  The parameters of a command that concern DSN, in order, and what RFC 3461 asks of them: none is
  given twice, whatever its case, and each has a value of its grammar and length.
\<close>

definition dsn_relevant :: "dsn_command \<Rightarrow> param list \<Rightarrow> param list" where
  "dsn_relevant which ps = filter (\<lambda>p. dsn_check which (to_ascii_uppercase (par_keyword p)) \<noteq> None) ps"

definition dsn_value_ok :: "dsn_command \<Rightarrow> param \<Rightarrow> bool" where
  "dsn_value_ok which p \<longleftrightarrow>
     (case dsn_check which (to_ascii_uppercase (par_keyword p)) of
        None \<Rightarrow> True | Some check \<Rightarrow> check (par_value p) = Inr ())"

definition dsn_ok :: "dsn_command \<Rightarrow> param list \<Rightarrow> bool" where
  "dsn_ok which ps \<longleftrightarrow>
     distinct (map (\<lambda>p. to_ascii_uppercase (par_keyword p)) (dsn_relevant which ps)) \<and>
     (\<forall>p \<in> set ps. dsn_value_ok which p)"

lemma validate_loop_iff:
  "validate_loop which ps seen = Inr () \<longleftrightarrow>
     dsn_ok which ps \<and>
     set seen \<inter> set (map (\<lambda>p. to_ascii_uppercase (par_keyword p)) (dsn_relevant which ps)) = {}"
proof (induction ps arbitrary: seen)
  case Nil
  then show ?case by (simp add: dsn_ok_def dsn_relevant_def)
next
  case (Cons p ps)
  show ?case
  proof (cases "dsn_check which (to_ascii_uppercase (par_keyword p))")
    case None
    then show ?thesis by (simp add: Cons.IH dsn_ok_def dsn_relevant_def dsn_value_ok_def)
  next
    case (Some check)
    then show ?thesis
      by (cases "check (par_value p)")
         (auto simp: Cons.IH Let_def dsn_ok_def dsn_relevant_def dsn_value_ok_def)
  qed
qed

text \<open>What RFC 3461 asks of one parameter, keyword by keyword.\<close>

definition rfc3461_value :: "dsn_command \<Rightarrow> param \<Rightarrow> bool" where
  "rfc3461_value which p \<longleftrightarrow>
     (let k = to_ascii_uppercase (par_keyword p)
      in case which of
        DsnMail \<Rightarrow>
          (k = ''RET'' \<longrightarrow> (\<exists>v. par_value p = Some v \<and>
             (eq_ignore_ascii_case v ''FULL'' \<or> eq_ignore_ascii_case v ''HDRS''))) \<and>
          (k = ''ENVID'' \<longrightarrow> (\<exists>v. par_value p = Some v \<and> v \<noteq> [] \<and> length v \<le> 100 \<and> xtext v))
      | DsnRcpt \<Rightarrow>
          (k = ''NOTIFY'' \<longrightarrow> (\<exists>v. par_value p = Some v \<and> notify_ok v)) \<and>
          (k = ''ORCPT'' \<longrightarrow> (\<exists>v. par_value p = Some v \<and> orcpt_ok v)))"

lemma dsn_value_ok_iff: "dsn_value_ok which p \<longleftrightarrow> rfc3461_value which p"
  by (cases which)
     (simp_all add: dsn_value_ok_def rfc3461_value_def Let_def dsn_check_def check_ret_iff
       check_envid_iff check_notify_iff check_orcpt_iff)

text \<open>
  C35. \<open>validate_dsn\<close> accepts a parameter list exactly when it is in order by RFC 3461: no DSN parameter is
  given twice, and \<open>RET\<close> is \<open>FULL\<close> or \<open>HDRS\<close>, \<open>ENVID\<close> is xtext of at most 100 bytes, \<open>NOTIFY\<close> is \<open>NEVER\<close> alone
  or distinct values of the other three, \<open>ORCPT\<close> is a type, a semicolon and xtext in at most 500 bytes.
\<close>

theorem validate_dsn_iff:
  "validate_dsn ps which = Inr () \<longleftrightarrow>
     distinct (map (\<lambda>p. to_ascii_uppercase (par_keyword p)) (dsn_relevant which ps)) \<and>
     list_all (rfc3461_value which) ps"
  by (simp add: validate_dsn_def validate_loop_iff dsn_ok_def dsn_value_ok_iff list_all_iff)

end
