(* ===== verification/Auth_Decode.thy ===== *)
theory Auth_Decode
  imports Prelude
begin

text \<open>
  \<open>src/src/server/auth.rs\<close>: decoding the \<open>AUTH PLAIN\<close> and \<open>AUTH LOGIN\<close> responses. The base64 decoder is a
  third-party package, so \<open>b64\<close> stands for it: \<^const>\<open>None\<close> when the text is not base64. The facts: what
  comes out of a \<open>PLAIN\<close> response is its NUL-separated fields (\<open>decode_plain_iff\<close>), and the username, the
  one string of an unauthenticated client that is kept, is bounded (\<open>username_bounded\<close>).
\<close>

record credentials =
  authzid :: bytes
  authcid :: bytes
  password :: bytes

definition USERNAME_CHALLENGE :: bytes where
  "USERNAME_CHALLENGE = ''VXNlcm5hbWU6''"

definition PASSWORD_CHALLENGE :: bytes where
  "PASSWORD_CHALLENGE = ''UGFzc3dvcmQ6''"

definition MAX_USERNAME :: nat where
  "MAX_USERNAME = 256"

abbreviation (input) NUL :: byte where
  "NUL \<equiv> CHR 0x00"

definition decode_lenient :: "(bytes \<Rightarrow> bytes option) \<Rightarrow> bytes \<Rightarrow> bytes option" where
  "decode_lenient b64 s = b64 (trim s)"

definition username :: "bytes \<Rightarrow> bytes option" where
  "username decoded = (if length decoded \<le> MAX_USERNAME then Some (from_utf8_lossy decoded) else None)"

definition decode_plain :: "(bytes \<Rightarrow> bytes option) \<Rightarrow> bytes \<Rightarrow> credentials option" where
  "decode_plain b64 s =
     (case decode_lenient b64 s of
        None \<Rightarrow> None
      | Some raw \<Rightarrow>
          (case split_at ((=) NUL) raw of
             z # u # p # _ \<Rightarrow>
               (case username u of
                  None \<Rightarrow> None
                | Some name \<Rightarrow> Some \<lparr>authzid = from_utf8_lossy z, authcid = name,
                                     password = from_utf8_lossy p\<rparr>)
           | _ \<Rightarrow> None))"

definition decode_login :: "(bytes \<Rightarrow> bytes option) \<Rightarrow> bytes \<Rightarrow> bytes \<Rightarrow> credentials option" where
  "decode_login b64 user_b64 pass_b64 =
     (case decode_lenient b64 user_b64 of
        None \<Rightarrow> None
      | Some u \<Rightarrow>
          (case username u of
             None \<Rightarrow> None
           | Some name \<Rightarrow>
               (case decode_lenient b64 pass_b64 of
                  None \<Rightarrow> None
                | Some p \<Rightarrow> Some \<lparr>authzid = [], authcid = name, password = from_utf8_lossy p\<rparr>)))"


section \<open>Fields\<close>

lemma split_at_fields3:
  "(\<exists>ws. split_at ((=) c) raw = z # u # p # ws) \<longleftrightarrow>
     (\<exists>rest. raw = z @ c # u @ c # p @ rest \<and> (rest = [] \<or> hd rest = c) \<and>
             c \<notin> set z \<and> c \<notin> set u \<and> c \<notin> set p)" (is "?l \<longleftrightarrow> ?r")
proof
  assume ?l
  then obtain ws where ws: "split_at ((=) c) raw = z # u # p # ws" by blast
  have no: "c \<notin> set z" "c \<notin> set u" "c \<notin> set p"
    using split_at_pieces [of _ "(=) c" raw c] ws by auto
  have hd1: "\<exists>t. s = w @ t \<and> (t = [] \<and> ws = [] \<or> (\<exists>t'. t = c # t' \<and> split_at ((=) c) t' = ws))"
    if "split_at ((=) c) s = w # ws" for s w ws
    using that
  proof (induction s arbitrary: w)
    case (Cons b s)
    then show ?case
    proof (cases "c = b")
      case False
      with Cons.prems obtain w' where w': "split_at ((=) c) s = w' # ws" "w = b # w'"
        by (cases "split_at ((=) c) s") auto
      with Cons.IH [OF w'(1)] show ?thesis by auto
    qed auto
  qed auto
  from hd1 [OF ws] obtain t1 where t1: "raw = z @ c # t1" "split_at ((=) c) t1 = u # p # ws" by auto
  from hd1 [OF t1(2)] obtain t2 where t2: "t1 = u @ c # t2" "split_at ((=) c) t2 = p # ws" by auto
  from hd1 [OF t2(2)] obtain t3 where "t2 = p @ t3" "t3 = [] \<or> hd t3 = c" by auto
  with t1 t2 no show ?r by auto
next
  assume ?r
  then obtain rest where r: "raw = z @ c # u @ c # p @ rest" "rest = [] \<or> hd rest = c"
    "\<forall>b \<in> set z. \<not> (=) c b" "\<forall>b \<in> set u. \<not> (=) c b" "\<forall>b \<in> set p. \<not> (=) c b" by auto
  have "\<exists>ws. split_at ((=) c) (p @ rest) = p # ws"
  proof (cases rest)
    case Nil
    then show ?thesis using split_at_no [OF r(5)] by simp
  next
    case (Cons d t)
    with r(2) show ?thesis using split_at_Cons_no [OF r(5), of c t] by simp
  qed
  then show ?l using r split_at_Cons_no [of z "(=) c" c] split_at_Cons_no [of u "(=) c" c] by auto
qed

text \<open>
  C38. A \<open>PLAIN\<close> response is accepted exactly when it is base64 of at least three NUL-separated fields with a
  username of at most 256 bytes, and the credentials are those fields, as text.
\<close>

theorem decode_plain_iff:
  "decode_plain b64 s = Some c \<longleftrightarrow>
     (\<exists>z u p rest. b64 (trim s) = Some (z @ NUL # u @ NUL # p @ rest) \<and>
        (rest = [] \<or> hd rest = NUL) \<and> NUL \<notin> set z \<and> NUL \<notin> set u \<and> NUL \<notin> set p \<and>
        length u \<le> 256 \<and>
        c = \<lparr>authzid = from_utf8_lossy z, authcid = from_utf8_lossy u, password = from_utf8_lossy p\<rparr>)"
    (is "?l \<longleftrightarrow> ?r")
proof
  assume ?l
  then obtain raw z u p ws where raw: "b64 (trim s) = Some raw" "split_at ((=) NUL) raw = z # u # p # ws"
    and c: "length u \<le> 256"
      "c = \<lparr>authzid = from_utf8_lossy z, authcid = from_utf8_lossy u, password = from_utf8_lossy p\<rparr>"
    by (auto simp: decode_plain_def decode_lenient_def username_def MAX_USERNAME_def
        split: option.splits list.splits if_splits)
  from raw(2) have "\<exists>ws. split_at ((=) NUL) raw = z # u # p # ws" by blast
  then show ?r unfolding split_at_fields3 using raw(1) c by blast
next
  assume ?r
  then obtain z u p rest where raw: "b64 (trim s) = Some (z @ NUL # u @ NUL # p @ rest)"
    and f: "rest = [] \<or> hd rest = NUL" "NUL \<notin> set z" "NUL \<notin> set u" "NUL \<notin> set p"
    and c: "length u \<le> 256"
      "c = \<lparr>authzid = from_utf8_lossy z, authcid = from_utf8_lossy u, password = from_utf8_lossy p\<rparr>"
    by blast
  from f have "\<exists>ws. split_at ((=) NUL) (z @ NUL # u @ NUL # p @ rest) = z # u # p # ws"
    unfolding split_at_fields3 by blast
  with raw c show ?l
    by (auto simp: decode_plain_def decode_lenient_def username_def MAX_USERNAME_def)
qed

lemma length_from_utf8_lossy: "length (from_utf8_lossy s) \<le> 3 * length s"
proof (induction s rule: from_utf8_lossy.induct)
  case (1 s)
  show ?case
  proof (cases "s = []")
    case True
    then show ?thesis by (simp add: from_utf8_lossy.simps)
  next
    case False
    have pos: "0 < length s" "0 < utf8_bad_len s" using False utf8_bad_len_pos by auto
    show ?thesis
    proof (cases "utf8_len s = 0")
      case True
      then have "length (from_utf8_lossy s) = 3 + length (from_utf8_lossy (drop (utf8_bad_len s) s))"
        using False by (subst from_utf8_lossy.simps) (simp add: replacement_def)
      also have "\<dots> \<le> 3 + 3 * (length s - utf8_bad_len s)" using "1.IH"(1) False True by simp
      finally show ?thesis using pos by linarith
    next
      case len: False
      then have "length (from_utf8_lossy s) = utf8_len s + length (from_utf8_lossy (drop (utf8_len s) s))"
        using False utf8_len_le [of s] by (subst from_utf8_lossy.simps) simp
      also have "\<dots> \<le> utf8_len s + 3 * (length s - utf8_len s)" using "1.IH"(2) False len by simp
      finally show ?thesis using utf8_len_le [of s] by linarith
    qed
  qed
qed

text \<open>Both mechanisms keep a username of bounded length, and it is always a valid string.\<close>

lemma username_bounded: "username d = Some n \<Longrightarrow> length n \<le> 3 * MAX_USERNAME \<and> utf8_valid n"
  using length_from_utf8_lossy [of d] from_utf8_lossy_valid [of d]
  by (auto simp: username_def split: if_splits)

lemma decode_plain_username:
  "decode_plain b64 s = Some c \<Longrightarrow> length (authcid c) \<le> 3 * MAX_USERNAME \<and> utf8_valid (authcid c)"
  by (auto simp: decode_plain_def dest: username_bounded split: option.splits list.splits)

lemma decode_login_username:
  "decode_login b64 s t = Some c \<Longrightarrow> length (authcid c) \<le> 3 * MAX_USERNAME \<and> utf8_valid (authcid c)"
  by (auto simp: decode_login_def dest: username_bounded split: option.splits)

end
