(* ===== verification/Message_Data.thy ===== *)
theory Message_Data
  imports Prelude
begin

text \<open>
  \<open>src/src/server/data.rs\<close>: the two halves of a \<open>DATA\<close> payload.

  \<open>HeaderCollector\<close> keeps the header block, unstuffed, within its cap (\<open>collect_block\<close>, \<open>push_line_inv\<close>).
  \<open>BodyFramer\<close> stages the body on its way to the upstream. What it puts out is the input with its line
  endings made CRLF, however the input was cut into pieces (\<open>framer_run_output\<close>), and no line of it is the
  lone dot that ends a message: the upstream cannot be handed a terminator the
  client never sent.

  Sizes are \<open>usize\<close> in the source and natural numbers here: they count bytes held in memory.
\<close>

definition WRITE_CHUNK :: nat where
  "WRITE_CHUNK = 64 * 1024"

datatype header_event = Complete bytes | Terminator | TooLarge

record header_collector =
  max_header_size :: nat
  headers :: bytes
  hdr_size :: nat
  too_large :: bool
  delivered :: bool

definition is_empty_line :: "bytes \<Rightarrow> bool" where
  "is_empty_line line \<longleftrightarrow> line = CRLF \<or> line = [LF]"

definition is_terminator :: "bytes \<Rightarrow> bool" where
  "is_terminator line \<longleftrightarrow> line = DOT # CRLF \<or> line = [DOT, LF]"

definition collector_new :: "nat \<Rightarrow> header_collector" where
  "collector_new max_size =
     \<lparr>max_header_size = max_size, headers = [], hdr_size = 0, too_large = False, delivered = False\<rparr>"

definition mark_too_large :: "header_collector \<Rightarrow> header_collector" where
  "mark_too_large h = h\<lparr>too_large := True, headers := []\<rparr>"

definition unstuff :: "bytes \<Rightarrow> bytes" where
  "unstuff line = (case strip_prefix [DOT] line of Some r \<Rightarrow> r | None \<Rightarrow> line)"

definition push_line :: "bytes \<Rightarrow> header_collector \<Rightarrow> header_event option \<times> header_collector" where
  "push_line line h =
     (if too_large h then (Some TooLarge, h)
      else if is_terminator line then (Some Terminator, h)
      else if delivered h then (None, h)
      else if is_empty_line line then
        (Some (Complete (headers h)), h\<lparr>delivered := True, headers := []\<rparr>)
      else
        (let unstuffed = unstuff line;
             h1 = h\<lparr>hdr_size := hdr_size h + length unstuffed\<rparr>
         in if hdr_size h1 > max_header_size h1 then (Some TooLarge, mark_too_large h1)
            else (None, h1\<lparr>headers := headers h1 @ unstuffed\<rparr>)))"

definition remaining_capacity :: "header_collector \<Rightarrow> nat option" where
  "remaining_capacity h = (if too_large h then None else Some (max_header_size h - hdr_size h))"

definition take_pending :: "header_collector \<Rightarrow> bytes option \<times> header_collector" where
  "take_pending h =
     (if delivered h \<or> too_large h then (None, h)
      else (Some (headers h), h\<lparr>delivered := True, headers := []\<rparr>))"

datatype body_piece = Pending | Chunk bytes | BodyTerminator

record body_framer =
  fr_out :: bytes
  at_line_start :: bool
  held_cr :: bool

definition framer_new :: body_framer where
  "framer_new = \<lparr>fr_out = [], at_line_start = True, held_cr = False\<rparr>"

text \<open>The loop of \<open>append\<close>: the bytes it adds, and whether it ends on a CR that it holds back.\<close>

fun append_loop :: "bytes \<Rightarrow> bytes \<times> bool" where
  "append_loop [] = ([], False)"
| "append_loop [b] = (if b = CR then ([], True) else if b = LF then (CRLF, False) else ([b], False))"
| "append_loop (b # c # s) =
     (if b = CR \<and> c = LF then (case append_loop s of (o', h) \<Rightarrow> (CRLF @ o', h))
      else if b = LF then (case append_loop (c # s) of (o', h) \<Rightarrow> (CRLF @ o', h))
      else (case append_loop (c # s) of (o', h) \<Rightarrow> (b # o', h)))"

definition append_framer :: "bytes \<Rightarrow> body_framer \<Rightarrow> body_framer" where
  "append_framer bs f =
     (let (pre, rest) =
            (if held_cr f then (if bs \<noteq> [] \<and> hd bs = LF then (CRLF, tl bs) else ([CR], bs))
             else ([], bs));
          (o', h) = append_loop rest
      in f\<lparr>fr_out := fr_out f @ pre @ o', held_cr := h\<rparr>)"

definition piece :: "body_framer \<Rightarrow> body_piece \<times> body_framer" where
  "piece f = (if length (fr_out f) \<ge> WRITE_CHUNK then (Chunk (fr_out f), f\<lparr>fr_out := []\<rparr>)
              else (Pending, f))"

definition push :: "bytes \<Rightarrow> body_framer \<Rightarrow> body_piece \<times> body_framer" where
  "push line f =
     (if at_line_start f \<and> is_terminator line then (BodyTerminator, f)
      else piece ((append_framer line f)\<lparr>at_line_start := True\<rparr>))"

definition push_partial :: "bytes \<Rightarrow> body_framer \<Rightarrow> body_piece \<times> body_framer" where
  "push_partial bs f = piece ((append_framer bs f)\<lparr>at_line_start := False\<rparr>)"

definition flush :: "body_framer \<Rightarrow> bytes \<times> body_framer" where
  "flush f = (fr_out f, f\<lparr>fr_out := []\<rparr>)"


section \<open>The header block\<close>

text \<open>
  The invariant of the collector: until it is delivered or discarded, what it holds is as long as it
  counted and within the cap; afterwards it holds nothing.
\<close>

definition collector_inv :: "header_collector \<Rightarrow> bool" where
  "collector_inv h \<longleftrightarrow>
     (if too_large h \<or> delivered h then headers h = []
      else length (headers h) = hdr_size h \<and> hdr_size h \<le> max_header_size h)"

lemma collector_new_inv: "collector_inv (collector_new n)"
  by (simp add: collector_inv_def collector_new_def)

lemma push_line_inv: "collector_inv h \<Longrightarrow> collector_inv (snd (push_line line h))"
  by (auto simp: push_line_def collector_inv_def mark_too_large_def Let_def)

lemma take_pending_inv: "collector_inv h \<Longrightarrow> collector_inv (snd (take_pending h))"
  by (auto simp: take_pending_def collector_inv_def)

lemma mark_too_large_inv: "collector_inv (mark_too_large h)"
  by (simp add: mark_too_large_def collector_inv_def)

lemma collector_inv_bound: "collector_inv h \<Longrightarrow> length (headers h) \<le> max_header_size h"
  by (auto simp: collector_inv_def split: if_splits)

lemma unstuff_le: "length (unstuff line) \<le> length line"
  by (auto simp: unstuff_def strip_prefix_Some split: option.splits)

text \<open>The lines of a block, up to its end: pushing stops at the first event.\<close>

fun collect :: "bytes list \<Rightarrow> header_collector \<Rightarrow> header_event option \<times> bytes list \<times> header_collector" where
  "collect [] h = (None, [], h)"
| "collect (l # ls) h =
     (case push_line l h of
        (None, h') \<Rightarrow> collect ls h'
      | (Some e, h') \<Rightarrow> (Some e, ls, h'))"

definition header_line :: "bytes \<Rightarrow> bool" where
  "header_line l \<longleftrightarrow> \<not> is_terminator l \<and> \<not> is_empty_line l"

lemma push_line_header:
  assumes "\<not> too_large h" "\<not> delivered h" "header_line l" "collector_inv h"
  shows "push_line l h =
    (if length (headers h @ unstuff l) \<le> max_header_size h
     then (None, h\<lparr>headers := headers h @ unstuff l, hdr_size := length (headers h @ unstuff l)\<rparr>)
     else (Some TooLarge, mark_too_large (h\<lparr>hdr_size := length (headers h @ unstuff l)\<rparr>)))"
  using assms by (simp add: push_line_def Let_def header_line_def collector_inv_def)

definition holding :: "nat \<Rightarrow> bytes \<Rightarrow> header_collector" where
  "holding n hs =
     \<lparr>max_header_size = n, headers = hs, hdr_size = length hs, too_large = False, delivered = False\<rparr>"

lemma holding_simps [simp]:
  "max_header_size (holding n hs) = n" "headers (holding n hs) = hs"
  "\<not> too_large (holding n hs)" "\<not> delivered (holding n hs)"
  "(holding n hs)\<lparr>headers := hs', hdr_size := length hs'\<rparr> = holding n hs'"
  by (simp_all add: holding_def)

lemma holding_inv: "length hs \<le> n \<Longrightarrow> collector_inv (holding n hs)"
  by (simp add: holding_def collector_inv_def)

lemma push_line_holding:
  assumes "header_line l" "length hs \<le> n"
  shows "push_line l (holding n hs) =
    (if length (hs @ unstuff l) \<le> n then (None, holding n (hs @ unstuff l))
     else (Some TooLarge, mark_too_large ((holding n hs)\<lparr>hdr_size := length (hs @ unstuff l)\<rparr>)))"
  using push_line_header [OF _ _ assms(1) holding_inv [OF assms(2)]] by (simp del: length_append)

lemma collect_lines_fit:
  "\<forall>l \<in> set ls. header_line l \<Longrightarrow> length (hs @ concat (map unstuff ls)) \<le> n \<Longrightarrow>
   collect (ls @ rest) (holding n hs) = collect rest (holding n (hs @ concat (map unstuff ls)))"
proof (induction ls arbitrary: hs)
  case (Cons l ls)
  then show ?case using push_line_holding [of l hs n] by simp
qed simp

lemma collect_lines_too_large:
  "\<forall>l \<in> set ls. header_line l \<Longrightarrow> length hs \<le> n \<Longrightarrow> n < length (hs @ concat (map unstuff ls)) \<Longrightarrow>
   fst (collect (ls @ rest) (holding n hs)) = Some TooLarge"
proof (induction ls arbitrary: hs)
  case (Cons l ls)
  then show ?case using push_line_holding [of l hs n] by simp
qed simp

text \<open>
  C24. The header block of a message, up to its blank line, comes out of the collector with every line
  unstuffed and otherwise as the client sent it, if that fits the cap; if it does not, the collector
  says so instead, and holds nothing.
\<close>

theorem collect_block:
  assumes "\<forall>l \<in> set ls. header_line l" and "is_empty_line e"
  shows "fst (collect (ls @ [e]) (collector_new n)) =
    (if length (concat (map unstuff ls)) \<le> n then Some (Complete (concat (map unstuff ls)))
     else Some TooLarge)"
proof -
  have e: "\<not> is_terminator e" using assms(2) by (auto simp: is_empty_line_def is_terminator_def)
  have new: "collector_new n = holding n []" by (simp add: collector_new_def holding_def)
  show ?thesis
  proof (cases "length (concat (map unstuff ls)) \<le> n")
    case True
    then have "collect (ls @ [e]) (holding n []) = collect [e] (holding n (concat (map unstuff ls)))"
      using collect_lines_fit [OF assms(1), of "[]"] by simp
    with True e assms(2) show ?thesis by (simp add: new push_line_def)
  next
    case False
    then show ?thesis using collect_lines_too_large [OF assms(1), of "[]" n "[e]"] by (simp add: new)
  qed
qed

theorem collect_block_witness:
  "fst (collect ([''A: b'' @ CRLF, ''..x'' @ CRLF] @ [CRLF]) (collector_new 20)) =
     Some (Complete (''A: b'' @ CRLF @ ''.x'' @ CRLF))"
proof -
  have h: "\<forall>l \<in> set [''A: b'' @ CRLF, ''..x'' @ CRLF]. header_line l" "is_empty_line CRLF"
    by (simp_all add: header_line_def is_terminator_def is_empty_line_def)
  show ?thesis using collect_block [OF h, of 20] by (simp add: unstuff_def strip_prefix_def)
qed


section \<open>The body\<close>

text \<open>
  The reference for the framer: CRLF for every line ending. An LF that no CR precedes gets one, and
  every other byte, a bare CR included, stays. The flag says whether the byte before was a CR.
\<close>

fun crlf_from :: "bool \<Rightarrow> bytes \<Rightarrow> bytes" where
  "crlf_from cr [] = []"
| "crlf_from cr (b # s) = (if b = LF \<and> \<not> cr then CRLF else [b]) @ crlf_from (b = CR) s"

definition crlf_norm :: "bytes \<Rightarrow> bytes" where
  "crlf_norm s = crlf_from False s"

definition ends_cr :: "bool \<Rightarrow> bytes \<Rightarrow> bool" where
  "ends_cr cr s \<longleftrightarrow> (if s = [] then cr else last s = CR)"

lemma crlf_from_append: "crlf_from cr (s @ t) = crlf_from cr s @ crlf_from (ends_cr cr s) t"
  by (induction s arbitrary: cr) (auto simp: ends_cr_def)

lemma ends_cr_append: "ends_cr cr (s @ t) = ends_cr (ends_cr cr s) t"
  by (auto simp: ends_cr_def)

lemma crlf_norm_append: "crlf_norm (s @ t) = crlf_norm s @ crlf_from (ends_cr False s) t"
  by (simp add: crlf_norm_def crlf_from_append)

abbreviation held_bytes :: "bool \<Rightarrow> bytes" where
  "held_bytes h \<equiv> (if h then [CR] else [])"

lemma append_loop_crlf:
  "append_loop s = (o', h) \<Longrightarrow>
     o' @ held_bytes h = crlf_from False s \<and> h = ends_cr False s"
proof (induction s arbitrary: o' h rule: append_loop.induct)
  case 1
  then show ?case by (simp add: ends_cr_def)
next
  case (2 b)
  then show ?case by (auto simp: ends_cr_def split: if_splits)
next
  case (3 b c s)
  consider "b = CR" "c = LF" | "\<not> (b = CR \<and> c = LF)" "b = LF" | "\<not> (b = CR \<and> c = LF)" "b \<noteq> LF" by blast
  then show ?case
  proof cases
    case 1
    with 3 show ?thesis by (auto simp: ends_cr_def split: prod.splits)
  next
    case 2
    obtain o2 h2 where r: "append_loop (c # s) = (o2, h2)" by (cases "append_loop (c # s)")
    with 3 2 show ?thesis by (auto simp: ends_cr_def)
  next
    case c: 3
    obtain o2 h2 where r: "append_loop (c # s) = (o2, h2)" by (cases "append_loop (c # s)")
    with "3.IH"(3) [of o2 h2] c have ih: "o2 @ held_bytes h2 = crlf_from False (c # s)"
      "h2 = ends_cr False (c # s)" by auto
    from c r "3.prems" have "o' = b # o2" "h = h2" by auto
    moreover have "crlf_from (b = CR) (c # s) = crlf_from False (c # s)" using c(1) by auto
    ultimately show ?thesis using ih c by (simp add: ends_cr_def)
  qed
qed

text \<open>What a framer put out and still stages, the held CR included, is the input so far, normalised.\<close>

definition framed :: "bytes \<Rightarrow> body_framer \<Rightarrow> bytes \<Rightarrow> bool" where
  "framed written f input \<longleftrightarrow>
     written @ fr_out f @ held_bytes (held_cr f) = crlf_norm input \<and> held_cr f = ends_cr False input"

lemma framed_new: "framed [] framer_new []"
  by (simp add: framed_def framer_new_def crlf_norm_def ends_cr_def)

lemma append_framed:
  assumes "framed w f s" and "bs \<noteq> []"
  shows "framed w (append_framer bs f) (s @ bs)"
proof -
  obtain pre rest where pr: "(pre, rest) =
    (if held_cr f then (if bs \<noteq> [] \<and> hd bs = LF then (CRLF, tl bs) else ([CR], bs)) else ([], bs))"
    by (metis surj_pair)
  obtain o' h where oh: "append_loop rest = (o', h)" by (cases "append_loop rest")
  have a: "append_framer bs f = f\<lparr>fr_out := fr_out f @ pre @ o', held_cr := h\<rparr>"
    unfolding append_framer_def Let_def pr [symmetric] by (simp add: oh)
  have pre: "pre @ crlf_from False rest = held_bytes (held_cr f) @ crlf_from (held_cr f) bs"
  proof (cases bs)
    case (Cons b t)
    show ?thesis
    proof (cases "held_cr f \<and> b = LF")
      case True
      with pr Cons have "pre = CRLF" "rest = t" by simp_all
      with True Cons show ?thesis by simp
    next
      case False
      with pr Cons have "pre = held_bytes (held_cr f)" "rest = bs" by (simp_all split: if_splits)
      with False Cons show ?thesis by (cases "held_cr f") simp_all
    qed
  qed (use assms(2) in simp)
  have last: "ends_cr False rest = ends_cr False (s @ bs)"
  proof (cases "held_cr f \<and> hd bs = LF")
    case True
    with pr assms(2) have "rest = tl bs" by simp
    with True assms(2) show ?thesis by (cases bs) (simp_all add: ends_cr_def)
  next
    case False
    with pr assms(2) have "rest = bs" by (simp split: if_splits)
    with assms(2) show ?thesis by (simp add: ends_cr_def)
  qed
  have "w @ fr_out f @ pre @ crlf_from False rest = crlf_norm (s @ bs)"
    using assms(1) pre unfolding framed_def by (metis append_assoc crlf_norm_append)
  moreover have "o' @ held_bytes h = crlf_from False rest" and h: "h = ends_cr False (s @ bs)"
    using append_loop_crlf [OF oh] last by auto
  ultimately have "w @ (fr_out f @ pre @ o') @ held_bytes h = crlf_norm (s @ bs)" by (metis append_assoc)
  with h show ?thesis by (simp add: framed_def a)
qed

lemma piece_framed:
  "framed w f s \<Longrightarrow> piece f = (Chunk c, f') \<Longrightarrow> framed (w @ c) f' s"
  "framed w f s \<Longrightarrow> piece f = (Pending, f') \<Longrightarrow> framed w f' s"
  by (auto simp: piece_def framed_def split: if_splits)

lemma framed_line_start: "framed w (f\<lparr>at_line_start := b\<rparr>) s = framed w f s"
  by (simp add: framed_def)

lemma piece_fields [simp]:
  "at_line_start (snd (piece f)) = at_line_start f" "fst (piece f) \<noteq> BodyTerminator"
  by (simp_all add: piece_def)

text \<open>
  The operations of the session on the framer, in order: whole lines, and parts of a line that outgrew
  the read buffer. The run stops in front of the terminator; the first component is what was handed
  out for writing.
\<close>

datatype body_op = Line bytes | Partial bytes

fun op_bytes :: "body_op \<Rightarrow> bytes" where
  "op_bytes (Line l) = l"
| "op_bytes (Partial p) = p"

fun framer_op :: "body_op \<Rightarrow> body_framer \<Rightarrow> body_piece \<times> body_framer" where
  "framer_op (Line l) f = push l f"
| "framer_op (Partial p) f = push_partial p f"

fun framer_run :: "body_op list \<Rightarrow> body_framer \<Rightarrow> bytes \<times> body_op list \<times> body_framer" where
  "framer_run [] f = ([], [], f)"
| "framer_run (x # xs) f =
     (case framer_op x f of
        (Pending, f') \<Rightarrow> framer_run xs f'
      | (Chunk c, f') \<Rightarrow> (case framer_run xs f' of (w, r, f'') \<Rightarrow> (c @ w, r, f''))
      | (BodyTerminator, f') \<Rightarrow> ([], x # xs, f))"

lemma framer_op_framed:
  assumes "framed w f s" "op_bytes x \<noteq> []"
  shows "framer_op x f = (Pending, f') \<Longrightarrow> framed w f' (s @ op_bytes x)"
    and "framer_op x f = (Chunk c, f') \<Longrightarrow> framed (w @ c) f' (s @ op_bytes x)"
proof -
  let ?f = "\<lambda>b. (append_framer (op_bytes x) f)\<lparr>at_line_start := b\<rparr>"
  have fr: "framed w (?f b) (s @ op_bytes x)" for b
    using append_framed [OF assms] framed_line_start by blast
  have p: "framer_op x f = (BodyTerminator, f) \<or> (\<exists>b. framer_op x f = piece (?f b))"
    by (cases x) (auto simp: push_def push_partial_def)
  show "framer_op x f = (Pending, f') \<Longrightarrow> framed w f' (s @ op_bytes x)"
    using p piece_framed(2) [OF fr] by auto
  show "framer_op x f = (Chunk c, f') \<Longrightarrow> framed (w @ c) f' (s @ op_bytes x)"
    using p piece_framed(1) [OF fr] by auto
qed

lemma framer_op_terminator:
  "framer_op x f = (BodyTerminator, f') \<longleftrightarrow>
     (\<exists>l. x = Line l \<and> at_line_start f \<and> is_terminator l \<and> f' = f)"
  by (cases x) (auto simp: push_def push_partial_def piece_def)

lemma framer_run_framed:
  assumes "framed w0 f s" "\<forall>x \<in> set xs. op_bytes x \<noteq> []" "framer_run xs f = (w, rest, f')"
  shows "\<exists>done. xs = done @ rest \<and> framed (w0 @ w) f' (s @ concat (map op_bytes done))"
  using assms
proof (induction xs arbitrary: w0 f s w)
  case Nil
  then show ?case by simp
next
  case (Cons x xs)
  obtain p g where o: "framer_op x f = (p, g)" by (cases "framer_op x f")
  show ?case
  proof (cases p)
    case Pending
    with o Cons.prems have "framed w0 g (s @ op_bytes x)" and "framer_run xs g = (w, rest, f')"
      using framer_op_framed(1) by auto
    with Cons.IH [of w0 g "s @ op_bytes x"] Cons.prems obtain d
      where "xs = d @ rest" "framed (w0 @ w) f' ((s @ op_bytes x) @ concat (map op_bytes d))" by auto
    then show ?thesis by (intro exI [of _ "x # d"]) simp
  next
    case (Chunk c)
    then obtain w2 where w2: "framer_run xs g = (w2, rest, f')" "w = c @ w2"
      using o Cons.prems by (auto split: prod.splits)
    from o Chunk Cons.prems have "framed (w0 @ c) g (s @ op_bytes x)" using framer_op_framed(2) by auto
    with Cons.IH [of "w0 @ c" g "s @ op_bytes x" w2] Cons.prems w2 obtain d
      where "xs = d @ rest" "framed (w0 @ w) f' ((s @ op_bytes x) @ concat (map op_bytes d))" by auto
    then show ?thesis by (intro exI [of _ "x # d"]) simp
  next
    case BodyTerminator
    with o Cons.prems show ?thesis by (intro exI [of _ "[]"]) auto
  qed
qed

text \<open>
  Where a body ends: at a line that is the terminator and begins at the start of a line, that is, first of all or
  behind another whole line.
\<close>

definition line_begins :: "body_op list \<Rightarrow> bool" where
  "line_begins xs \<longleftrightarrow> xs = [] \<or> (case last xs of Line _ \<Rightarrow> True | Partial _ \<Rightarrow> False)"

definition ends_body :: "body_op list \<Rightarrow> body_op \<Rightarrow> bool" where
  "ends_body xs x \<longleftrightarrow> line_begins xs \<and> (case x of Line l \<Rightarrow> is_terminator l | Partial _ \<Rightarrow> False)"

lemma line_begins_simps [simp]:
  "line_begins []" "line_begins (xs @ [x]) \<longleftrightarrow> (case x of Line _ \<Rightarrow> True | Partial _ \<Rightarrow> False)"
  by (simp_all add: line_begins_def)

lemma framer_op_line_start:
  "framer_op x f = (p, g) \<Longrightarrow> p \<noteq> BodyTerminator \<Longrightarrow>
   at_line_start g = (case x of Line _ \<Rightarrow> True | Partial _ \<Rightarrow> False)"
  by (cases x) (auto simp: push_def push_partial_def piece_def split: if_splits)

lemma framer_op_ends:
  "at_line_start f = line_begins ys \<Longrightarrow> framer_op x f = (p, g) \<Longrightarrow> p = BodyTerminator \<longleftrightarrow> ends_body ys x"
  by (cases x) (auto simp: ends_body_def push_def push_partial_def piece_def split: if_splits)

lemma framer_run_stops:
  "framer_run xs f = (w, rest, f') \<Longrightarrow> at_line_start f = line_begins ys \<Longrightarrow>
   \<exists>done. xs = done @ rest \<and> (\<forall>i < length done. \<not> ends_body (ys @ take i done) (done ! i)) \<and>
     (rest \<noteq> [] \<longrightarrow> ends_body (ys @ done) (hd rest))"
proof (induction xs arbitrary: f w ys)
  case Nil
  then show ?case by simp
next
  case (Cons x xs)
  obtain p g where o: "framer_op x f = (p, g)" by (cases "framer_op x f")
  note e = framer_op_ends [OF Cons.prems(2) o]
  show ?case
  proof (cases "p = BodyTerminator")
    case True
    with o e Cons.prems(1) show ?thesis by (intro exI [of _ "[]"]) auto
  next
    case False
    then obtain w2 where w2: "framer_run xs g = (w2, rest, f')"
      using o Cons.prems(1) by (cases p) (auto split: prod.splits)
    have "at_line_start g = line_begins (ys @ [x])" using framer_op_line_start [OF o False] by simp
    from Cons.IH [OF w2 this] obtain d where d: "xs = d @ rest"
      "\<forall>i < length d. \<not> ends_body ((ys @ [x]) @ take i d) (d ! i)" "rest \<noteq> [] \<longrightarrow> ends_body ((ys @ [x]) @ d) (hd rest)"
      by blast
    have "\<not> ends_body (ys @ take i (x # d)) ((x # d) ! i)" if "i < length (x # d)" for i
      using that e False d(2) by (cases i) simp_all
    then show ?thesis using d(1,3) by (intro exI [of _ "x # d"]) simp
  qed
qed

lemmas framer_eval =
  framer_new_def push_def push_partial_def append_framer_def piece_def is_terminator_def WRITE_CHUNK_def


section \<open>No terminator is made up\<close>

lemma split_inclusive_append:
  assumes "s = [] \<or> P (last s)"
  shows "split_inclusive P (s @ t) = split_inclusive P s @ split_inclusive P t"
  using assms
proof (induction s)
  case (Cons b s)
  show ?case
  proof (cases "s = []")
    case True
    with Cons show ?thesis by simp
  next
    case False
    with Cons have ih: "split_inclusive P (s @ t) = split_inclusive P s @ split_inclusive P t" by simp
    have "split_inclusive P s \<noteq> []" using False by (metis concat.simps(1) concat_split_inclusive)
    with ih show ?thesis by (auto split: list.splits)
  qed
qed simp

text \<open>The lines of the output are the lines of the input, each with its ending made CRLF.\<close>

lemma crlf_from_no_LF: "LF \<notin> set s \<Longrightarrow> crlf_from cr s = s"
  by (induction s arbitrary: cr) auto

lemma crlf_norm_line:
  "LF \<notin> set x \<Longrightarrow> crlf_norm (x @ [LF]) = (if x \<noteq> [] \<and> last x = CR then x @ [LF] else x @ CRLF)"
  unfolding crlf_norm_def crlf_from_append by (simp add: crlf_from_no_LF ends_cr_def)

lemma split_inclusive_crlf_norm:
  "split_inclusive ((=) LF) (crlf_norm s) = map crlf_norm (split_inclusive ((=) LF) s)"
proof (induction s rule: length_induct)
  case (1 s)
  show ?case
  proof (cases "LF \<in> set s")
    case False
    then have no: "\<forall>b \<in> set s. \<not> (=) LF b" by metis
    have "crlf_norm s = s" using False by (simp add: crlf_norm_def crlf_from_no_LF)
    with split_inclusive_no [OF no] show ?thesis by simp
  next
    case True
    then obtain x t where s: "s = x @ LF # t" "LF \<notin> set x" using split_list_first by fastforce
    have sx: "split_inclusive ((=) LF) (x @ LF # t) = (x @ [LF]) # split_inclusive ((=) LF) t"
      using s(2) by (intro split_inclusive_Cons_no) auto
    have n: "crlf_norm s = crlf_norm (x @ [LF]) @ crlf_norm t"
      using crlf_norm_append [of "x @ [LF]" t] s(1) by (simp add: crlf_norm_def ends_cr_def)
    obtain y where y: "crlf_norm (x @ [LF]) = y @ [LF]" "LF \<notin> set y"
      using crlf_norm_line [OF s(2)] s(2) by (cases "x \<noteq> [] \<and> last x = CR") force+
    have "split_inclusive ((=) LF) ((y @ [LF]) @ crlf_norm t) = (y @ [LF]) # split_inclusive ((=) LF) (crlf_norm t)"
      using split_inclusive_Cons_no [of y "(=) LF" LF] y(2) by force
    then show ?thesis using 1 s sx n y(1) by simp
  qed
qed

lemma is_terminator_crlf_norm:
  assumes "x \<noteq> []" "LF \<notin> set (butlast x)" "is_terminator (crlf_norm x)"
  shows "is_terminator x"
proof (cases "last x = LF")
  case True
  define y where "y = butlast x"
  have x: "x = y @ [LF]" using True assms(1) y_def by (metis append_butlast_last_id)
  have no: "LF \<notin> set y" using assms(2) y_def by simp
  show ?thesis
  proof (cases "y \<noteq> [] \<and> last y = CR")
    case True
    with crlf_norm_line [OF no] x assms(3) show ?thesis by simp
  next
    case False
    then have "crlf_norm x = y @ CRLF" using crlf_norm_line [OF no] x by auto
    with assms(3) have "y @ CRLF = [DOT] @ CRLF \<or> (y @ [CR]) @ [LF] = [DOT] @ [LF]"
      by (simp add: is_terminator_def)
    then have "y = [DOT]" by (simp only: append_same_eq append1_eq_conv) (cases y; simp)
    with x show ?thesis by (simp add: is_terminator_def)
  qed
next
  case False
  have "LF \<notin> set (butlast x @ [last x])" using assms(2) False by auto
  then have "LF \<notin> set x" using assms(1) by (metis append_butlast_last_id)
  then have "crlf_norm x = x" by (simp add: crlf_norm_def crlf_from_no_LF)
  with assms(3) show ?thesis by simp
qed

text \<open>
  What the session pushes: a line ends in its only LF, and a part of a line has none; at the start of
  a line a part has at least three bytes, since the session hands over a part only when its buffer has
  outgrown a bound (\<open>MAX_COMMAND_BUFFER\<close>).
\<close>

fun op_wf :: "bool \<Rightarrow> body_op \<Rightarrow> bool" where
  "op_wf start (Line l) \<longleftrightarrow> l \<noteq> [] \<and> last l = LF \<and> LF \<notin> set (butlast l)"
| "op_wf start (Partial p) \<longleftrightarrow> p \<noteq> [] \<and> LF \<notin> set p \<and> (start \<longrightarrow> 3 \<le> length p)"

fun ops_wf :: "bool \<Rightarrow> body_op list \<Rightarrow> bool" where
  "ops_wf start [] \<longleftrightarrow> True"
| "ops_wf start (x # xs) \<longleftrightarrow> op_wf start x \<and> ops_wf (case x of Line _ \<Rightarrow> True | Partial _ \<Rightarrow> False) xs"

text \<open>
  The input so far: whole lines, none of them the terminator, and a fragment of at least three bytes
  when the framer is inside a line.
\<close>

definition no_dot_lines :: "bool \<Rightarrow> bytes \<Rightarrow> bool" where
  "no_dot_lines start s \<longleftrightarrow>
     (\<exists>a fr. s = a @ fr \<and> (a = [] \<or> last a = LF) \<and> LF \<notin> set fr \<and>
             (\<forall>l \<in> set (split_inclusive ((=) LF) a). \<not> is_terminator l) \<and>
             (if start then fr = [] else 3 \<le> length fr))"

lemma terminator_length: "is_terminator l \<Longrightarrow> length l \<le> 3"
  by (auto simp: is_terminator_def)

lemma terminator_LF: "is_terminator l \<Longrightarrow> LF \<in> set l"
  by (auto simp: is_terminator_def)

lemma no_dot_lines_line:
  assumes "no_dot_lines start s" "op_wf start (Line l)" "start \<Longrightarrow> \<not> is_terminator l"
  shows "no_dot_lines True (s @ l)"
proof -
  from assms(1) obtain a fr where s: "s = a @ fr" "a = [] \<or> last a = LF" "LF \<notin> set fr"
    "\<forall>l \<in> set (split_inclusive ((=) LF) a). \<not> is_terminator l" "if start then fr = [] else 3 \<le> length fr"
    unfolding no_dot_lines_def by blast
  obtain y where y: "l = y @ [LF]" "LF \<notin> set y"
    using assms(2) by (metis append_butlast_last_id op_wf.simps(1))
  have one: "split_inclusive ((=) LF) (fr @ l) = [fr @ l]"
    using split_inclusive_Cons_no [of "fr @ y" "(=) LF" LF "[]"] y s(3) by force
  have "\<not> is_terminator (fr @ l)"
    using s(5) assms(3) terminator_length [of "fr @ l"] y(1) by (cases start) auto
  moreover have "split_inclusive ((=) LF) (a @ fr @ l) = split_inclusive ((=) LF) a @ [fr @ l]"
    using split_inclusive_append [of a "(=) LF" "fr @ l"] s(2) one by auto
  ultimately have "\<forall>l \<in> set (split_inclusive ((=) LF) (a @ fr @ l)). \<not> is_terminator l"
    using s(4) by auto
  moreover have "last (a @ fr @ l) = LF" using y(1) by simp
  ultimately show ?thesis unfolding no_dot_lines_def
    by (intro exI [of _ "a @ fr @ l"] exI [of _ "[]"]) (simp add: s(1))
qed

lemma no_dot_lines_partial:
  assumes "no_dot_lines start s" "op_wf start (Partial p)"
  shows "no_dot_lines False (s @ p)"
proof -
  from assms(1) obtain a fr where s: "s = a @ fr" "a = [] \<or> last a = LF" "LF \<notin> set fr"
    "\<forall>l \<in> set (split_inclusive ((=) LF) a). \<not> is_terminator l" "if start then fr = [] else 3 \<le> length fr"
    unfolding no_dot_lines_def by blast
  have "3 \<le> length (fr @ p)" "LF \<notin> set (fr @ p)" using s(3,5) assms(2) by (cases start; simp)+
  then show ?thesis unfolding no_dot_lines_def
    using s by (intro exI [of _ a] exI [of _ "fr @ p"]) simp
qed

lemma framer_run_no_dot_lines:
  assumes "no_dot_lines (at_line_start f) s" "ops_wf (at_line_start f) xs" "framer_run xs f = (w, rest, f')"
  shows "\<exists>done. xs = done @ rest \<and> no_dot_lines (at_line_start f') (s @ concat (map op_bytes done))"
  using assms
proof (induction xs arbitrary: f s w)
  case Nil
  then show ?case by simp
next
  case (Cons x xs)
  obtain p g where o: "framer_op x f = (p, g)" by (cases "framer_op x f")
  show ?case
  proof (cases "p = BodyTerminator")
    case True
    with o Cons.prems show ?thesis by (intro exI [of _ "[]"]) auto
  next
    case False
    then obtain w2 where w2: "framer_run xs g = (w2, rest, f')"
      using o Cons.prems(3) by (cases p) (auto split: prod.splits)
    have g: "at_line_start g = (case x of Line _ \<Rightarrow> True | Partial _ \<Rightarrow> False)"
      using framer_op_line_start [OF o False] .
    have "no_dot_lines (at_line_start g) (s @ op_bytes x)"
    proof (cases x)
      case (Line l)
      with o False framer_op_terminator [of x f f] have "at_line_start f \<Longrightarrow> \<not> is_terminator l" by auto
      with no_dot_lines_line Cons.prems Line g show ?thesis by simp
    next
      case (Partial p)
      with no_dot_lines_partial Cons.prems g show ?thesis by simp
    qed
    moreover have "ops_wf (at_line_start g) xs" using Cons.prems(2) g by simp
    ultimately obtain d where "xs = d @ rest"
      "no_dot_lines (at_line_start f') ((s @ op_bytes x) @ concat (map op_bytes d))"
      using Cons.IH w2 by blast
    then show ?thesis by (intro exI [of _ "x # d"]) simp
  qed
qed

lemma no_dot_lines_split:
  assumes "no_dot_lines start s" "l \<in> set (split_inclusive ((=) LF) s)"
  shows "\<not> is_terminator l"
proof -
  from assms(1) obtain a fr where s: "s = a @ fr" "a = [] \<or> last a = LF" "LF \<notin> set fr"
    "\<forall>l \<in> set (split_inclusive ((=) LF) a). \<not> is_terminator l"
    unfolding no_dot_lines_def by blast
  have "\<forall>b \<in> set fr. \<not> (=) LF b" using s(3) by metis
  then have "split_inclusive ((=) LF) s = split_inclusive ((=) LF) a @ (if fr = [] then [] else [fr])"
    using split_inclusive_append [of a "(=) LF" fr] split_inclusive_no [of fr "(=) LF"] s(1,2)
    by (cases "a = []") simp_all
  with assms(2) have "l \<in> set (split_inclusive ((=) LF) a) \<or> l = fr" by (simp split: if_splits)
  with s(3,4) terminator_LF show ?thesis by metis
qed

lemma split_inclusive_butlast:
  "x \<in> set (split_inclusive P s) \<Longrightarrow> x \<noteq> [] \<and> (\<forall>b \<in> set (butlast x). \<not> P b)"
proof (induction s arbitrary: x)
  case (Cons b s)
  show ?case
  proof (cases "P b \<or> split_inclusive P s = []")
    case True
    with Cons show ?thesis by (auto split: if_splits)
  next
    case False
    then obtain w ws where w: "split_inclusive P s = w # ws" by (cases "split_inclusive P s") auto
    with Cons.IH [of w] have "w \<noteq> []" "\<forall>c \<in> set (butlast w). \<not> P c" by simp_all
    moreover have "x = b # w \<or> x \<in> set ws" using Cons.prems w False by simp
    ultimately show ?thesis using Cons.IH w False by auto
  qed
qed simp

text \<open>A line that has its ending is a line of every longer text.\<close>

lemma last_fragment: "\<exists>a fr. s = a @ fr \<and> (a = [] \<or> P (last a)) \<and> (\<forall>b \<in> set fr. \<not> P b)"
proof (induction s rule: rev_induct)
  case (snoc b s)
  then obtain a fr where s: "s = a @ fr" "a = [] \<or> P (last a)" "\<forall>b \<in> set fr. \<not> P b" by blast
  show ?case
  proof (cases "P b")
    case True
    then show ?thesis by (intro exI [of _ "s @ [b]"] exI [of _ "[]"]) simp
  next
    case False
    with s show ?thesis by (intro exI [of _ a] exI [of _ "fr @ [b]"]) auto
  qed
qed simp

lemma split_inclusive_complete:
  assumes "l \<in> set (split_inclusive P s)" "\<exists>b \<in> set l. P b"
  shows "l \<in> set (split_inclusive P (s @ t))"
proof -
  obtain a fr where s: "s = a @ fr" "a = [] \<or> P (last a)" and fr: "\<forall>b \<in> set fr. \<not> P b"
    using last_fragment [of s P] by auto
  have "split_inclusive P s = split_inclusive P a @ (if fr = [] then [] else [fr])"
    using split_inclusive_append [of a P fr] split_inclusive_no [OF fr] s by simp
  with assms fr have "l \<in> set (split_inclusive P a)" by (auto split: if_splits)
  moreover have "split_inclusive P (s @ t) = split_inclusive P a @ split_inclusive P (fr @ t)"
    using split_inclusive_append [of a P "fr @ t"] s by simp
  ultimately show ?thesis by simp
qed

lemma ops_wf_nonempty: "ops_wf start xs \<Longrightarrow> \<forall>x \<in> set xs. op_bytes x \<noteq> []"
proof (induction xs arbitrary: start)
  case (Cons x xs)
  then show ?case by (cases x) auto
qed simp

text \<open>
  No line of what the framer has handed out and staged is the lone dot that would end the message at the
  upstream, whatever the client sent and however it was cut.
\<close>

lemma framer_no_terminator:
  assumes "ops_wf True xs" and "framer_run xs framer_new = (w, rest, f)"
    and "l \<in> set (split_inclusive ((=) LF) (w @ fr_out f))"
  shows "\<not> is_terminator l"
proof
  assume l: "is_terminator l"
  have ne: "\<forall>x \<in> set xs. op_bytes x \<noteq> []" using ops_wf_nonempty [OF assms(1)] .
  obtain d where d: "xs = d @ rest" "w @ fr_out f @ held_bytes (held_cr f) = crlf_norm (concat (map op_bytes d))"
    using framer_run_framed [OF framed_new ne assms(2)] unfolding framed_def by auto
  have "no_dot_lines True []" by (auto simp: no_dot_lines_def)
  then obtain d' where d': "xs = d' @ rest" "no_dot_lines (at_line_start f) (concat (map op_bytes d'))"
    using framer_run_no_dot_lines [of framer_new "[]" xs] assms(1,2) by (auto simp: framer_new_def)
  with d(1) have "d' = d" by simp
  have "\<exists>b \<in> set l. (=) LF b" using terminator_LF [OF l] by blast
  then have "l \<in> set (split_inclusive ((=) LF) ((w @ fr_out f) @ held_bytes (held_cr f)))"
    by (rule split_inclusive_complete [OF assms(3)])
  then have "l \<in> set (map crlf_norm (split_inclusive ((=) LF) (concat (map op_bytes d))))"
    using d(2) split_inclusive_crlf_norm by (metis append_assoc)
  then obtain x where x: "l = crlf_norm x" "x \<in> set (split_inclusive ((=) LF) (concat (map op_bytes d)))"
    by auto
  have "x \<noteq> []" "LF \<notin> set (butlast x)" using split_inclusive_butlast [OF x(2)] by auto
  then have "is_terminator x" using is_terminator_crlf_norm l x(1) by blast
  with no_dot_lines_split [OF d'(2)] x(2) \<open>d' = d\<close> show False by blast
qed

text \<open>
  C19. However a body is cut into lines and parts of lines, what the framer hands out and still stages is
  the bytes pushed, with every line ending made CRLF and nothing else changed (a CR at the end waits for
  the byte behind it). Pushing stops at the first terminator that begins at the start of a line and nowhere else:
  the same bytes in the middle of a line are text. And no terminator is made up: where the cuts are
  those a session makes, no line of the output is the lone dot that would end the message at the upstream. This
  is what keeps one client message one upstream message.
\<close>

theorem framer_run_output:
  assumes "\<forall>x \<in> set xs. op_bytes x \<noteq> []" and "framer_run xs framer_new = (w, rest, f)"
  shows "(\<exists>done. xs = done @ rest \<and>
            w @ fr_out f @ (if held_cr f then [CR] else []) = crlf_norm (concat (map op_bytes done)) \<and>
            (\<forall>i < length done. \<not> ends_body (take i done) (done ! i)) \<and>
            (rest \<noteq> [] \<longrightarrow> ends_body done (hd rest))) \<and>
         (ops_wf True xs \<longrightarrow> list_all (\<lambda>l. \<not> is_terminator l) (split_inclusive ((=) LF) (w @ fr_out f)))"
proof -
  have "at_line_start framer_new = line_begins []" by (simp add: framer_new_def)
  from framer_run_stops [OF assms(2) this] framer_run_framed [OF framed_new assms]
  show ?thesis using framer_no_terminator [OF _ assms(2)] by (auto simp: framed_def list_all_iff)
qed

text \<open>
  A CR that is no line ending in front of a dot, a dot in the middle of a line that came in two parts, and, behind
  them, the terminator and what follows it.
\<close>

theorem framer_run_output_witness:
  "\<exists>done rest f. framer_run [Line (CR # DOT # CRLF), Partial ''..x'', Line (DOT # CRLF), Line (DOT # CRLF), Line CRLF]
       framer_new = ([], rest, f) \<and>
     done = [Line (CR # DOT # CRLF), Partial ''..x'', Line (DOT # CRLF)] \<and> rest = [Line (DOT # CRLF), Line CRLF] \<and>
     fr_out f @ (if held_cr f then [CR] else []) = crlf_norm (concat (map op_bytes done)) \<and>
     ends_body done (hd rest) \<and>
     list_all (\<lambda>l. \<not> is_terminator l) (split_inclusive ((=) LF) (fr_out f))"
proof -
  let ?d = "[Line (CR # DOT # CRLF), Partial ''..x'', Line (DOT # CRLF)]" and ?r = "[Line (DOT # CRLF), Line CRLF]"
  let ?f = "\<lparr>fr_out = CR # DOT # CRLF @ ''..x.'' @ CRLF, at_line_start = True, held_cr = False\<rparr>"
  have wf: "ops_wf True (?d @ ?r)" by code_simp
  have ne: "\<forall>x \<in> set (?d @ ?r). op_bytes x \<noteq> []" by simp
  have run: "framer_run (?d @ ?r) framer_new = ([], ?r, ?f)" by (simp add: framer_eval)
  note k = framer_run_output [OF ne run]
  from conjunct1 [OF k] obtain ds where d: "?d @ ?r = ds @ ?r"
    "[] @ fr_out ?f @ (if held_cr ?f then [CR] else []) = crlf_norm (concat (map op_bytes ds))" "ends_body ds (hd ?r)"
    by blast
  have ds: "ds = ?d" using d(1) unfolding append_same_eq by (rule sym)
  have t: "list_all (\<lambda>l. \<not> is_terminator l) (split_inclusive ((=) LF) (fr_out ?f))"
    using mp [OF conjunct2 [OF k] wf] unfolding append_Nil .
  have r: "framer_run [Line (CR # DOT # CRLF), Partial ''..x'', Line (DOT # CRLF), Line (DOT # CRLF), Line CRLF] framer_new =
      ([], ?r, ?f)" using run unfolding append_Cons append_Nil .
  show ?thesis
    by (rule exI [of _ ?d], rule exI [of _ ?r], rule exI [of _ ?f]) (intro conjI r refl t d(2,3) [unfolded ds append_Nil])
qed

end
