(* ===== verification/Reply.thy ===== *)
theory Reply
  imports Prelude
begin

text \<open>
  \<open>src/src/smtp/reply.rs\<close>: formatting replies. Reply text comes from the upstream and from the API, so the
  facts that matter are about framing: the wire form of a reply has one line per text, each within 512
  octets and of printable ASCII only (\<open>format_reply_lines\<close>), whatever the texts hold.

  \<open>sanitize\<close> reads the text byte by byte where the source reads characters. The result is the same: every
  byte of a character outside ASCII is itself outside the printable range, and a run of such bytes
  becomes one space exactly as a run of such characters does.
\<close>

definition RFC_MAX_CLIENT_REPLY_LINE :: nat where
  "RFC_MAX_CLIENT_REPLY_LINE = 512"

definition MAX_TEXT :: nat where
  "MAX_TEXT = RFC_MAX_CLIENT_REPLY_LINE - length ''250 '' - length CRLF"

datatype reply_error = InvalidCode nat | NoLines

definition printable :: "byte \<Rightarrow> bool" where
  [byte_defs]: "printable b \<longleftrightarrow> b = TAB \<or> in_range 0x20 0x7E b"

fun fold_unprintable :: "bytes \<Rightarrow> bool \<Rightarrow> bytes" where
  "fold_unprintable [] in_run = []"
| "fold_unprintable (c # s) in_run =
     (if printable c then c # fold_unprintable s False
      else if \<not> in_run then SP # fold_unprintable s True
      else fold_unprintable s True)"

definition sanitize :: "bytes \<Rightarrow> bytes" where
  "sanitize text =
     (let trimmed = trim_end (fold_unprintable text False)
      in if length trimmed > MAX_TEXT then take (MAX_TEXT - 3) trimmed @ ''...'' else trimmed)"

text \<open>The loop of \<open>format_reply\<close>: the last line has a space behind the code, the others a hyphen.\<close>

fun format_lines :: "nat \<Rightarrow> bytes list \<Rightarrow> bytes" where
  "format_lines code [] = []"
| "format_lines code (l # ls) =
     (show_nat code @ (if ls = [] then SP else CHR ''-'') # sanitize l @ CRLF) @ format_lines code ls"

definition format_reply :: "nat \<Rightarrow> bytes list \<Rightarrow> reply_error + bytes" where
  "format_reply code ls =
     (if \<not> (200 \<le> code \<and> code \<le> 599) then Inl (InvalidCode code)
      else if ls = [] then Inl NoLines
      else Inr (format_lines code ls))"

record reply =
  reply_code :: nat
  reply_lines :: "bytes list"

definition Reply_new :: "nat \<Rightarrow> bytes \<Rightarrow> reply" where
  "Reply_new code text = \<lparr>reply_code = code, reply_lines = [text]\<rparr>"

definition Reply_multi :: "nat \<Rightarrow> bytes list \<Rightarrow> reply" where
  "Reply_multi code ls = \<lparr>reply_code = code, reply_lines = ls\<rparr>"

text \<open>\<open>Reply::wire\<close> panics where \<open>format_reply\<close> is an error: \<^const>\<open>None\<close>.\<close>

definition wire :: "reply \<Rightarrow> bytes option" where
  "wire r = (case format_reply (reply_code r) (reply_lines r) of Inl _ \<Rightarrow> None | Inr w \<Rightarrow> Some w)"


section \<open>Sanitised text\<close>

lemma printable_ascii: "printable b \<Longrightarrow> is_ascii b"
  by (auto simp: byte_defs)

lemma printable_no_break: "printable b \<Longrightarrow> b \<noteq> CR \<and> b \<noteq> LF"
  by (auto simp: byte_defs)

lemma SP_printable [simp]: "printable SP"
  by (simp add: byte_defs)

lemma fold_unprintable_printable: "\<forall>b \<in> set (fold_unprintable s r). printable b"
  by (induction s arbitrary: r) simp_all

lemma fold_unprintable_id: "\<forall>b \<in> set s. printable b \<Longrightarrow> fold_unprintable s r = s"
  by (induction s arbitrary: r) simp_all

lemma fold_trimmed:
  "trim_end (fold_unprintable s r) = trim_end_matches ws1 (fold_unprintable s r)"
  using fold_unprintable_printable printable_ascii by (intro trim_end_ascii) blast

lemma set_trim_end_matches: "set (trim_end_matches P s) \<subseteq> set s"
  using trim_end_matches_prefix [of s P] by (metis Un_upper1 set_append)

lemma sanitize_printable: "\<forall>b \<in> set (sanitize s). printable b"
proof -
  let ?t = "trim_end (fold_unprintable s False)"
  have "\<forall>b \<in> set ?t. printable b"
    using fold_unprintable_printable set_trim_end_matches fold_trimmed by (metis subsetD)
  moreover have "\<forall>b \<in> set ''...''. printable b" by (simp add: byte_defs)
  ultimately show ?thesis by (auto simp: sanitize_def Let_def dest: in_set_takeD)
qed

lemma length_sanitize: "length (sanitize s) \<le> MAX_TEXT"
  by (auto simp: sanitize_def Let_def MAX_TEXT_def RFC_MAX_CLIENT_REPLY_LINE_def)

text \<open>Text that is printable, has no white space at its end and fits is not changed.\<close>

lemma sanitize_id:
  assumes "\<forall>b \<in> set s. printable b" and "s = [] \<or> \<not> ws1 (last s)" and "length s \<le> MAX_TEXT"
  shows "sanitize s = s"
  using assms fold_trimmed [of s False]
  by (simp add: sanitize_def fold_unprintable_id trim_end_matches_id)

lemma sanitize_last: "sanitize s = [] \<or> \<not> ws1 (last (sanitize s))"
proof -
  let ?t = "trim_end (fold_unprintable s False)"
  have "?t \<noteq> [] \<Longrightarrow> \<not> ws1 (last ?t)" using fold_trimmed trim_end_matches_last by metis
  then show ?thesis by (auto simp: sanitize_def Let_def ws1_def in_range_def)
qed

lemma sanitize_idem: "sanitize (sanitize s) = sanitize s"
  using sanitize_printable sanitize_last length_sanitize by (intro sanitize_id) blast+

lemma sanitize_no_break: "b \<in> set (sanitize s) \<Longrightarrow> b \<noteq> CR \<and> b \<noteq> LF"
  using sanitize_printable printable_no_break by blast


section \<open>Framing\<close>

text \<open>The line that answers with \<open>text\<close>, as the last line or as one before it.\<close>

definition reply_line :: "nat \<Rightarrow> bool \<Rightarrow> bytes \<Rightarrow> bytes" where
  "reply_line code is_last text =
     show_nat code @ (if is_last then SP else CHR ''-'') # sanitize text @ CRLF"

fun reply_line_list :: "nat \<Rightarrow> bytes list \<Rightarrow> bytes list" where
  "reply_line_list code [] = []"
| "reply_line_list code (l # ls) = reply_line code (ls = []) l # reply_line_list code ls"

lemma format_lines_concat: "format_lines code ls = concat (reply_line_list code ls)"
  by (induction ls) (auto simp: reply_line_def)

lemma length_reply_line_list [simp]: "length (reply_line_list code ls) = length ls"
  by (induction ls) auto

lemma nth_reply_line_list:
  "i < length ls \<Longrightarrow> reply_line_list code ls ! i = reply_line code (Suc i = length ls) (ls ! i)"
  by (induction ls arbitrary: i) (auto simp: nth_Cons split: nat.splits)

lemma show_nat_no_break: "b \<in> set (show_nat n) \<Longrightarrow> b \<noteq> CR \<and> b \<noteq> LF"
  using show_nat_digits by (fastforce simp: byte_defs)

lemma reply_line_shape:
  obtains t where "reply_line code is_last text = t @ CRLF" "CR \<notin> set t" "LF \<notin> set t"
proof
  let ?t = "show_nat code @ (if is_last then SP else CHR ''-'') # sanitize text"
  show "reply_line code is_last text = ?t @ CRLF" by (simp add: reply_line_def)
  show "CR \<notin> set ?t" "LF \<notin> set ?t"
    using sanitize_no_break show_nat_no_break by auto
qed

lemma split_inclusive_reply:
  "split_inclusive ((=) LF) (reply_line code is_last text @ r) =
     reply_line code is_last text # split_inclusive ((=) LF) r"
proof -
  obtain t where t: "reply_line code is_last text = t @ CRLF" "CR \<notin> set t" "LF \<notin> set t"
    by (rule reply_line_shape)
  then have "\<forall>b \<in> set (t @ [CR]). \<not> LF = b" by auto
  from split_inclusive_Cons_no [OF this, of LF r] t(1) show ?thesis by simp
qed

lemma split_inclusive_format_lines:
  "split_inclusive ((=) LF) (format_lines code ls) = reply_line_list code ls"
  unfolding format_lines_concat by (induction ls) (auto simp: split_inclusive_reply)

lemma length_show_code: "200 \<le> code \<Longrightarrow> code \<le> 599 \<Longrightarrow> length (show_nat code) = 3"
  by (simp add: show_nat_3)

text \<open>
  C34. A reply that can be sent is framed by its own texts and by nothing in them: cut at the line feeds it
  has exactly one line per text, in order; each is the code, a space on the last line and a hyphen on
  the others, printable ASCII, and CRLF, in at most 512 octets. So text of the upstream or of the API
  cannot inject a reply line.
\<close>

theorem format_reply_lines:
  assumes "format_reply code ls = Inr w"
  shows "length (split_inclusive ((=) LF) w) = length ls \<and>
         (\<forall>i < length ls. \<exists>t. split_inclusive ((=) LF) w ! i =
            show_nat code @ (if Suc i = length ls then SP else CHR ''-'') # t @ CRLF \<and>
            (\<forall>b \<in> set t. printable b) \<and>
            length (split_inclusive ((=) LF) w ! i) \<le> RFC_MAX_CLIENT_REPLY_LINE)"
proof -
  from assms have code: "200 \<le> code" "code \<le> 599" and w: "w = format_lines code ls"
    by (auto simp: format_reply_def split: if_splits)
  have "length (reply_line code is_last t) \<le> RFC_MAX_CLIENT_REPLY_LINE" for is_last t
    using length_sanitize [of t] length_show_code [OF code]
    by (simp add: reply_line_def MAX_TEXT_def RFC_MAX_CLIENT_REPLY_LINE_def)
  then show ?thesis
    using sanitize_printable
    by (auto simp: w split_inclusive_format_lines nth_reply_line_list reply_line_def)
qed

theorem format_reply_lines_witness:
  "format_reply 550 [''a'' @ CRLF @ ''250 OK'', ''b''] = Inr (''550-a 250 OK'' @ CRLF @ ''550 b'' @ CRLF)
   \<and> length (split_inclusive ((=) LF) (''550-a 250 OK'' @ CRLF @ ''550 b'' @ CRLF)) = 2"
proof -
  have h: "format_reply 550 [''a'' @ CRLF @ ''250 OK'', ''b''] =
      Inr (''550-a 250 OK'' @ CRLF @ ''550 b'' @ CRLF)"
    by code_simp
  show ?thesis using h format_reply_lines [OF h] by simp
qed

text \<open>A reply goes out exactly when its code is one of the three-digit codes from 200 and it has a line.\<close>

lemma wire_iff: "wire r \<noteq> None \<longleftrightarrow> 200 \<le> reply_code r \<and> reply_code r \<le> 599 \<and> reply_lines r \<noteq> []"
  by (auto simp: wire_def format_reply_def split: sum.splits)

lemma wire_Reply_new: "200 \<le> c \<Longrightarrow> c \<le> 599 \<Longrightarrow> \<exists>w. wire (Reply_new c t) = Some w"
  using wire_iff [of "Reply_new c t"] by (auto simp: Reply_new_def)

end
