(* ===== verification/Handler_Interface.thy ===== *)
theory Handler_Interface
  imports Params Reply
begin

text \<open>
  The interface between a session and the application behind it, from \<open>src/src/server/mod.rs\<close>: the traits
  \<open>Handler\<close> and \<open>BodySink\<close> as a record of operations over a handler state \<open>'h\<close> and a sink state \<open>'k\<close>, and
  what a session relies on as the locale \<open>handler_contract\<close>. The session theory proves its lemmas in
  that locale; the proxy's own handler interprets it.

  \<open>Result<(), E>\<close> is \<open>E + unit\<close>. An asynchronous operation is a function on the state: a session awaits each
  call to its end before it goes on. \<open>open_body\<close> is the one that calls parsers on bytes from outside, so its
  result is an option, with \<^const>\<open>None\<close> for a panic. \<open>dsn_available\<close> and \<open>size_limit\<close> only read, but what they
  read others may have changed since, so they hand a state back as well.
\<close>

record rejection =
  rej_code :: nat
  rej_text :: bytes

definition rejection_mail :: "bytes \<Rightarrow> rejection" where
  "rejection_mail why = \<lparr>rej_code = 553, rej_text = ''Requested action not taken: '' @ why\<rparr>"

definition rejection_rcpt :: "bytes \<Rightarrow> rejection" where
  "rejection_rcpt why = \<lparr>rej_code = 550, rej_text = ''Will not send mail to this user: '' @ why\<rparr>"

definition rate_limited :: rejection where
  "rate_limited = \<lparr>rej_code = 450, rej_text = ''4.7.1 Rate limit exceeded, try again later''\<rparr>"

text \<open>\<open>UpstreamVerdict\<close> of \<open>src/src/relay.rs\<close> is part of the interface: it is what a sink answers with.\<close>

datatype upstream_verdict = Dropped | Replied nat bytes

record ('h, 'k) handler_ops =
  h_auth :: "bytes \<Rightarrow> bytes \<Rightarrow> bytes \<Rightarrow> 'h \<Rightarrow> (bytes + unit) \<times> 'h"
  h_mail :: "bytes \<Rightarrow> param list \<Rightarrow> 'h \<Rightarrow> (rejection + unit) \<times> 'h"
  h_rcpt :: "bytes \<Rightarrow> param list \<Rightarrow> 'h \<Rightarrow> (rejection + unit) \<times> 'h"
  h_open_body :: "bytes \<Rightarrow> 'h \<Rightarrow> ((rejection + 'k) \<times> 'h) option"
  h_reset :: "'h \<Rightarrow> 'h"
  h_dsn_available :: "'h \<Rightarrow> bool \<times> 'h"
  h_size_limit :: "'h \<Rightarrow> nat option \<times> 'h"
  k_write :: "bytes \<Rightarrow> 'k \<Rightarrow> (upstream_verdict + unit) \<times> 'k"
  k_write_final :: "bytes \<Rightarrow> 'k \<Rightarrow> (upstream_verdict + unit) \<times> 'k"
  k_finish :: "'k \<Rightarrow> (upstream_verdict + bytes) \<times> 'k"

text \<open>A refusal has a code that refuses: \<open>Reply::wire\<close> panics on some others, and a 2xx would accept.\<close>

definition refusal_code :: "nat \<Rightarrow> bool" where
  "refusal_code c \<longleftrightarrow> 400 \<le> c \<and> c \<le> 599"

definition refuses :: "upstream_verdict \<Rightarrow> bool" where
  "refuses v \<longleftrightarrow> (case v of Dropped \<Rightarrow> True | Replied c _ \<Rightarrow> refusal_code c)"

lemma refusal_code_rejections [simp]:
  "refusal_code (rej_code (rejection_mail why))" "refusal_code (rej_code (rejection_rcpt why))"
  "refusal_code (rej_code rate_limited)"
  by (simp_all add: refusal_code_def rejection_mail_def rejection_rcpt_def rate_limited_def)

text \<open>
  What a session relies on: no panic, every refusal carries a refusal code, and the invariants of the handler and
  of the sinks it gives out are kept.
\<close>

locale handler_contract =
  fixes hops :: "('h, 'k) handler_ops"
    and hinv :: "'h \<Rightarrow> bool"
    and kinv :: "'k \<Rightarrow> bool"
  assumes auth_inv: "hinv h \<Longrightarrow> hinv (snd (h_auth hops z c p h))"
    and mail_inv: "hinv h \<Longrightarrow> hinv (snd (h_mail hops a ps h))"
    and rcpt_inv: "hinv h \<Longrightarrow> hinv (snd (h_rcpt hops a ps h))"
    and open_no_panic: "hinv h \<Longrightarrow> h_open_body hops hs h \<noteq> None"
    and open_inv: "hinv h \<Longrightarrow> h_open_body hops hs h = Some (q, h') \<Longrightarrow> hinv h'"
    and reset_inv: "hinv h \<Longrightarrow> hinv (h_reset hops h)"
    and dsn_inv: "hinv h \<Longrightarrow> hinv (snd (h_dsn_available hops h))"
    and size_inv: "hinv h \<Longrightarrow> hinv (snd (h_size_limit hops h))"
    and mail_code: "hinv h \<Longrightarrow> h_mail hops a ps h = (Inl r, h') \<Longrightarrow> refusal_code (rej_code r)"
    and rcpt_code: "hinv h \<Longrightarrow> h_rcpt hops a ps h = (Inl r, h') \<Longrightarrow> refusal_code (rej_code r)"
    and open_code: "hinv h \<Longrightarrow> h_open_body hops hs h = Some (Inl r, h') \<Longrightarrow> refusal_code (rej_code r)"
    and open_sink: "hinv h \<Longrightarrow> h_open_body hops hs h = Some (Inr k, h') \<Longrightarrow> kinv k"
    and write_inv: "kinv k \<Longrightarrow> kinv (snd (k_write hops c k))"
    and write_refuses: "kinv k \<Longrightarrow> k_write hops b k = (Inl v, k') \<Longrightarrow> refuses v"
    and write_final_inv: "kinv k \<Longrightarrow> kinv (snd (k_write_final hops c k))"
    and write_final_refuses: "kinv k \<Longrightarrow> k_write_final hops b k = (Inl v, k') \<Longrightarrow> refuses v"
    and finish_refuses: "kinv k \<Longrightarrow> k_finish hops k = (Inl v, k') \<Longrightarrow> refuses v"

end
