(* ===== verification/Command.thy ===== *)
theory Command
  imports Params
begin

text \<open>
  \<open>src/src/smtp/command.rs\<close>: one SMTP command line to a command.

  A result is \<open>Some (Inl e)\<close> for an error reply, \<open>Some (Inr c)\<close> for a command, and \<^const>\<open>None\<close> where the
  source would panic: an \<open>unwrap\<close> on an error, or a \<open>str\<close> sliced off a character boundary. The main
  facts: parsing never panics on any input (\<open>parse_command_total\<close>), and the envelope lines the grammar
  means are parsed to what they say (\<open>parse_command_envelope\<close>).
\<close>

datatype command =
    Ehlo bytes
  | Helo bytes
  | Noop
  | Quit
  | StartTls
  | Data
  | Rset
  | Auth bytes "bytes option"
  | Mail bytes "param list"
  | Rcpt bytes "param list"
  | Vrfy bytes

fun verb :: "command \<Rightarrow> bytes" where
  "verb (Ehlo _) = ''EHLO''"
| "verb (Helo _) = ''HELO''"
| "verb Noop = ''NOOP''"
| "verb Quit = ''QUIT''"
| "verb StartTls = ''STARTTLS''"
| "verb Data = ''DATA''"
| "verb Rset = ''RSET''"
| "verb (Auth _ _) = ''AUTH''"
| "verb (Mail _ _) = ''MAIL''"
| "verb (Rcpt _ _) = ''RCPT''"
| "verb (Vrfy _) = ''VRFY''"

record command_error =
  err_code :: nat
  err_text :: bytes

definition err :: "nat \<Rightarrow> bytes \<Rightarrow> command_error" where
  "err code text = \<lparr>err_code = code, err_text = text\<rparr>"

datatype path_error = Arguments | Parameters

definition take_line :: "bytes \<Rightarrow> (bytes \<times> bytes) option" where
  "take_line buf = (case position ((=) LF) buf of
     None \<Rightarrow> None
   | Some i \<Rightarrow> Some (take (i + 1) buf, drop (i + 1) buf))"

definition malformed :: command_error where
  "malformed = err 500 ''malformed command''"

definition mechanism_char :: "byte \<Rightarrow> bool" where
  [byte_defs]: "mechanism_char b \<longleftrightarrow> is_ascii_alphanumeric b \<or> b = CHR ''-'' \<or> b = CHR ''_''"

definition parse_auth :: "bytes option \<Rightarrow> command_error + command" where
  "parse_auth args =
     (let invalid = err 501 ''invalid AUTH arguments''
      in case args of
           None \<Rightarrow> Inl invalid
         | Some a \<Rightarrow>
             (let (mechanism, initial) =
                    (case split_once SP a of Some (m, rest) \<Rightarrow> (m, Some rest) | None \<Rightarrow> (a, None));
                  ok_len = (1 \<le> length mechanism \<and> length mechanism \<le> 20);
                  ok_chars = list_all mechanism_char mechanism
              in if \<not> ok_len \<or> \<not> ok_chars then Inl invalid
                 else Inr (Auth (to_ascii_uppercase mechanism)
                             (case initial of Some s \<Rightarrow> if s = [] then None else Some s | None \<Rightarrow> None))))"

text \<open>
  \<open>parse_path\<close>, with its three \<open>str\<close> slices. \<open>args.as_bytes().get(..n)\<close> is \<^const>\<open>None\<close> when the argument is
  shorter than the keyword.
\<close>

definition parse_path ::
  "bytes option \<Rightarrow> bytes \<Rightarrow> bool \<Rightarrow> (path_error + bytes \<times> param list) option" where
  "parse_path args keyword allow_empty =
     (case args of
        None \<Rightarrow> Some (Inl Arguments)
      | Some a \<Rightarrow>
          if \<not> (length keyword \<le> length a \<and> eq_ignore_ascii_case (take (length keyword) a) keyword)
          then Some (Inl Arguments)
          else (case str_from a (length keyword) of
                  None \<Rightarrow> None
                | Some rest0 \<Rightarrow>
                    (case strip_prefix ''<'' (trim_start rest0) of
                       None \<Rightarrow> Some (Inl Arguments)
                     | Some rest \<Rightarrow>
                         (case position ((=) (CHR ''>'')) rest of
                            None \<Rightarrow> Some (Inl Arguments)
                          | Some close \<Rightarrow>
                              (case (str_upto rest close, str_from rest (close + 1)) of
                                 (Some address, Some tail) \<Rightarrow>
                                   if address = [] \<and> \<not> allow_empty then Some (Inl Arguments)
                                   else if tail = [] then Some (Inr (address, []))
                                   else (case strip_prefix '' '' tail of
                                           None \<Rightarrow> Some (Inl Arguments)
                                         | Some ptext \<Rightarrow>
                                             if ptext = [] then Some (Inr (address, []))
                                             else (case parse_params ptext of
                                                     None \<Rightarrow> Some (Inl Parameters)
                                                   | Some ps \<Rightarrow> Some (Inr (address, ps))))
                               | _ \<Rightarrow> None)))))"

definition mail_error :: "path_error \<Rightarrow> command_error" where
  "mail_error k = (case k of Arguments \<Rightarrow> err 501 ''invalid MAIL arguments''
                           | Parameters \<Rightarrow> err 501 ''invalid MAIL parameters'')"

definition rcpt_error :: "path_error \<Rightarrow> command_error" where
  "rcpt_error k = (case k of Arguments \<Rightarrow> err 501 ''invalid RCPT arguments''
                           | Parameters \<Rightarrow> err 501 ''invalid RCPT parameters'')"

definition nonempty :: "bytes option \<Rightarrow> bytes option" where
  "nonempty a = (case a of Some s \<Rightarrow> if s = [] then None else Some s | None \<Rightarrow> None)"

text \<open>The \<open>match verb.as_str()\<close> that ends \<open>parse_command\<close>.\<close>

definition command_of :: "bytes \<Rightarrow> bytes option \<Rightarrow> (command_error + command) option" where
  "command_of v args =
     (if v = ''EHLO'' \<or> v = ''HELO'' then
        (case nonempty args of
           None \<Rightarrow> Some (Inl (err 501 ''domain required''))
         | Some domain \<Rightarrow> Some (Inr (if v = ''EHLO'' then Ehlo domain else Helo domain)))
      else if v = ''NOOP'' then Some (Inr Noop)
      else if v = ''QUIT'' \<or> v = ''STARTTLS'' \<or> v = ''DATA'' \<or> v = ''RSET'' then
        (if nonempty args \<noteq> None then Some (Inl (err 501 ''no arguments allowed''))
         else Some (Inr (if v = ''QUIT'' then Quit else if v = ''STARTTLS'' then StartTls
                         else if v = ''DATA'' then Data else Rset)))
      else if v = ''AUTH'' then Some (parse_auth args)
      else if v = ''MAIL'' then
        (case parse_path args ''FROM:'' True of
           None \<Rightarrow> None
         | Some (Inl k) \<Rightarrow> Some (Inl (mail_error k))
         | Some (Inr (from, ps)) \<Rightarrow> Some (Inr (Mail from ps)))
      else if v = ''RCPT'' then
        (case parse_path args ''TO:'' False of
           None \<Rightarrow> None
         | Some (Inl k) \<Rightarrow> Some (Inl (rcpt_error k))
         | Some (Inr (to, ps)) \<Rightarrow> Some (Inr (Rcpt to ps)))
      else if v = ''VRFY'' then
        (case nonempty args of
           None \<Rightarrow> Some (Inl (err 501 ''string required''))
         | Some s \<Rightarrow> Some (Inr (Vrfy s)))
      else Some (Inl (err 502 ''unknown command'')))"

text \<open>The \<open>match &body[verb_len..]\<close>: the argument is separated by exactly one space.\<close>

definition split_args :: "bytes \<Rightarrow> command_error + bytes option" where
  "split_args rest =
     (case rest of
        [] \<Rightarrow> Inr None
      | b # r \<Rightarrow> if b = SP then (case from_utf8 r of None \<Rightarrow> Inl malformed | Some a \<Rightarrow> Inr (Some a))
                 else Inl malformed)"

definition parse_command :: "bytes \<Rightarrow> (command_error + command) option" where
  "parse_command line =
     (case strip_suffix CRLF line of
        None \<Rightarrow> Some (Inl malformed)
      | Some body \<Rightarrow>
          if CR \<in> set body then Some (Inl malformed)
          else (let verb_len = length (takeWhile is_ascii_alphabetic body)
                in if verb_len = 0 then Some (Inl malformed)
                   else (case from_utf8 (take verb_len body) of
                           None \<Rightarrow> None
                         | Some v \<Rightarrow>
                             (case split_args (drop verb_len body) of
                                Inl e \<Rightarrow> Some (Inl e)
                              | Inr args \<Rightarrow> command_of (to_ascii_uppercase v) args))))"


section \<open>Lines\<close>

lemma take_line_Some:
  "take_line buf = Some (line, rest) \<longleftrightarrow>
     buf = line @ rest \<and> (\<exists>s. line = s @ [LF] \<and> LF \<notin> set s)"
proof
  assume "take_line buf = Some (line, rest)"
  then obtain i where i: "position ((=) LF) buf = Some i"
    and lr: "line = take (Suc i) buf" "rest = drop (Suc i) buf"
    by (auto simp: take_line_def split: option.splits)
  then have "i < length buf" "buf ! i = LF" "\<And>j. j < i \<Longrightarrow> buf ! j \<noteq> LF"
    by (auto simp: position_Some)
  then have "line = take i buf @ [LF]" and "LF \<notin> set (take i buf)"
    using lr by (auto simp: take_Suc_conv_app_nth in_set_conv_nth)
  then show "buf = line @ rest \<and> (\<exists>s. line = s @ [LF] \<and> LF \<notin> set s)"
    using lr append_take_drop_id [of "Suc i" buf] by metis
next
  assume "buf = line @ rest \<and> (\<exists>s. line = s @ [LF] \<and> LF \<notin> set s)"
  then obtain s where s: "buf = s @ LF # rest" "line = s @ [LF]" "LF \<notin> set s" by auto
  then have "position ((=) LF) buf = Some (length s)"
    using position_append [of s "(=) LF" LF rest] by auto
  with s show "take_line buf = Some (line, rest)" by (simp add: take_line_def)
qed

lemma take_line_None: "take_line buf = None \<longleftrightarrow> LF \<notin> set buf"
proof -
  have "take_line buf = None \<longleftrightarrow> position ((=) LF) buf = None"
    by (simp add: take_line_def split: option.split)
  also have "\<dots> \<longleftrightarrow> LF \<notin> set buf" by (subst position_None) blast
  finally show ?thesis .
qed

lemma take_line_length:
  "take_line buf = Some (line, rest) \<Longrightarrow> length line + length rest = length buf \<and> line \<noteq> []"
  by (auto simp: take_line_Some)


section \<open>No panic\<close>

lemma alphabetic_ascii: "is_ascii_alphabetic b \<Longrightarrow> is_ascii b"
  by (auto simp: byte_defs)

lemma ascii_upper_ascii: "is_ascii (ascii_upper b) = is_ascii b"
  by (auto simp: ord_ascii_upper byte_defs)

lemma eq_ignore_ascii_case_ascii:
  assumes "eq_ignore_ascii_case s t" and "list_all is_ascii t"
  shows "list_all is_ascii s"
proof -
  have "list_all is_ascii (to_ascii_uppercase s)"
    using assms unfolding eq_ignore_ascii_case_def
    by (simp add: to_ascii_uppercase_def list_all_iff ascii_upper_ascii)
  then show ?thesis by (simp add: to_ascii_uppercase_def list_all_iff ascii_upper_ascii)
qed

lemma boundary_after_ascii:
  assumes "utf8_valid s" and "n \<le> length s" and "list_all is_ascii (take n s)"
  shows "is_char_boundary s n" and "utf8_valid (drop n s)"
proof -
  have "utf8_valid (take n s @ drop n s)" using assms(1) by simp
  then show v: "utf8_valid (drop n s)"
    using assms(3) utf8_valid_ascii_append by (metis list_all_iff)
  show "is_char_boundary s n"
  proof (cases "n < length s")
    case True
    then have "drop n s = s ! n # drop (Suc n) s" by (simp add: Cons_nth_drop_Suc)
    with v have "\<not> is_cont (s ! n)" by (metis utf8_valid_not_cont)
    with True show ?thesis by (simp add: is_char_boundary_def)
  next
    case False
    with assms(2) show ?thesis by (simp add: is_char_boundary_def)
  qed
qed

lemma parse_path_no_panic:
  assumes "\<And>a. args = Some a \<Longrightarrow> utf8_valid a" and "list_all is_ascii keyword"
  shows "parse_path args keyword allow_empty \<noteq> None"
proof (cases args)
  case None
  then show ?thesis by (simp add: parse_path_def)
next
  case (Some a)
  show ?thesis
  proof (cases "length keyword \<le> length a \<and> eq_ignore_ascii_case (take (length keyword) a) keyword")
    case False
    then show ?thesis by (simp add: parse_path_def Some)
  next
    case kw: True
    then have "list_all is_ascii (take (length keyword) a)"
      using assms(2) eq_ignore_ascii_case_ascii by blast
    with kw assms(1) [OF Some] have b: "is_char_boundary a (length keyword)"
      and v: "utf8_valid (drop (length keyword) a)"
      using boundary_after_ascii by blast+
    then have frm: "str_from a (length keyword) = Some (drop (length keyword) a)"
      by (simp add: str_from_def)
    let ?r0 = "trim_start (drop (length keyword) a)"
    have v0: "utf8_valid ?r0" using v by (rule utf8_valid_trim_start)
    show ?thesis
    proof (cases "strip_prefix ''<'' ?r0")
      case None
      then show ?thesis using kw Some frm by (simp add: parse_path_def)
    next
      case r: (Some rest)
      then have vr: "utf8_valid rest" using v0 by (auto simp: strip_prefix_Some)
      show ?thesis
      proof (cases "position ((=) (CHR ''>'')) rest")
        case None
        then show ?thesis using kw Some frm r by (simp add: parse_path_def)
      next
        case c: (Some close)
        then have lt: "close < length rest" and "rest ! close = CHR ''>''"
          by (auto simp: position_Some)
        then have "is_ascii (rest ! close)" by (simp add: is_ascii_def)
        then have "is_char_boundary rest close" and "is_char_boundary rest (Suc close)"
          using utf8_valid_boundary [OF vr lt] by auto
        then show ?thesis using kw Some frm r c
          by (simp add: parse_path_def str_from_def str_upto_def split: option.splits)
      qed
    qed
  qed
qed

lemma if_not_None: "x \<noteq> None \<Longrightarrow> y \<noteq> None \<Longrightarrow> (if b then x else y) \<noteq> None"
  by simp

lemma split_args_valid: "split_args rest = Inr (Some a) \<Longrightarrow> utf8_valid a"
  by (auto simp: split_args_def from_utf8_def split: list.splits if_splits option.splits)

lemma command_of_no_panic:
  assumes "\<And>a. args = Some a \<Longrightarrow> utf8_valid a"
  shows "command_of v args \<noteq> None"
proof -
  have "parse_path args ''FROM:'' True \<noteq> None" and "parse_path args ''TO:'' False \<noteq> None"
    using parse_path_no_panic [of args "''FROM:''" True] parse_path_no_panic [of args "''TO:''" False] assms
    by (auto simp: byte_defs)
  then show ?thesis unfolding command_of_def
    by (intro if_not_None) (simp_all split: option.splits sum.splits)
qed

lemma parse_command_total: "parse_command line \<noteq> None"
proof (cases "strip_suffix CRLF line")
  case None
  then show ?thesis by (simp add: parse_command_def)
next
  case (Some body)
  let ?n = "length (takeWhile is_ascii_alphabetic body)"
  have "take ?n body = takeWhile is_ascii_alphabetic body" by (rule takeWhile_eq_take [symmetric])
  then have "utf8_valid (take ?n body)"
    using alphabetic_ascii utf8_valid_ascii by (metis set_takeWhileD)
  then have "from_utf8 (take ?n body) = Some (take ?n body)" by (simp add: from_utf8_def)
  moreover have "command_of v args \<noteq> None" if "split_args r = Inr args" for r args v
    using that split_args_valid by (intro command_of_no_panic) auto
  ultimately show ?thesis
    using Some
    by (cases "split_args (drop ?n body)")
       (simp_all add: parse_command_def Let_def del: not_None_eq takeWhile_eq_Nil_iff)
qed


section \<open>What is accepted\<close>

text \<open>
  The declarative reading of \<open>FROM:<address> [parameters]\<close>: the keyword in any case, white space after
  the colon, an address without \<open>>\<close> in angle brackets, and the parameters after one space.
\<close>

definition path_args :: "bytes \<Rightarrow> bool \<Rightarrow> bytes \<Rightarrow> bytes \<Rightarrow> param list \<Rightarrow> bool" where
  "path_args keyword allow_empty a address ps \<longleftrightarrow>
     (\<exists>k w t. a = k @ w @ ''<'' @ address @ ''>'' @ t \<and> eq_ignore_ascii_case k keyword \<and> ws_only w \<and>
        CHR ''>'' \<notin> set address \<and> (address = [] \<longrightarrow> allow_empty) \<and> list_all wf_param ps \<and>
        (t = [] \<and> ps = [] \<or> (\<exists>u. t = SP # u \<and> split_ascii_whitespace u = map param_text ps)))"

lemma split_ascii_whitespace_Nil [simp]: "split_ascii_whitespace [] = []"
  by (simp add: split_ascii_whitespace_def)

text \<open>The part of \<open>parse_path\<close> behind the closing bracket.\<close>

lemma path_tail:
  "(if t = [] then Some (Inr (address, []))
    else (case strip_prefix '' '' t of
            None \<Rightarrow> Some (Inl Arguments)
          | Some ptext \<Rightarrow>
              if ptext = [] then Some (Inr (address, []))
              else (case parse_params ptext of
                      None \<Rightarrow> Some (Inl Parameters)
                    | Some ps \<Rightarrow> Some (Inr (address, ps))))) = Some (Inr (address', ps))
   \<longleftrightarrow> address' = address \<and> list_all wf_param ps \<and>
       (t = [] \<and> ps = [] \<or> (\<exists>u. t = SP # u \<and> split_ascii_whitespace u = map param_text ps))"
proof (cases t)
  case Nil
  then show ?thesis by auto
next
  case (Cons b u)
  show ?thesis
  proof (cases "b = SP")
    case True
    then show ?thesis using Cons parse_params_iff [of u ps]
      by (cases "u = []"; cases "parse_params u") (auto simp: strip_prefix_def)
  next
    case False
    then show ?thesis using Cons by (auto simp: strip_prefix_def)
  qed
qed

lemma parse_path_accepts:
  assumes v: "utf8_valid a" and asc: "list_all is_ascii keyword" and p: "path_args keyword allow_empty a address ps"
  shows "parse_path (Some a) keyword allow_empty = Some (Inr (address, ps))"
proof -
  from p obtain k w t where a: "a = k @ w @ ''<'' @ address @ ''>'' @ t"
    and k: "eq_ignore_ascii_case k keyword" and w: "ws_only w" and gt: "CHR ''>'' \<notin> set address"
    and tail: "(address = [] \<longrightarrow> allow_empty) \<and> list_all wf_param ps \<and>
        (t = [] \<and> ps = [] \<or> (\<exists>u. t = SP # u \<and> split_ascii_whitespace u = map param_text ps))"
    by (auto simp: path_args_def)
  let ?rest = "address @ ''>'' @ t"
  have lk: "length k = length keyword" using k by (rule eq_ignore_ascii_case_length)
  have ak: "list_all is_ascii k" using k asc by (rule eq_ignore_ascii_case_ascii)
  have head: "length keyword \<le> length a" "take (length keyword) a = k"
    "drop (length keyword) a = w @ ''<'' @ ?rest"
    using lk by (simp_all add: a)
  have v0: "utf8_valid (w @ ''<'' @ ?rest)"
    and b0: "is_char_boundary a (length keyword)"
    using boundary_after_ascii [OF v head(1)] ak head(2,3) by auto
  have trim: "trim_start (w @ ''<'' @ ?rest) = ''<'' @ ?rest"
    using trim_start_ws_append [OF w, of "''<'' @ ?rest"]
      trim_start_non_ws [of "CHR ''<''" ?rest] by (simp add: ws1_def in_range_def)
  have "utf8_valid (''<'' @ ?rest)" using utf8_valid_trim_start [OF v0] trim by simp
  then have vr: "utf8_valid ?rest" by simp
  have pos: "position ((=) (CHR ''>'')) ?rest = Some (length address)"
    using position_append [of address "(=) (CHR ''>'')" "CHR ''>''" t] gt by fastforce
  have sp: "strip_prefix ''<'' (''<'' @ ?rest) = Some ?rest" by (simp add: strip_prefix_Some)
  have ne: "(address = [] \<and> \<not> allow_empty) = False" using tail by blast
  have bd: "is_char_boundary ?rest (length address)" "is_char_boundary ?rest (Suc (length address))"
    using utf8_valid_boundary [OF vr, of "length address"] by (simp_all add: is_ascii_def)
  have "parse_path (Some a) keyword allow_empty =
    (if t = [] then Some (Inr (address, []))
     else (case strip_prefix '' '' t of
            None \<Rightarrow> Some (Inl Arguments)
          | Some ptext \<Rightarrow>
              if ptext = [] then Some (Inr (address, []))
              else (case parse_params ptext of
                      None \<Rightarrow> Some (Inl Parameters)
                    | Some ps \<Rightarrow> Some (Inr (address, ps)))))"
    using head k b0 trim pos bd sp by (simp add: parse_path_def str_from_def str_upto_def ne)
  then show ?thesis
    using path_tail [of t address address ps] tail by simp
qed

lemma parse_path_gives:
  assumes p: "parse_path (Some a) keyword allow_empty = Some (Inr (address, ps))"
  shows "path_args keyword allow_empty a address ps"
proof -
  from p have kw: "length keyword \<le> length a" "eq_ignore_ascii_case (take (length keyword) a) keyword"
    by (auto simp: parse_path_def split: if_splits)
  let ?r0 = "drop (length keyword) a"
  from p kw obtain rest where fr: "str_from a (length keyword) = Some ?r0"
    and rest: "trim_start ?r0 = ''<'' @ rest"
    by (auto simp: parse_path_def str_from_def strip_prefix_Some split: if_splits option.splits)
  then have sp: "strip_prefix ''<'' (trim_start ?r0) = Some rest" by (simp add: strip_prefix_Some)
  from p kw fr sp obtain i where pos: "position ((=) (CHR ''>'')) rest = Some i"
    by (auto simp: parse_path_def split: option.splits)
  then have i: "i < length rest" "rest ! i = CHR ''>''" "\<And>j. j < i \<Longrightarrow> rest ! j \<noteq> CHR ''>''"
    by (auto simp: position_Some)
  then have rest': "rest = take i rest @ ''>'' @ drop (Suc i) rest"
    by (metis append_Cons append_Nil id_take_nth_drop)
  have gt: "CHR ''>'' \<notin> set (take i rest)" using i by (auto simp: in_set_conv_nth)
  from p kw fr sp pos have res: "address = take i rest \<and> (address = [] \<longrightarrow> allow_empty) \<and>
      list_all wf_param ps \<and> (drop (Suc i) rest = [] \<and> ps = [] \<or>
        (\<exists>u. drop (Suc i) rest = SP # u \<and> split_ascii_whitespace u = map param_text ps))"
    using path_tail [of "drop (Suc i) rest" "take i rest" address ps]
    by (auto simp: parse_path_def str_from_def str_upto_def split: if_splits)
  obtain w where w: "?r0 = w @ trim_start ?r0" "ws_only w" using trim_start_decomp by blast
  have "a = take (length keyword) a @ w @ ''<'' @ take i rest @ ''>'' @ drop (Suc i) rest"
    using append_take_drop_id [of "length keyword" a] w(1) rest rest' by metis
  with kw w res gt show ?thesis
    unfolding path_args_def by blast
qed

lemma parse_path_iff:
  assumes "utf8_valid a" "list_all is_ascii keyword"
  shows "parse_path (Some a) keyword allow_empty = Some (Inr (address, ps)) \<longleftrightarrow>
         path_args keyword allow_empty a address ps"
  using parse_path_accepts [OF assms] parse_path_gives by blast


text \<open>A command line is a verb of letters, nothing or one space and the argument, and CRLF.\<close>

definition line_parts :: "bytes \<Rightarrow> bytes \<Rightarrow> bytes option \<Rightarrow> bool" where
  "line_parts line v args \<longleftrightarrow>
     v \<noteq> [] \<and> list_all is_ascii_alphabetic v \<and>
     (case args of None \<Rightarrow> line = v @ CRLF
                 | Some a \<Rightarrow> line = v @ SP # a @ CRLF \<and> CR \<notin> set a \<and> utf8_valid a)"

lemma takeWhile_alpha:
  "list_all P v \<Longrightarrow> (case r of [] \<Rightarrow> True | b # _ \<Rightarrow> \<not> P b) \<Longrightarrow> takeWhile P (v @ r) = v"
  by (cases r) (auto simp: list_all_iff takeWhile_append)

lemma SP_not_alphabetic: "\<not> is_ascii_alphabetic SP"
  by (simp add: byte_defs)

lemma alphabetic_no_CR: "list_all is_ascii_alphabetic v \<Longrightarrow> CR \<notin> set v"
  by (auto simp: list_all_iff byte_defs)

lemma parse_command_parts:
  assumes "line_parts line v args"
  shows "parse_command line = command_of (to_ascii_uppercase v) args"
proof -
  have v: "v \<noteq> []" "list_all is_ascii_alphabetic v" using assms by (auto simp: line_parts_def)
  then have vv: "utf8_valid v" by (auto simp: list_all_iff intro!: utf8_valid_ascii alphabetic_ascii)
  define r where "r = (case args of None \<Rightarrow> [] | Some a \<Rightarrow> SP # a)"
  have line: "line = (v @ r) @ CRLF" and cr: "CR \<notin> set (v @ r)"
    and r: "case r of [] \<Rightarrow> True | b # _ \<Rightarrow> \<not> is_ascii_alphabetic b" and sa: "split_args r = Inr args"
    using assms v alphabetic_no_CR SP_not_alphabetic
    by (auto simp: line_parts_def r_def split_args_def from_utf8_def split: option.splits)
  have "takeWhile is_ascii_alphabetic (v @ r) = v" using v(2) r by (rule takeWhile_alpha)
  moreover have "strip_suffix CRLF line = Some (v @ r)" using line by (simp add: strip_suffix_Some)
  ultimately show ?thesis
    using cr v vv sa by (simp add: parse_command_def from_utf8_def)
qed

lemma parse_command_line_parts:
  assumes "parse_command line = Some (Inr c)"
  obtains v args where "line_parts line v args" "command_of (to_ascii_uppercase v) args = Some (Inr c)"
proof -
  from assms obtain body where body: "strip_suffix CRLF line = Some body" and cr: "CR \<notin> set body"
    by (auto simp: parse_command_def split: option.splits if_splits)
  let ?v = "takeWhile is_ascii_alphabetic body"
  have take: "take (length ?v) body = ?v" by (rule takeWhile_eq_take [symmetric])
  from assms body cr have v: "?v \<noteq> []"
    by (auto simp: parse_command_def Let_def split: if_splits)
  from assms body cr v take obtain args where sa: "split_args (drop (length ?v) body) = Inr args"
    and co: "command_of (to_ascii_uppercase ?v) args = Some (Inr c)"
    by (auto simp: parse_command_def Let_def from_utf8_def split: if_splits sum.splits)
  define r where "r = drop (length ?v) body"
  have bd: "body = ?v @ r" using take append_take_drop_id r_def by metis
  have "line = ?v @ r @ CRLF" using body bd by (simp add: strip_suffix_Some)
  moreover have "CR \<notin> set r" using cr unfolding r_def by (meson in_set_dropD)
  moreover have "list_all is_ascii_alphabetic ?v" by (auto simp: list_all_iff dest: set_takeWhileD)
  moreover have "case args of None \<Rightarrow> r = [] | Some a \<Rightarrow> r = SP # a \<and> utf8_valid a"
    using sa unfolding r_def [symmetric]
    by (auto simp: split_args_def from_utf8_def split: list.splits if_splits option.splits)
  ultimately have "line_parts line ?v args"
    using v unfolding line_parts_def by (cases args) simp_all
  with co show thesis by (rule that [rotated])
qed


lemma if_eqE: "(if b then x else y) = z \<Longrightarrow> (b \<Longrightarrow> x = z \<Longrightarrow> Q) \<Longrightarrow> (\<not> b \<Longrightarrow> y = z \<Longrightarrow> Q) \<Longrightarrow> Q"
  by (cases b) auto

lemma parse_auth_verb: "parse_auth args = Inr c \<Longrightarrow> verb c = ''AUTH''"
  by (auto simp: parse_auth_def Let_def split: option.splits prod.splits if_splits)

text \<open>The command's own verb is the verb of the line, folded to upper case.\<close>

lemma command_of_verb: "command_of v args = Some (Inr c) \<Longrightarrow> v = verb c"
  unfolding command_of_def
  by (elim if_eqE) (auto split: option.splits sum.splits if_splits dest: parse_auth_verb)

lemma command_of_mail:
  "command_of ''MAIL'' args = Some (Inr (Mail address ps)) \<longleftrightarrow>
     parse_path args ''FROM:'' True = Some (Inr (address, ps))"
  by (auto simp: command_of_def split: option.splits sum.splits)

lemma command_of_rcpt:
  "command_of ''RCPT'' args = Some (Inr (Rcpt address ps)) \<longleftrightarrow>
     parse_path args ''TO:'' False = Some (Inr (address, ps))"
  by (auto simp: command_of_def split: option.splits sum.splits)

lemma line_parts_valid: "line_parts line v (Some a) \<Longrightarrow> utf8_valid a"
  by (simp add: line_parts_def)

lemma parse_path_None_args: "parse_path None kw ae = Some (Inl Arguments)"
  by (simp add: parse_path_def)

lemma verb_upper: "to_ascii_uppercase (verb c) = verb c" "list_all is_ascii_alphabetic (verb c)" "verb c \<noteq> []"
  by (cases c; simp add: to_ascii_uppercase_def ascii_upper_def byte_defs)+

text \<open>The commands with a path: what the verb and the keyword are does not matter.\<close>

lemma parse_command_path:
  assumes asc: "list_all is_ascii kw"
    and co: "\<And>args. command_of (verb c) args = Some (Inr c) \<longleftrightarrow> parse_path args kw ae = Some (Inr (address, ps))"
  shows "parse_command line = Some (Inr c) \<longleftrightarrow>
     (\<exists>v a. line_parts line v (Some a) \<and> eq_ignore_ascii_case v (verb c) \<and> path_args kw ae a address ps)"
    (is "_ \<longleftrightarrow> ?grammar")
proof
  assume "parse_command line = Some (Inr c)"
  then obtain v args where lp: "line_parts line v args" and c: "command_of (to_ascii_uppercase v) args = Some (Inr c)"
    by (rule parse_command_line_parts)
  have v: "to_ascii_uppercase v = verb c" using command_of_verb [OF c] .
  then have pp: "parse_path args kw ae = Some (Inr (address, ps))" using c co by simp
  then obtain a where a: "args = Some a" by (cases args) (simp_all add: parse_path_None_args)
  then have "path_args kw ae a address ps" using parse_path_iff [OF _ asc] pp line_parts_valid lp by blast
  moreover have "eq_ignore_ascii_case v (verb c)" using v by (simp add: eq_ignore_ascii_case_def verb_upper(1))
  ultimately show ?grammar using lp a by blast
next
  assume ?grammar
  then obtain v a where lp: "line_parts line v (Some a)" and v: "eq_ignore_ascii_case v (verb c)"
    and p: "path_args kw ae a address ps" by blast
  have "parse_path (Some a) kw ae = Some (Inr (address, ps))"
    using parse_path_iff [OF line_parts_valid [OF lp] asc] p by blast
  then show "parse_command line = Some (Inr c)"
    using parse_command_parts [OF lp] v co by (simp add: eq_ignore_ascii_case_def verb_upper(1))
qed

text \<open>
  C33. The \<open>MAIL\<close> and \<open>RCPT\<close> lines the parser accepts, and what it reads from them, are exactly those of the
  grammar: the verb in any case, one space, \<open>FROM:\<close> or \<open>TO:\<close> in any case, white space, an address in angle
  brackets that holds no \<open>>\<close> (an empty one only in \<open>MAIL\<close>), then nothing or a space and well-formed
  parameters, and CRLF, with valid UTF-8 and no other CR in the line.
\<close>

theorem parse_command_envelope:
  "(parse_command line = Some (Inr (Mail address ps)) \<longleftrightarrow>
     (\<exists>v a. line_parts line v (Some a) \<and> eq_ignore_ascii_case v ''MAIL'' \<and> path_args ''FROM:'' True a address ps)) \<and>
   (parse_command line = Some (Inr (Rcpt address ps)) \<longleftrightarrow>
     (\<exists>v a. line_parts line v (Some a) \<and> eq_ignore_ascii_case v ''RCPT'' \<and> path_args ''TO:'' False a address ps))"
  using parse_command_path [of "''FROM:''" "Mail address ps" True address ps line]
    parse_command_path [of "''TO:''" "Rcpt address ps" False address ps line] command_of_mail command_of_rcpt
  by (simp add: is_ascii_def)

text \<open>What a refused line is answered with.\<close>

lemma err_code_err [simp]: "err_code (err c t) = c"
  by (simp add: err_def)

lemma parse_auth_code: "parse_auth args = Inl e \<Longrightarrow> err_code e = 501"
  by (auto simp: parse_auth_def Let_def split: option.splits prod.splits if_splits)

lemma mail_error_code [simp]: "err_code (mail_error k) = 501"
  by (cases k) (simp_all add: mail_error_def err_def)

lemma rcpt_error_code [simp]: "err_code (rcpt_error k) = 501"
  by (cases k) (simp_all add: rcpt_error_def err_def)

definition code_in :: "nat set \<Rightarrow> (command_error + command) option \<Rightarrow> bool" where
  "code_in C r \<longleftrightarrow> (\<forall>e. r = Some (Inl e) \<longrightarrow> err_code e \<in> C)"

lemma code_in_if: "code_in C x \<Longrightarrow> code_in C y \<Longrightarrow> code_in C (if b then x else y)"
  by simp

lemma code_in_simps [simp]:
  "code_in C None" "code_in C (Some (Inr c))" "code_in C (Some (Inl e)) \<longleftrightarrow> err_code e \<in> C"
  by (auto simp: code_in_def)

lemma command_of_code: "code_in {501, 502} (command_of v args)"
proof -
  have "code_in {501, 502} (Some (parse_auth args))"
    by (cases "parse_auth args") (auto dest: parse_auth_code)
  then show ?thesis
    unfolding command_of_def by (intro code_in_if) (simp_all split: option.split sum.split)
qed

lemma split_args_code: "split_args r = Inl e \<Longrightarrow> err_code e = 500"
  by (auto simp: split_args_def malformed_def split: list.splits if_splits option.splits)

lemma malformed_code [simp]: "err_code malformed = 500"
  by (simp add: malformed_def)

lemma parse_command_code: "code_in {500, 501, 502} (parse_command line)"
proof -
  have "code_in {500, 501, 502} (command_of v args)" for v args
    using command_of_code [of v args] by (auto simp: code_in_def)
  then have "code_in {500, 501, 502}
      (case split_args r of Inl e \<Rightarrow> Some (Inl e) | Inr args \<Rightarrow> command_of v args)" for r v
    by (cases "split_args r") (auto dest: split_args_code)
  then show ?thesis
    unfolding parse_command_def Let_def
    by (cases "strip_suffix CRLF line")
       (auto intro!: code_in_if simp del: takeWhile_eq_Nil_iff split: option.split)
qed

end
