(* ===== verification/Smtp_Log.thy ===== *)
theory Smtp_Log
  imports Command
begin

text \<open>
  \<open>src/src/smtplog.rs\<close>: the optional wire log. The file and the clock are outside; what is modelled is the
  text of every entry and, for the session, the lines it logs. The point is that no secret of an
  \<open>AUTH\<close> command reaches the log unless the operator asked for it (\<open>redact_auth_secret\<close>).

  The source finds the ends of words with \<open>find\<close> on characters. White space is recognised on bytes here:
  the first byte of a white-space character is never a continuation byte, so in a valid string
  nothing else matches. The slices of the source are taken at positions \<open>find\<close> returned, which are
  character boundaries.
\<close>

definition ws_at :: "bytes \<Rightarrow> bool" where
  "ws_at s \<longleftrightarrow>
     (case s of
        b # c # d # _ \<Rightarrow> ws1 b \<or> ws2 b c \<or> ws3 b c d
      | [b, c] \<Rightarrow> ws1 b \<or> ws2 b c
      | [b] \<Rightarrow> ws1 b
      | [] \<Rightarrow> False)"

fun find_whitespace :: "bytes \<Rightarrow> nat option" where
  "find_whitespace [] = None"
| "find_whitespace (b # s) = (if ws_at (b # s) then Some 0 else map_option Suc (find_whitespace s))"

definition format_entry :: "bytes \<Rightarrow> bytes \<Rightarrow> bool \<Rightarrow> bytes \<Rightarrow> bytes" where
  "format_entry conn timestamp sent line =
     conn @ '' '' @ timestamp @ '' '' @ (if sent then ''<<<'' else ''>>>'') @ '' '' @ line @ [LF]"

definition next_token :: "bytes \<Rightarrow> nat \<Rightarrow> (nat \<times> nat) option" where
  "next_token s start_at =
     (let rest = drop start_at s; tail = trim_start rest
      in if tail = [] then None
         else (let start = start_at + (length rest - length tail);
                   end_rel = (case find_whitespace tail of Some i \<Rightarrow> i | None \<Rightarrow> length tail)
               in Some (start, start + end_rel)))"

definition redact_auth_line :: "bytes \<Rightarrow> bytes" where
  "redact_auth_line line =
     (case next_token line 0 of
        None \<Rightarrow> line
      | Some (verb_start, verb_end) \<Rightarrow>
          if \<not> eq_ignore_ascii_case (drop verb_start (take verb_end line)) ''AUTH'' then line
          else (case next_token line verb_end of
                  None \<Rightarrow> line
                | Some (_, mech_end) \<Rightarrow>
                    if next_token line mech_end = None then line
                    else take mech_end line @ '' [REDACTED]''))"

abbreviation trim_line_end :: "bytes \<Rightarrow> bytes" where
  "trim_line_end s \<equiv> trim_end_matches (\<lambda>b. b = CR \<or> b = LF) s"

text \<open>
  \<open>write\<close>: the entry for one line, without the id and the time that \<open>format_entry\<close> puts in front. A log is
  the list of its entries: whether the line was sent, and the line.
\<close>

type_synonym log_entry = "bool \<times> bytes"

definition log_write :: "bool \<Rightarrow> bytes \<Rightarrow> log_entry" where
  "log_write sent line = (sent, trim_line_end line)"

definition log_received :: "bool \<Rightarrow> bytes \<Rightarrow> log_entry list" where
  "log_received credentials line =
     [log_write False (if credentials then line else redact_auth_line line)]"

definition log_received_auth_secret :: "bool \<Rightarrow> bytes \<Rightarrow> log_entry list" where
  "log_received_auth_secret credentials line =
     [log_write False (if credentials then line else ''[REDACTED]'')]"

fun split_crlf :: "bytes \<Rightarrow> bytes list" where
  "split_crlf (b # c # s) =
     (if b = CR \<and> c = LF then [] # split_crlf s
      else (case split_crlf (c # s) of [] \<Rightarrow> [[b]] | w # ws \<Rightarrow> (b # w) # ws))"
| "split_crlf s = [s]"

definition log_sent :: "bytes \<Rightarrow> log_entry list" where
  "log_sent wire = map (log_write True) (filter (\<lambda>l. l \<noteq> []) (split_crlf wire))"


section \<open>Redaction\<close>

lemma find_whitespace_append:
  assumes "\<forall>b \<in> set w. \<not> ws1 b \<and> is_ascii b" and "t = [] \<or> ws1 (hd t)"
  shows "find_whitespace (w @ t) = (if t = [] then None else Some (length w))"
  using assms(1)
proof (induction w)
  case Nil
  show ?case
  proof (cases t)
    case (Cons c u)
    with assms(2) have "ws_at t" by (auto simp: ws_at_def split: list.splits)
    with Cons show ?thesis by simp
  qed simp
next
  case (Cons b w)
  then have "\<not> ws1 b" "ord b < 128" by (auto simp: is_ascii_def)
  then have "\<not> ws_at (b # w @ t)"
    by (auto simp: ws_at_def ws2_def ws3_def split: list.splits)
  with Cons show ?case by simp
qed

lemma next_token_word:
  assumes "ws_only sp" "w \<noteq> []" "\<forall>b \<in> set w. \<not> ws1 b \<and> is_ascii b" "t = [] \<or> ws1 (hd t)"
  shows "next_token (p @ sp @ w @ t) (length p) =
           Some (length p + length sp, length p + length sp + length w)"
proof -
  obtain b r where w: "w = b # r" using assms(2) by (cases w) auto
  then have "trim_start (w @ t) = w @ t"
    using assms(3) trim_start_non_ws [of b "r @ t"] by (simp add: is_ascii_def)
  then have tail: "trim_start (sp @ w @ t) = w @ t" using trim_start_ws_append [OF assms(1)] by metis
  have "find_whitespace (w @ t) = (if t = [] then None else Some (length w))"
    using find_whitespace_append [OF assms(3,4)] .
  with tail assms(2) show ?thesis by (cases "t = []") (simp_all add: next_token_def Let_def)
qed

lemma next_token_None: "next_token s n = None \<longleftrightarrow> trim_start (drop n s) = []"
  by (simp add: next_token_def Let_def)

lemma ws_only_Nil [simp]: "ws_only []"
  by (simp add: ws_only_def)

lemma ws_only_SP [simp]: "ws_only [SP]"
  by (simp add: ws_only_def ws1_def)

lemma ws1_SP [simp]: "ws1 SP"
  by (simp add: ws1_def)

definition plain_word :: "bytes \<Rightarrow> bool" where
  "plain_word w \<longleftrightarrow> w \<noteq> [] \<and> (\<forall>b \<in> set w. \<not> ws1 b \<and> is_ascii b)"

lemma redact_auth:
  assumes "eq_ignore_ascii_case v ''AUTH''" "plain_word v" "plain_word m" "trim_start secret \<noteq> []"
  shows "redact_auth_line (v @ SP # m @ SP # secret) = v @ SP # m @ '' [REDACTED]''"
proof -
  let ?l = "v @ SP # m @ SP # secret"
  have t1: "next_token ?l 0 = Some (0, length v)"
    using next_token_word [of "[]" v "SP # m @ SP # secret" "[]"] assms(2) by (simp add: plain_word_def)
  have t2: "next_token ?l (length v) = Some (length v + 1, length v + 1 + length m)"
    using next_token_word [of "[SP]" m "SP # secret" v] assms(3) by (simp add: plain_word_def)
  have "drop (length v + 1 + length m) ?l = SP # secret" by simp
  then have t3: "next_token ?l (length v + 1 + length m) \<noteq> None"
    using trim_start_ws_append [OF ws_only_SP, of secret] assms(4) by (simp add: next_token_None)
  have tk: "take (length v + 1 + length m) ?l = v @ SP # m" by simp
  from t1 t2 t3 assms(1) show ?thesis
    by (simp add: redact_auth_line_def tk [simplified] del: not_None_eq)
qed

text \<open>A command line that carries a secret, as the parser reads it.\<close>

lemma mechanism_plain: "mechanism_char b \<Longrightarrow> \<not> ws1 b \<and> is_ascii b"
  by (auto simp: byte_defs ws1_def)

lemma alphabetic_plain: "is_ascii_alphabetic b \<Longrightarrow> \<not> ws1 b \<and> is_ascii b"
  by (auto simp: byte_defs ws1_def)

lemma parse_auth_Auth:
  assumes "parse_auth (Some a) = Inr (Auth mech (Some secret))"
  obtains m where "a = m @ SP # secret" "plain_word m" "mech = to_ascii_uppercase m" "secret \<noteq> []"
proof -
  from assms obtain m where m: "split_once SP a = Some (m, secret)" "length m \<ge> 1"
      "list_all mechanism_char m" "mech = to_ascii_uppercase m" "secret \<noteq> []"
    by (auto simp: parse_auth_def Let_def split: option.splits prod.splits if_splits)
  then have "a = m @ SP # secret" "plain_word m"
    using mechanism_plain by (auto simp: split_once_Some plain_word_def list_all_iff)
  with m that show thesis by blast
qed

lemma command_of_auth:
  "command_of v args = Some (Inr (Auth mech initial)) \<Longrightarrow> parse_auth args = Inr (Auth mech initial)"
proof -
  assume a: "command_of v args = Some (Inr (Auth mech initial))"
  from command_of_verb [OF a] have "v = ''AUTH''" by simp
  with a show ?thesis by (simp add: command_of_def)
qed

lemma upper_AUTH: "eq_ignore_ascii_case v ''AUTH'' \<longleftrightarrow> to_ascii_uppercase v = ''AUTH''"
  by (simp add: eq_ignore_ascii_case_def to_ascii_uppercase_def ascii_upper_def byte_defs)

lemma auth_line_parts:
  assumes "parse_command line = Some (Inr (Auth mech (Some secret)))"
  obtains v m where "line = v @ SP # m @ SP # secret @ CRLF" "eq_ignore_ascii_case v ''AUTH''"
    "plain_word v" "plain_word m" "mech = to_ascii_uppercase m" "CR \<notin> set secret" "utf8_valid line"
    "secret \<noteq> []"
proof -
  from assms obtain v args where lp: "line_parts line v args"
    and co: "command_of (to_ascii_uppercase v) args = Some (Inr (Auth mech (Some secret)))"
    by (rule parse_command_line_parts)
  from command_of_verb [OF co] have v: "to_ascii_uppercase v = ''AUTH''" by simp
  have pa: "parse_auth args = Inr (Auth mech (Some secret))" using command_of_auth [OF co] .
  then obtain a where a: "args = Some a" by (cases args) (auto simp: parse_auth_def Let_def)
  from pa a obtain m where m: "a = m @ SP # secret" "plain_word m" "mech = to_ascii_uppercase m"
    "secret \<noteq> []" by (metis parse_auth_Auth)
  from lp a have l: "line = v @ SP # a @ CRLF" "v \<noteq> []" "list_all is_ascii_alphabetic v"
    "CR \<notin> set a" "utf8_valid a" by (auto simp: line_parts_def)
  have pv: "plain_word v" using l(2,3) alphabetic_plain by (auto simp: plain_word_def list_all_iff)
  have "utf8_valid (SP # a @ CRLF)"
    using l(5) utf8_valid_append [of a CRLF] utf8_valid_ascii [of CRLF] utf8_valid_ascii_Cons [of SP]
    by (simp add: is_ascii_def)
  moreover have "utf8_valid v" using pv by (intro utf8_valid_ascii) (auto simp: plain_word_def)
  ultimately have "utf8_valid line" using l(1) utf8_valid_append by blast
  with that l(1,4) m v pv upper_AUTH show thesis by simp
qed

text \<open>
  C37. The secret of an \<open>AUTH\<close> command does not reach the wire log: whatever line the session took from its
  buffer and parsed as \<open>AUTH\<close> with an initial response, the entry is the verb and the mechanism and a
  fixed mark, which do not depend on the response.
\<close>

theorem redact_auth_secret:
  assumes "take_line buf = Some (line, rest)"
    and "parse_command line = Some (Inr (Auth mech (Some secret)))" and "trim_start secret \<noteq> []"
  shows "\<exists>v m. eq_ignore_ascii_case v ''AUTH'' \<and> mech = to_ascii_uppercase m \<and>
           log_received False (trim_line_end (from_utf8_lossy line)) =
             [(False, v @ SP # m @ '' [REDACTED]'')]"
proof -
  obtain v m where l: "line = v @ SP # m @ SP # secret @ CRLF" and v: "eq_ignore_ascii_case v ''AUTH''"
    "plain_word v" "plain_word m" "mech = to_ascii_uppercase m" and cr: "CR \<notin> set secret"
    and valid: "utf8_valid line" and ne: "secret \<noteq> []"
    using auth_line_parts [OF assms(2)] by metis
  let ?t = "v @ SP # m @ SP # secret" and ?P = "\<lambda>b. b = CR \<or> b = LF"
  obtain s where s: "line = s @ [LF]" "LF \<notin> set s" using assms(1) by (auto simp: take_line_Some)
  have "s @ [LF] = (?t @ [CR]) @ [LF]" using s(1) l by simp
  then have "s = ?t @ [CR]" by (simp only: append_same_eq)
  then have lf: "LF \<notin> set secret" using s(2) by auto
  have "last ?t = last secret" using ne by simp
  moreover have "last secret \<in> set secret" using ne by simp
  ultimately have "\<not> ?P (last ?t)" using cr lf by metis
  then have "trim_line_end ?t = ?t" by (intro trim_end_matches_id) simp
  moreover have "line = ?t @ CRLF" using l by simp
  ultimately have "trim_line_end line = ?t"
    using trim_end_matches_append_all [of CRLF ?P ?t] by simp
  moreover have "from_utf8_lossy line = line" using valid by (rule from_utf8_lossy_id)
  moreover have "redact_auth_line ?t = v @ SP # m @ '' [REDACTED]''"
    using redact_auth v assms(3) by blast
  moreover have "trim_line_end (v @ SP # m @ '' [REDACTED]'') = v @ SP # m @ '' [REDACTED]''"
    by (intro trim_end_matches_id) simp
  ultimately show ?thesis using v by (auto simp: log_received_def log_write_def)
qed

theorem redact_auth_secret_witness:
  "\<exists>v m. eq_ignore_ascii_case v ''AUTH'' \<and> ''PLAIN'' = to_ascii_uppercase m \<and>
     log_received False (trim_line_end (from_utf8_lossy (''auth plain AGFiAGNk'' @ CRLF))) =
       [(False, v @ SP # m @ '' [REDACTED]'')]"
proof -
  have 1: "take_line (''auth plain AGFiAGNk'' @ CRLF) = Some (''auth plain AGFiAGNk'' @ CRLF, [])"
    by code_simp
  have 2: "parse_command (''auth plain AGFiAGNk'' @ CRLF) = Some (Inr (Auth ''PLAIN'' (Some ''AGFiAGNk'')))"
    by code_simp
  have 3: "trim_start ''AGFiAGNk'' \<noteq> []" by code_simp
  show ?thesis by (rule redact_auth_secret [OF 1 2 3])
qed

end
