(* ===== verification/Session.thy ===== *)
theory Session
  imports Streams Dsn Auth_Decode Message_Data Handler_Interface Smtp_Log "HOL-Library.Word"
begin

text \<open>
  \<open>src/src/server/session.rs\<close>: one client connection, from the greeting to its end, as a state machine
  over the commands a client may send, in any order, cut into reads in any way.

  The environment is data. What the client sends is the list of reads still to come: bytes with the
  silence before them, or an error. Bytes of length zero are the end of the stream, and when the list
  is used up the client is silent for ever. What it sends behind a TLS handshake is a list of its own
  (\<open>after_tls\<close>), since the handshake is third-party code; it may succeed, fail, or never end. Writes take
  their outcome from a list, which may be that they never complete, for no timeout covers them; and so does
  the shutdown token at each wait for a command. All of these
  are arbitrary in the theorems.

  A result of type \<open>((error + 'a) \<times> session) option\<close> is \<^const>\<open>None\<close> for a panic (\<open>Reply::wire\<close> on a code
  that cannot be sent, or a parser panic), \<open>Inl\<close> for an I/O error that \<open>?\<close> hands up.

  The trace records what the session did to the outside: replies, handler calls, the sink's life. It
  is what the theorems speak about. Debug and info log lines are left out, with \<open>ReceiptLog\<close> (the theory
  \<open>Receipt_Log\<close> has it) and the byte count that exist only for them; so are the client address and the connection id, which only label logs.
\<close>

section \<open>The environment\<close>

definition is_hangup :: "error_kind \<Rightarrow> bool" where
  "is_hangup e \<longleftrightarrow>
     e \<in> {UnexpectedEof, BrokenPipe, ConnectionReset, ConnectionAborted, NotConnected}"

definition MAX_COMMAND_BUFFER :: nat where
  "MAX_COMMAND_BUFFER = 64 * 1024"

definition TERMINATOR_SLACK :: nat where
  "TERMINATOR_SLACK = 2"

text \<open>What becomes of a TLS handshake; behind a successful one the client sends a stream of its own.\<close>

datatype tls_outcome = HandshakeOk "read_event list" | HandshakeFails | HandshakeStalls

datatype line = Got bytes | Eof | TooLong

datatype state = WantGreeting | WantStartTls | WantAuth | WantMail | WantRcpt | WantData

text \<open>The derived \<open>Ord\<close> of \<open>State\<close>: the position of the constructor.\<close>

fun rank :: "state \<Rightarrow> nat" where
  "rank WantGreeting = 0"
| "rank WantStartTls = 1"
| "rank WantAuth = 2"
| "rank WantMail = 3"
| "rank WantRcpt = 4"
| "rank WantData = 5"

instantiation state :: linorder
begin

definition less_eq_state :: "state \<Rightarrow> state \<Rightarrow> bool" where
  "less_eq_state a b \<longleftrightarrow> rank a \<le> rank b"

definition less_state :: "state \<Rightarrow> state \<Rightarrow> bool" where
  "less_state a b \<longleftrightarrow> rank a < rank b"

instance
proof
  fix a b :: state
  show "a \<le> b \<Longrightarrow> b \<le> a \<Longrightarrow> a = b"
    by (cases a; cases b) (simp_all add: less_eq_state_def)
qed (auto simp: less_eq_state_def less_state_def)

end

text \<open>
  \<open>End\<close> and \<open>Flow\<close>. \<open>EndNever\<close> and \<open>Stuck\<close> have no counterpart in the source: they stand for an \<open>await\<close> that
  never completes.
\<close>

datatype end_reason =
    EndQuit | EndEof | EndIo error_kind | EndTimeout | EndTlsFailed | EndClosed | EndDrained | EndNever

datatype flow = Continue | FlowQuit | FlowTlsFailed | Close | Stuck

datatype auth_line = Token bytes | Confused | AuthClosed

record server_config =
  service_name :: bytes
  require_starttls :: bool
  require_auth :: bool
  tls_offered :: bool
  cfg_max_header_size :: nat
  smtplog :: "bool option"
  idle_timeout :: nat
  greeting_timeout :: nat
  max_connections :: "64 word"
  max_connections_per_ip :: "64 word"
  max_recipients :: nat
  has_drain :: bool

datatype event =
    Sent reply
  | SendFailed reply
  | Shutdown
  | TlsUp
  | AuthCall bool
  | MailCall bytes bool
  | RcptCall bytes bool
  | ResetCall
  | OpenCall bytes bool
  | WriteCall bytes bool
  | Finished "upstream_verdict + bytes"
  | SinkDropped

text \<open>Everything a session is given and never changes: its configuration, its handler's code, base64.\<close>

record ('h, 'k) env =
  cfg :: server_config
  ops :: "('h, 'k) handler_ops"
  b64 :: "bytes \<Rightarrow> bytes option"

record 'h session =
  inp :: "read_event list"
  after_tls :: tls_outcome
  writes :: "error_kind option list"
  drain_script :: "bool list"
  buf :: bytes
  st :: state
  tls_active :: bool
  handler :: 'h
  first_command_seen :: bool
  recipients :: nat
  wire_log :: "log_entry list"
  trace :: "event list"


section \<open>Reading\<close>

text \<open>The loop of \<open>next_line\<close>, over the buffer and the reads to come.\<close>

function fill_line :: "nat \<Rightarrow> nat \<Rightarrow> bytes \<Rightarrow> read_event list \<Rightarrow> (error_kind + line) \<times> bytes \<times> read_event list" where
  "fill_line deadline max_incomplete b evs =
     (case take_line b of
        Some (l, rest) \<Rightarrow> (Inr (Got l), rest, evs)
      | None \<Rightarrow>
          if length b > max_incomplete then (Inr TooLong, b, evs)
          else (case read_chunk deadline evs of
                  (Inl e, evs') \<Rightarrow> (Inl e, b, evs')
                | (Inr chunk, evs') \<Rightarrow>
                    if chunk = [] then (Inr Eof, b, evs')
                    else fill_line deadline max_incomplete (b @ chunk) evs'))"
  by pat_completeness auto
termination
  by (relation "measure (\<lambda>(_, _, _, evs). events_size evs)") (auto dest: read_chunk_size(1) [OF sym])

declare fill_line.simps [simp del]

definition deadline :: "('h, 'k) env \<Rightarrow> 'h session \<Rightarrow> nat" where
  "deadline E s = (if first_command_seen s then idle_timeout (cfg E) else greeting_timeout (cfg E))"

definition next_line :: "('h, 'k) env \<Rightarrow> nat \<Rightarrow> 'h session \<Rightarrow> (error_kind + line) \<times> 'h session" where
  "next_line E max_incomplete s =
     (case fill_line (deadline E s) max_incomplete (buf s) (inp s) of
        (r, b, evs) \<Rightarrow> (r, s\<lparr>buf := b, inp := evs\<rparr>))"

text \<open>
  \<open>next_command_line\<close>: the shutdown token wins the \<open>select!\<close> when the next entry of \<open>drain_script\<close> says so
  (\<open>Inr None\<close>). What had been read by then stays in the buffer in the source; the session ends there,
  so nothing reads it again.
\<close>

definition next_command_line :: "('h, 'k) env \<Rightarrow> 'h session \<Rightarrow> (error_kind + line option) \<times> 'h session" where
  "next_command_line E s =
     (if has_drain (cfg E) \<and> drain_script s \<noteq> [] \<and> hd (drain_script s)
      then (Inr None, s\<lparr>drain_script := tl (drain_script s)\<rparr>)
      else (case next_line E MAX_COMMAND_BUFFER (s\<lparr>drain_script := tl (drain_script s)\<rparr>) of
              (Inl e, s') \<Rightarrow> (Inl e, s')
            | (Inr l, s') \<Rightarrow> (Inr (Some l), s')))"


section \<open>Replies\<close>

type_synonym ('a, 'h) io = "((error_kind + 'a) \<times> 'h session) option"

definition emit :: "event \<Rightarrow> 'h session \<Rightarrow> 'h session" where
  "emit e s = s\<lparr>trace := trace s @ [e]\<rparr>"

definition log_lines :: "('h, 'k) env \<Rightarrow> (bool \<Rightarrow> log_entry list) \<Rightarrow> 'h session \<Rightarrow> 'h session" where
  "log_lines E entries s =
     (case smtplog (cfg E) of None \<Rightarrow> s | Some cred \<Rightarrow> s\<lparr>wire_log := wire_log s @ entries cred\<rparr>)"

text \<open>
  \<open>send\<close>: the writes of a reply and its flush as one step. A write that never completes stops the session there.
\<close>

definition send :: "('h, 'k) env \<Rightarrow> reply \<Rightarrow> 'h session \<Rightarrow> (unit, 'h) io" where
  "send E r s =
     (case wire r of
        None \<Rightarrow> None
      | Some w \<Rightarrow>
          (let s1 = log_lines E (\<lambda>_. log_sent w) s
           in case writes s1 of
                Some e # ws \<Rightarrow> Some (Inl e, emit (SendFailed r) (s1\<lparr>writes := ws\<rparr>))
              | ws \<Rightarrow> Some (Inr (), emit (Sent r) (s1\<lparr>writes := tl ws\<rparr>))))"

text \<open>\<open>let _ = self.send(...)\<close>: an error does not matter, a panic does, and so does a write that never completes.\<close>

definition send_ignore :: "('h, 'k) env \<Rightarrow> reply \<Rightarrow> 'h session \<Rightarrow> (unit, 'h) io" where
  "send_ignore E r s =
     (case send E r s of
        None \<Rightarrow> None
      | Some (Inl e, s1) \<Rightarrow> if e = Never then Some (Inl e, s1) else ok () s1
      | Some (Inr _, s1) \<Rightarrow> ok () s1)"

definition refuse_long_line :: "('h, 'k) env \<Rightarrow> 'h session \<Rightarrow> (unit, 'h) io" where
  "refuse_long_line E s = send_ignore E (Reply_new 500 ''Line too long'') s"

definition drained :: "('h, 'k) env \<Rightarrow> 'h session \<Rightarrow> (unit, 'h) io" where
  "drained E s =
     and_then
       (send_ignore E
          (Reply_new 421 (service_name (cfg E) @ '' Service not available, closing transmission channel'')) s)
       (\<lambda>_ s1. ok () (emit Shutdown s1))"

definition start_transaction :: "('h, 'k) env \<Rightarrow> 'h session \<Rightarrow> 'h session" where
  "start_transaction E s =
     emit ResetCall (s\<lparr>recipients := 0, handler := h_reset (ops E) (handler s)\<rparr>)"

definition send_continue :: "('h, 'k) env \<Rightarrow> reply \<Rightarrow> 'h session \<Rightarrow> (flow, 'h) io" where
  "send_continue E r s = and_then (send E r s) (\<lambda>_. ok Continue)"

definition bad_sequence :: "('h, 'k) env \<Rightarrow> 'h session \<Rightarrow> (flow, 'h) io" where
  "bad_sequence E s = send_continue E (Reply_new 503 ''Bad sequence of commands'') s"

text \<open>\<open>greeting\<close>: the lines of the \<open>EHLO\<close> reply, the transaction's reset and the state it leads to.\<close>

definition greeting_lines :: "('h, 'k) env \<Rightarrow> bool \<Rightarrow> 'h session \<Rightarrow> bytes list \<times> 'h session" where
  "greeting_lines E ehlo s =
     (let svc = service_name (cfg E);
          first = (if tls_active s then svc @ '' offers another warm hug of welcome''
                   else svc @ '' offers a warm hug of welcome'')
      in if \<not> ehlo then ([first], s)
         else
           (let (dsn, h1) = h_dsn_available (ops E) (handler s);
                (size, h2) = h_size_limit (ops E) h1
            in (first #
                (if \<not> tls_active s \<and> tls_offered (cfg E) then [''STARTTLS''] else []) @
                (if tls_active s \<or> \<not> require_starttls (cfg E) then [''AUTH PLAIN LOGIN''] else []) @
                (if dsn then [''DSN''] else []) @
                (case size of Some n \<Rightarrow> [''SIZE '' @ show_nat n] | None \<Rightarrow> []),
                s\<lparr>handler := h2\<rparr>)))"

definition greeting :: "('h, 'k) env \<Rightarrow> bool \<Rightarrow> 'h session \<Rightarrow> (unit, 'h) io" where
  "greeting E ehlo s =
     (let (ls, s0) = greeting_lines E ehlo s;
          s1 = (if st s0 \<ge> WantMail then start_transaction E s0 else s0);
          s2 = s1\<lparr>st := (if st s1 \<ge> WantMail then WantMail
                        else if st s1 \<ge> WantAuth \<or> tls_active s1 then WantAuth
                        else WantStartTls)\<rparr>
      in send E (Reply_multi 250 ls) s2)"


section \<open>Authentication\<close>

text \<open>The text of a continuation line: \<open>strip_suffix\<close> of CRLF, else of LF, else the line.\<close>

definition continuation_text :: "bytes \<Rightarrow> bytes" where
  "continuation_text raw =
     (case strip_suffix CRLF raw of
        Some t \<Rightarrow> t
      | None \<Rightarrow> (case strip_suffix [LF] raw of Some t \<Rightarrow> t | None \<Rightarrow> raw))"

definition auth_continuation :: "('h, 'k) env \<Rightarrow> 'h session \<Rightarrow> (auth_line, 'h) io" where
  "auth_continuation E s =
     (case next_line E MAX_COMMAND_BUFFER s of
        (Inl e, s1) \<Rightarrow> Some (Inl e, s1)
      | (Inr Eof, s1) \<Rightarrow> ok AuthClosed s1
      | (Inr TooLong, s1) \<Rightarrow> and_then (refuse_long_line E s1) (\<lambda>_. ok AuthClosed)
      | (Inr (Got l), s1) \<Rightarrow>
          (let text = continuation_text (from_utf8_lossy l);
               s2 = log_lines E (\<lambda>cred. log_received_auth_secret cred text) s1
           in if text = [] \<or> CR \<in> set text \<or> LF \<in> set text
              then and_then (send E (Reply_new 500 ''confused authentication response'') s2)
                     (\<lambda>_. ok Confused)
              else ok (Token text) s2))"

definition finish_auth :: "('h, 'k) env \<Rightarrow> credentials option \<Rightarrow> 'h session \<Rightarrow> (flow, 'h) io" where
  "finish_auth E creds s =
     (let (accepted, s1) =
            (case creds of
               None \<Rightarrow> (False, s)
             | Some c \<Rightarrow>
                 (case h_auth (ops E) (authzid c) (authcid c) (password c) (handler s) of
                    (r, h) \<Rightarrow> (case r of Inl _ \<Rightarrow> (False, emit (AuthCall False) (s\<lparr>handler := h\<rparr>))
                                     | Inr _ \<Rightarrow> (True, emit (AuthCall True) (s\<lparr>handler := h\<rparr>)))))
      in if accepted
         then and_then (send E (Reply_new 235 ''Authentication successful'') s1)
                (\<lambda>_ s2. ok Continue (s2\<lparr>st := WantMail\<rparr>))
         else send_continue E (Reply_new 535 ''Authentication credentials invalid'') s1)"

definition with_token ::
  "(auth_line, 'h) io \<Rightarrow> (bytes \<Rightarrow> 'h session \<Rightarrow> (flow, 'h) io) \<Rightarrow> (flow, 'h) io" where
  "with_token m k =
     and_then m (\<lambda>a. case a of Token t \<Rightarrow> k t | Confused \<Rightarrow> ok Continue | AuthClosed \<Rightarrow> ok Close)"

definition want_mail :: "('h, 'k) env \<Rightarrow> command \<Rightarrow> 'h session \<Rightarrow> (flow, 'h) io" where
  "want_mail E command s =
     (case command of
        Mail from_ ps \<Rightarrow>
          (case validate_dsn ps DsnMail of
             Inl text \<Rightarrow> send_continue E (Reply_new 501 text) s
           | Inr _ \<Rightarrow>
               (let s1 = start_transaction E s;
                    (r, h) = h_mail (ops E) from_ ps (handler s1);
                    s2 = s1\<lparr>handler := h\<rparr>
                in case r of
                     Inr _ \<Rightarrow> and_then (send E (Reply_new 250 ''OK'') (emit (MailCall from_ True) s2))
                                (\<lambda>_ s3. ok Continue (s3\<lparr>st := WantRcpt\<rparr>))
                   | Inl rej \<Rightarrow> send_continue E (Reply_new (rej_code rej) (rej_text rej))
                                (emit (MailCall from_ False) s2)))
      | _ \<Rightarrow> bad_sequence E s)"

definition want_auth :: "('h, 'k) env \<Rightarrow> command \<Rightarrow> 'h session \<Rightarrow> (flow, 'h) io" where
  "want_auth E command s =
     (case command of
        Auth mechanism initial \<Rightarrow>
          if mechanism = ''PLAIN'' then
            (case initial of
               Some t \<Rightarrow> finish_auth E (decode_plain (b64 E) t) s
             | None \<Rightarrow>
                 and_then (send E (Reply_new 334 []) s)
                   (\<lambda>_ s1. with_token (auth_continuation E s1)
                             (\<lambda>t. finish_auth E (decode_plain (b64 E) t))))
          else if mechanism = ''LOGIN'' then
            and_then (send E (Reply_new 334 USERNAME_CHALLENGE) s)
              (\<lambda>_ s1. with_token (auth_continuation E s1)
                        (\<lambda>user s2. and_then (send E (Reply_new 334 PASSWORD_CHALLENGE) s2)
                           (\<lambda>_ s3. with_token (auth_continuation E s3)
                                     (\<lambda>pass. finish_auth E (decode_login (b64 E) user pass)))))
          else send_continue E (Reply_new 504 ''Authentication mechanism not supported'') s
      | _ \<Rightarrow>
          if require_auth (cfg E) then send_continue E (Reply_new 530 ''Authentication required'') s
          else want_mail E command (s\<lparr>st := WantMail\<rparr>))"

text \<open>
  \<open>STARTTLS\<close>: what is in the buffer arrived in the clear and is thrown away; so is, with the plain stream,
  whatever the client sent behind it that the handshake did not use. There is no timeout on \<open>accept\<close>.
\<close>

definition want_starttls :: "('h, 'k) env \<Rightarrow> command \<Rightarrow> 'h session \<Rightarrow> (flow, 'h) io" where
  "want_starttls E command s =
     (if command = StartTls \<and> tls_offered (cfg E) then
        and_then (send E (Reply_new 220 ''Go ahead'') s)
          (\<lambda>_ s1.
             let s2 = s1\<lparr>buf := [], inp := [], after_tls := HandshakeFails\<rparr>
             in case after_tls s1 of
                  HandshakeOk plaintext \<Rightarrow>
                    ok Continue (emit TlsUp (s2\<lparr>inp := plaintext, tls_active := True, st := WantAuth\<rparr>))
                | HandshakeFails \<Rightarrow> ok FlowTlsFailed s2
                | HandshakeStalls \<Rightarrow> ok Stuck s2)
      else if require_starttls (cfg E) then
        send_continue E (Reply_new 530 ''Must issue a STARTTLS command first'') s
      else want_auth E command (s\<lparr>st := WantAuth\<rparr>))"

definition want_rcpt :: "('h, 'k) env \<Rightarrow> command \<Rightarrow> 'h session \<Rightarrow> (flow, 'h) io" where
  "want_rcpt E command s =
     (case command of
        Rcpt to_ ps \<Rightarrow>
          (case validate_dsn ps DsnRcpt of
             Inl text \<Rightarrow> send_continue E (Reply_new 501 text) s
           | Inr _ \<Rightarrow>
               if max_recipients (cfg E) > 0 \<and> recipients s \<ge> max_recipients (cfg E)
               then send_continue E (Reply_new 452 ''4.5.3 Too many recipients'') s
               else
                 (let (r, h) = h_rcpt (ops E) to_ ps (handler s);
                      s1 = s\<lparr>handler := h\<rparr>
                  in case r of
                       Inr _ \<Rightarrow>
                         and_then (send E (Reply_new 250 ''OK'')
                                     (emit (RcptCall to_ True) (s1\<lparr>recipients := recipients s1 + 1\<rparr>)))
                           (\<lambda>_ s2. ok Continue (s2\<lparr>st := WantData\<rparr>))
                     | Inl rej \<Rightarrow> send_continue E (Reply_new (rej_code rej) (rej_text rej))
                                  (emit (RcptCall to_ False) s1)))
      | _ \<Rightarrow> bad_sequence E s)"


section \<open>Messages\<close>

text \<open>What is still to be read: the buffer and the reads to come. Every loop below reads some of it.\<close>

definition unread :: "'h session \<Rightarrow> nat" where
  "unread s = length (buf s) + events_size (inp s)"

lemma fill_line_size:
  "fill_line d m b evs = (r, b', evs') \<Longrightarrow>
     length b' + events_size evs' + (case r of Inr (Got l) \<Rightarrow> length l | _ \<Rightarrow> 0) \<le> length b + events_size evs \<and>
     (\<forall>l. r = Inr (Got l) \<longrightarrow> l \<noteq> []) \<and> (r = Inr TooLong \<longrightarrow> m < length b')"
proof (induction d m b evs rule: fill_line.induct)
  case (1 d m b evs)
  show ?case
  proof (cases "take_line b")
    case (Some p)
    then obtain l rest where p: "take_line b = Some (l, rest)" by (cases p) auto
    then have "r = Inr (Got l)" "b' = rest" "evs' = evs"
      using "1.prems" by (auto simp: fill_line.simps [of d m b])
    with take_line_length [OF p] show ?thesis by simp
  next
    case None
    show ?thesis
    proof (cases "m < length b")
      case True
      with None "1.prems" show ?thesis by (auto simp: fill_line.simps [of d m b])
    next
      case False
      obtain x evs1 where c: "read_chunk d evs = (x, evs1)" by (cases "read_chunk d evs")
      show ?thesis
      proof (cases x)
        case (Inl e)
        with c None False "1.prems" read_chunk_fail_size [of d evs e evs1] show ?thesis
          by (auto simp: fill_line.simps [of d m b])
      next
        case (Inr chunk)
        with c have sz: "length chunk + events_size evs1 \<le> events_size evs"
          using read_chunk_size(2) by blast
        show ?thesis
        proof (cases "chunk = []")
          case True
          with c None False Inr sz "1.prems" show ?thesis by (auto simp: fill_line.simps [of d m b])
        next
          case ne: False
          with c None False Inr "1.prems" have f: "fill_line d m (b @ chunk) evs1 = (r, b', evs')"
            by (simp add: fill_line.simps [of d m b])
          have "length b' + events_size evs' + (case r of Inr (Got l) \<Rightarrow> length l | _ \<Rightarrow> 0)
              \<le> length (b @ chunk) + events_size evs1 \<and>
              (\<forall>l. r = Inr (Got l) \<longrightarrow> l \<noteq> []) \<and> (r = Inr TooLong \<longrightarrow> m < length b')"
            using "1.IH" [OF None False c [symmetric] Inr ne f] .
          with sz show ?thesis by auto
        qed
      qed
    qed
  qed
qed

lemma next_line_unread:
  assumes "next_line E m s = (r, s')"
  shows "unread s' \<le> unread s"
    and "r = Inr (Got l) \<Longrightarrow> unread s' < unread s"
    and "r = Inr TooLong \<Longrightarrow> m < length (buf s')"
proof -
  obtain b evs where f: "fill_line (deadline E s) m (buf s) (inp s) = (r, b, evs)"
    and s': "s' = s\<lparr>buf := b, inp := evs\<rparr>"
    using assms by (auto simp: next_line_def split: prod.splits)
  note z = fill_line_size [OF f]
  show "unread s' \<le> unread s" using z by (simp add: unread_def s')
  show "r = Inr (Got l) \<Longrightarrow> unread s' < unread s"
    using z by (cases l) (auto simp: unread_def s')
  show "r = Inr TooLong \<Longrightarrow> m < length (buf s')" using z by (simp add: s')
qed

definition refuse_data :: "('h, 'k) env \<Rightarrow> nat \<Rightarrow> bytes \<Rightarrow> 'h session \<Rightarrow> (flow, 'h) io" where
  "refuse_data E code text s =
     (case send E (Reply_new code text) s of
        None \<Rightarrow> None
      | Some (Inr _, s1) \<Rightarrow> ok Continue s1
      | Some (Inl e, s1) \<Rightarrow> if \<not> is_hangup e then Some (Inl e, s1) else ok Close s1)"

definition conclude :: "('h, 'k) env \<Rightarrow> upstream_verdict + bytes \<Rightarrow> 'h session \<Rightarrow> (flow, 'h) io" where
  "conclude E outcome s =
     (let s0 = s\<lparr>st := WantMail\<rparr>
      in case outcome of
           Inr message \<Rightarrow>
             (case send E (Reply_new 250 (''OK: '' @ message)) s0 of
                None \<Rightarrow> None
              | Some (Inr _, s1) \<Rightarrow> ok Continue s1
              | Some (Inl e, s1) \<Rightarrow> if \<not> is_hangup e then Some (Inl e, s1) else ok Close s1)
         | Inl (Replied code text) \<Rightarrow> refuse_data E code text s0
         | Inl Dropped \<Rightarrow> ok Close s0)"

function discard_to_terminator :: "('h, 'k) env \<Rightarrow> bool \<Rightarrow> 'h session \<Rightarrow> (error_kind + flow) \<times> 'h session" where
  "discard_to_terminator E start s =
     (case next_line E MAX_COMMAND_BUFFER s of
        (Inl e, s1) \<Rightarrow> (Inl e, s1)
      | (Inr (Got l), s1) \<Rightarrow>
          if start \<and> is_terminator l then (Inr Continue, s1) else discard_to_terminator E True s1
      | (Inr TooLong, s1) \<Rightarrow> discard_to_terminator E False (s1\<lparr>buf := []\<rparr>)
      | (Inr Eof, s1) \<Rightarrow> (Inr Close, s1))"
  by pat_completeness auto

lemma unread_clear: "next_line E m s = (Inr TooLong, s') \<Longrightarrow> unread (s'\<lparr>buf := []\<rparr>) < unread s"
  using next_line_unread(1,3) [of E m s "Inr TooLong" s'] by (auto simp: unread_def)

termination discard_to_terminator
  by (relation "measure (\<lambda>(_, _, s). unread s)")
     (auto dest!: sym [of _ "next_line _ _ _"] intro: next_line_unread(2) unread_clear)

declare discard_to_terminator.simps [simp del]

definition refuse_large_headers :: "('h, 'k) env \<Rightarrow> bool \<Rightarrow> 'h session \<Rightarrow> (flow, 'h) io" where
  "refuse_large_headers E start s =
     (case discard_to_terminator E start s of
        (Inl e, s1) \<Rightarrow> Some (Inl e, s1)
      | (Inr f, s1) \<Rightarrow>
          if f = Close then ok Close s1
          else refuse_data E 552
                 (''Header block exceeds maximum size of '' @ show_nat (cfg_max_header_size (cfg E)) @ '' bytes'')
                 (start_transaction E (s1\<lparr>st := WantMail\<rparr>)))"

definition mirror :: "('h, 'k) env \<Rightarrow> upstream_verdict \<Rightarrow> bool \<Rightarrow> 'h session \<Rightarrow> (flow, 'h) io" where
  "mirror E verdict start s =
     (case verdict of
        Dropped \<Rightarrow> conclude E (Inl Dropped) s
      | Replied code text \<Rightarrow>
          and_then (refuse_data E code text (s\<lparr>st := WantMail\<rparr>))
            (\<lambda>f s1.
               if f = Close then ok Close s1
               else (case discard_to_terminator E start s1 of
                       (Inl e, s2) \<Rightarrow> Some (Inl e, s2)
                     | (Inr g, s2) \<Rightarrow> ok g (start_transaction E s2))))"

text \<open>
  The first loop of \<open>read_message\<close>. It ends with the header block and whether a body follows, or because
  the client left, or because the cap was crossed, with the collected lines thrown away: by a line
  with no end in sight (\<open>CapInLine\<close>, what is buffered goes too) or by a complete one (\<open>CapAtLine\<close>).
\<close>

datatype header_end = Block bytes bool | HeaderEof | CapInLine | CapAtLine

function header_loop ::
  "('h, 'k) env \<Rightarrow> header_collector \<Rightarrow> 'h session \<Rightarrow> (error_kind + header_end) \<times> 'h session" where
  "header_loop E collector s =
     (let budget = (case remaining_capacity collector of
                      None \<Rightarrow> MAX_COMMAND_BUFFER | Some left \<Rightarrow> left + TERMINATOR_SLACK)
      in case next_line E budget s of
           (Inl e, s1) \<Rightarrow> (Inl e, s1)
         | (Inr Eof, s1) \<Rightarrow> (Inr HeaderEof, s1)
         | (Inr TooLong, s1) \<Rightarrow> (Inr CapInLine, s1\<lparr>buf := []\<rparr>)
         | (Inr (Got l), s1) \<Rightarrow>
             (case push_line l collector of
                (None, collector') \<Rightarrow> header_loop E collector' s1
              | (Some (Complete h), _) \<Rightarrow> (Inr (Block h True), s1)
              | (Some Terminator, collector') \<Rightarrow>
                  (Inr (Block (case fst (take_pending collector') of Some h \<Rightarrow> h | None \<Rightarrow> []) False), s1)
              | (Some header_event.TooLarge, _) \<Rightarrow> (Inr CapAtLine, s1)))"
  by pat_completeness auto
termination
  by (relation "measure (\<lambda>(_, _, s). unread s)")
     (auto dest!: sym [of _ "next_line _ _ _"] intro: next_line_unread(2))

declare header_loop.simps [simp del]

text \<open>
  The second loop: body lines, and parts of lines that outgrew the buffer, go through the framer to the
  sink. It ends at the terminator, with the client gone, or with the upstream's verdict and whether the
  next byte begins a line (the session's own \<open>at_line_start\<close>).
\<close>

datatype 'k body_end = BodyDone body_framer 'k | BodyEof | BodyVerdict upstream_verdict bool

function body_loop ::
  "('h, 'k) env \<Rightarrow> body_framer \<Rightarrow> 'k \<Rightarrow> 'h session \<Rightarrow> (error_kind + 'k body_end) \<times> 'h session" where
  "body_loop E framer sink s =
     (case next_line E WRITE_CHUNK s of
        (Inl e, s1) \<Rightarrow> (Inl e, s1)
      | (Inr Eof, s1) \<Rightarrow> (Inr BodyEof, s1)
      | (Inr (Got l), s1) \<Rightarrow>
          (case push l framer of
             (Pending, f) \<Rightarrow> body_loop E f sink s1
           | (BodyTerminator, f) \<Rightarrow> (Inr (BodyDone f sink), s1)
           | (Chunk c, f) \<Rightarrow>
               (case k_write (ops E) c sink of
                  (Inr _, sink') \<Rightarrow> body_loop E f sink' (emit (WriteCall c True) s1)
                | (Inl v, _) \<Rightarrow> (Inr (BodyVerdict v True), emit (WriteCall c False) s1)))
      | (Inr TooLong, s1) \<Rightarrow>
          (case push_partial (buf s1) framer of
             (Pending, f) \<Rightarrow> body_loop E f sink (s1\<lparr>buf := []\<rparr>)
           | (BodyTerminator, f) \<Rightarrow> (Inr (BodyDone f sink), s1\<lparr>buf := []\<rparr>)
           | (Chunk c, f) \<Rightarrow>
               (case k_write (ops E) c sink of
                  (Inr _, sink') \<Rightarrow> body_loop E f sink' (emit (WriteCall c True) (s1\<lparr>buf := []\<rparr>))
                | (Inl v, _) \<Rightarrow> (Inr (BodyVerdict v False), emit (WriteCall c False) (s1\<lparr>buf := []\<rparr>)))))"
  by pat_completeness auto

lemma unread_emit [simp]: "unread (emit e s) = unread s"
  by (simp add: unread_def emit_def)

termination body_loop
  by (relation "measure (\<lambda>(_, _, _, s). unread s)")
     (auto dest!: sym [of _ "next_line _ _ _"] intro: next_line_unread(2) unread_clear)

declare body_loop.simps [simp del]

text \<open>A sink that is not finished is dropped when \<open>read_message\<close> returns.\<close>

definition drop_sink :: "(flow, 'h) io \<Rightarrow> (flow, 'h) io" where
  "drop_sink m = map_option (\<lambda>(r, s). (r, emit SinkDropped s)) m"

definition finish_sink :: "('h, 'k) env \<Rightarrow> 'k \<Rightarrow> 'h session \<Rightarrow> (flow, 'h) io" where
  "finish_sink E sink s =
     (let outcome = fst (k_finish (ops E) sink) in conclude E outcome (emit (Finished outcome) s))"

text \<open>The end of \<open>read_message\<close>, behind the terminator: what is staged, then the upstream's last word.\<close>

definition finish_body :: "('h, 'k) env \<Rightarrow> body_framer \<Rightarrow> 'k \<Rightarrow> 'h session \<Rightarrow> (flow, 'h) io" where
  "finish_body E framer sink s =
     (let rest = fst (flush framer)
      in if rest = [] then finish_sink E sink s
         else (case k_write_final (ops E) rest sink of
                 (Inl v, _) \<Rightarrow> drop_sink (conclude E (Inl v) (emit (WriteCall rest False) s))
               | (Inr _, sink') \<Rightarrow> finish_sink E sink' (emit (WriteCall rest True) s)))"

definition read_body :: "('h, 'k) env \<Rightarrow> 'k \<Rightarrow> 'h session \<Rightarrow> (flow, 'h) io" where
  "read_body E sink s =
     (case body_loop E framer_new sink s of
        (Inl e, s1) \<Rightarrow> drop_sink (Some (Inl e, s1))
      | (Inr BodyEof, s1) \<Rightarrow> drop_sink (ok Close s1)
      | (Inr (BodyVerdict v start), s1) \<Rightarrow> drop_sink (mirror E v start s1)
      | (Inr (BodyDone framer sink'), s1) \<Rightarrow> finish_body E framer sink' s1)"

definition open_message :: "('h, 'k) env \<Rightarrow> bytes \<Rightarrow> bool \<Rightarrow> 'h session \<Rightarrow> (flow, 'h) io" where
  "open_message E hs body_follows s =
     (case h_open_body (ops E) hs (handler s) of
        None \<Rightarrow> None
      | Some (Inl rej, h) \<Rightarrow>
          (let s2 = emit (OpenCall hs False) (s\<lparr>handler := h\<rparr>);
               refuse = (\<lambda>s3. refuse_data E (rej_code rej) (rej_text rej) (s3\<lparr>st := WantMail\<rparr>))
           in if body_follows
              then (case discard_to_terminator E True s2 of
                      (Inl e, s3) \<Rightarrow> Some (Inl e, s3)
                    | (Inr f, s3) \<Rightarrow> if f = Close then ok Close s3 else refuse s3)
              else refuse s2)
      | Some (Inr sink, h) \<Rightarrow>
          (let s2 = emit (OpenCall hs True) (s\<lparr>handler := h\<rparr>)
           in if \<not> body_follows then finish_sink E sink s2 else read_body E sink s2))"

definition read_message :: "('h, 'k) env \<Rightarrow> 'h session \<Rightarrow> (flow, 'h) io" where
  "read_message E s =
     and_then (send E (Reply_new 354 ''End data with <CR><LF>.<CR><LF>'') s)
       (\<lambda>_ s1.
          case header_loop E (collector_new (cfg_max_header_size (cfg E))) s1 of
            (Inl e, s2) \<Rightarrow> Some (Inl e, s2)
          | (Inr HeaderEof, s2) \<Rightarrow> ok Close s2
          | (Inr CapInLine, s2) \<Rightarrow> refuse_large_headers E False s2
          | (Inr CapAtLine, s2) \<Rightarrow> refuse_large_headers E True s2
          | (Inr (Block hs body_follows), s2) \<Rightarrow> open_message E hs body_follows s2)"

definition want_data :: "('h, 'k) env \<Rightarrow> command \<Rightarrow> 'h session \<Rightarrow> (flow, 'h) io" where
  "want_data E command s =
     (case command of
        Rcpt _ _ \<Rightarrow> want_rcpt E command s
      | Data \<Rightarrow> read_message E s
      | _ \<Rightarrow> bad_sequence E s)"


section \<open>The command loop\<close>

definition dispatch :: "('h, 'k) env \<Rightarrow> command \<Rightarrow> 'h session \<Rightarrow> (flow, 'h) io" where
  "dispatch E command s =
     (case command of
        Quit \<Rightarrow>
          and_then (send E (Reply_new 221 (service_name (cfg E) @ '' closing transmission channel'')) s)
            (\<lambda>_ s1. ok FlowQuit (emit Shutdown s1))
      | Noop \<Rightarrow> send_continue E (Reply_new 250 ''OK'') s
      | Vrfy _ \<Rightarrow> send_continue E (Reply_new 553 ''Unimplemented'') s
      | Ehlo _ \<Rightarrow> and_then (greeting E True s) (\<lambda>_. ok Continue)
      | Helo _ \<Rightarrow> and_then (greeting E False s) (\<lambda>_. ok Continue)
      | Rset \<Rightarrow>
          (let s1 = start_transaction E s;
               s2 = (if st s1 > WantMail then s1\<lparr>st := WantMail\<rparr> else s1)
           in send_continue E (Reply_new 250 ''OK'') s2)
      | other \<Rightarrow>
          (case st s of
             WantGreeting \<Rightarrow> bad_sequence E s
           | WantStartTls \<Rightarrow> want_starttls E other s
           | WantAuth \<Rightarrow> want_auth E other s
           | WantMail \<Rightarrow> want_mail E other s
           | WantRcpt \<Rightarrow> want_rcpt E other s
           | WantData \<Rightarrow> want_data E other s))"

definition io_failure :: "error_kind \<Rightarrow> end_reason" where
  "io_failure e = (if e = Never then EndNever else EndIo e)"

definition io_end :: "error_kind \<Rightarrow> end_reason" where
  "io_end e = (if e = TimedOut then EndTimeout else io_failure e)"

text \<open>
  One turn of the loop of \<open>serve\<close>: \<open>Inl\<close> when the session ends, \<open>Inr ()\<close> when the loop goes on, \<^const>\<open>None\<close>
  for a panic.
\<close>

definition serve_line :: "('h, 'k) env \<Rightarrow> bytes \<Rightarrow> 'h session \<Rightarrow> ((end_reason + unit) \<times> 'h session) option" where
  "serve_line E l s =
     (let text = trim_line_end (from_utf8_lossy l);
          s1 = log_lines E (\<lambda>cred. log_received cred text) s
      in case parse_command l of
           None \<Rightarrow> None
         | Some (Inl e) \<Rightarrow>
             (case send E (Reply_new (err_code e) (err_text e)) s1 of
                None \<Rightarrow> None
              | Some (Inl io, s2) \<Rightarrow> Some (Inl (io_failure io), s2)
              | Some (Inr _, s2) \<Rightarrow> Some (Inr (), s2))
         | Some (Inr command) \<Rightarrow>
             (case dispatch E command s1 of
                None \<Rightarrow> None
              | Some (Inl io, s2) \<Rightarrow> Some (Inl (io_end io), s2)
              | Some (Inr Continue, s2) \<Rightarrow> Some (Inr (), s2)
              | Some (Inr FlowQuit, s2) \<Rightarrow> Some (Inl EndQuit, s2)
              | Some (Inr FlowTlsFailed, s2) \<Rightarrow> Some (Inl EndTlsFailed, s2)
              | Some (Inr Close, s2) \<Rightarrow> Some (Inl EndClosed, s2)
              | Some (Inr Stuck, s2) \<Rightarrow> Some (Inl EndNever, s2)))"

text \<open>A last reply, behind which the session ends.\<close>

definition last_words :: "end_reason \<Rightarrow> (unit, 'h) io \<Rightarrow> ((end_reason + unit) \<times> 'h session) option" where
  "last_words r m =
     (case m of
        None \<Rightarrow> None
      | Some (Inl e, s) \<Rightarrow> Some (Inl (io_failure e), s)
      | Some (Inr _, s) \<Rightarrow> Some (Inl r, s))"

definition serve_turn :: "('h, 'k) env \<Rightarrow> 'h session \<Rightarrow> ((end_reason + unit) \<times> 'h session) option" where
  "serve_turn E s =
     (case next_command_line E s of
        (Inl e, s1) \<Rightarrow> Some (Inl (io_end e), s1)
      | (Inr None, s1) \<Rightarrow> last_words EndDrained (drained E s1)
      | (Inr (Some Eof), s1) \<Rightarrow> Some (Inl EndEof, s1)
      | (Inr (Some TooLong), s1) \<Rightarrow> last_words EndClosed (refuse_long_line E s1)
      | (Inr (Some (Got l)), s1) \<Rightarrow> serve_line E l (s1\<lparr>first_command_seen := True\<rparr>))"

text \<open>
  \<open>serve\<close> with fuel for its loop: \<open>Some (None, _)\<close> when that is used up. A turn of the loop takes a line from
  what the client sends, so \<open>remaining\<close> turns are enough (\<open>run_safe\<close> of the theory \<open>Session_Safety\<close>).
\<close>

fun serve_loop :: "nat \<Rightarrow> ('h, 'k) env \<Rightarrow> 'h session \<Rightarrow> (end_reason option \<times> 'h session) option" where
  "serve_loop 0 E s = Some (None, s)"
| "serve_loop (Suc n) E s =
     (case serve_turn E s of
        None \<Rightarrow> None
      | Some (Inl e, s1) \<Rightarrow> Some (Some e, s1)
      | Some (Inr _, s1) \<Rightarrow> serve_loop n E s1)"

definition serve :: "nat \<Rightarrow> ('h, 'k) env \<Rightarrow> 'h session \<Rightarrow> (end_reason option \<times> 'h session) option" where
  "serve n E s =
     (case send E (Reply_new 220 (service_name (cfg E) @ '' SMTP service ready'')) s of
        None \<Rightarrow> None
      | Some (Inl e, s1) \<Rightarrow> Some (Some (io_failure e), s1)
      | Some (Inr _, s1) \<Rightarrow> serve_loop n E s1)"

text \<open>What a client may still send, behind a handshake included.\<close>

definition remaining :: "'h session \<Rightarrow> nat" where
  "remaining s = unread s + (case after_tls s of HandshakeOk evs \<Rightarrow> events_size evs | _ \<Rightarrow> 0)"

definition new_session ::
  "read_event list \<Rightarrow> tls_outcome \<Rightarrow> error_kind option list \<Rightarrow> bool list \<Rightarrow> 'h \<Rightarrow> 'h session" where
  "new_session reads tls ws drains h =
     \<lparr>inp = reads, after_tls = tls, writes = ws, drain_script = drains, buf = [], st = WantGreeting,
      tls_active = False, handler = h, first_command_seen = False, recipients = 0, wire_log = [],
      trace = []\<rparr>"

text \<open>\<open>run\<close>: a session from its start; how it ended is only logged.\<close>

definition run ::
  "('h, 'k) env \<Rightarrow> read_event list \<Rightarrow> tls_outcome \<Rightarrow> error_kind option list \<Rightarrow> bool list \<Rightarrow> 'h \<Rightarrow>
   (end_reason option \<times> 'h session) option" where
  "run E reads tls ws drains h =
     (let s = new_session reads tls ws drains h in serve (Suc (remaining s)) E s)"

end
