(* ===== verification/Body_Reading.thy ===== *)
theory Body_Reading
  imports Session
begin

text \<open>
  The loop that reads a body, as a big-step relation: one rule for each way a turn can go. A piece of the body is a
  complete line, or what is buffered of one that outgrew the budget; the framer makes of it nothing yet, a chunk
  to write, or the end. The loop of \<^const>\<open>body_loop\<close> is this relation, and its properties are proved by rule induction.
\<close>

inductive piece_read :: "('h, 'k) env \<Rightarrow> 'h session \<Rightarrow> body_op \<Rightarrow> 'h session \<Rightarrow> bool" for E where
  whole: "next_line E WRITE_CHUNK s = (Inr (Got l), s1) \<Longrightarrow> piece_read E s (Line l) s1"
| part: "next_line E WRITE_CHUNK s = (Inr TooLong, s1) \<Longrightarrow> piece_read E s (Partial (buf s1)) (s1\<lparr>buf := []\<rparr>)"

inductive body_run ::
  "('h, 'k) env \<Rightarrow> body_framer \<Rightarrow> 'k \<Rightarrow> 'h session \<Rightarrow> error_kind + 'k body_end \<Rightarrow> 'h session \<Rightarrow> bool" for E where
  failed: "next_line E WRITE_CHUNK s = (Inl e, s1) \<Longrightarrow> body_run E f k s (Inl e) s1"
| left: "next_line E WRITE_CHUNK s = (Inr Eof, s1) \<Longrightarrow> body_run E f k s (Inr BodyEof) s1"
| pending: "piece_read E s x s1 \<Longrightarrow> framer_op x f = (Pending, g) \<Longrightarrow> body_run E g k s1 r s' \<Longrightarrow> body_run E f k s r s'"
| ended: "piece_read E s x s1 \<Longrightarrow> framer_op x f = (BodyTerminator, g) \<Longrightarrow> body_run E f k s (Inr (BodyDone g k)) s1"
| written: "piece_read E s x s1 \<Longrightarrow> framer_op x f = (Chunk c, g) \<Longrightarrow> k_write (ops E) c k = (Inr u, k1) \<Longrightarrow>
    body_run E g k1 (emit (WriteCall c True) s1) r s' \<Longrightarrow> body_run E f k s r s'"
| refused: "piece_read E s x s1 \<Longrightarrow> framer_op x f = (Chunk c, g) \<Longrightarrow> k_write (ops E) c k = (Inl v, k1) \<Longrightarrow>
    body_run E f k s (Inr (BodyVerdict v (case x of Line _ \<Rightarrow> True | Partial _ \<Rightarrow> False))) (emit (WriteCall c False) s1)"

lemma body_run_piece:
  assumes "piece_read E s x s1"
    and "\<And>g. framer_op x f = (Pending, g) \<Longrightarrow> body_run E g k s1 (fst (body_loop E g k s1)) (snd (body_loop E g k s1))"
    and "\<And>c g u k1. framer_op x f = (Chunk c, g) \<Longrightarrow> k_write (ops E) c k = (Inr u, k1) \<Longrightarrow>
      body_run E g k1 (emit (WriteCall c True) s1) (fst (body_loop E g k1 (emit (WriteCall c True) s1)))
        (snd (body_loop E g k1 (emit (WriteCall c True) s1)))"
  shows "body_run E f k s (fst (body_loop E f k s)) (snd (body_loop E f k s))"
proof -
  obtain q g where q: "framer_op x f = (q, g)" by (cases "framer_op x f")
  have u: "body_loop E f k s =
      (case q of
         Pending \<Rightarrow> body_loop E g k s1
       | BodyTerminator \<Rightarrow> (Inr (BodyDone g k), s1)
       | Chunk c \<Rightarrow>
           (case k_write (ops E) c k of
              (Inr _, k1) \<Rightarrow> body_loop E g k1 (emit (WriteCall c True) s1)
            | (Inl v, _) \<Rightarrow> (Inr (BodyVerdict v (case x of Line _ \<Rightarrow> True | Partial _ \<Rightarrow> False)), emit (WriteCall c False) s1)))"
    using assms(1) q
    by (cases q) (auto simp: body_loop.simps [of E f k s] elim!: piece_read.cases split: prod.split sum.split)
  show ?thesis
  proof (cases q)
    case (Chunk c)
    obtain y k1 where "k_write (ops E) c k = (y, k1)" by (cases "k_write (ops E) c k")
    then show ?thesis using assms(1,3) q Chunk by (cases y) (simp_all add: u written refused)
  qed (use assms(1,2) q in \<open>simp_all add: u pending ended\<close>)
qed

lemma body_loop_run: "body_run E f k s (fst (body_loop E f k s)) (snd (body_loop E f k s))"
proof (induction "unread s" arbitrary: f k s rule: less_induct)
  case less
  obtain y s1 where n: "next_line E WRITE_CHUNK s = (y, s1)" by (cases "next_line E WRITE_CHUNK s")
  have read: "body_run E f k s (fst (body_loop E f k s)) (snd (body_loop E f k s))"
    if "piece_read E s x s2" "unread s2 < unread s" for x s2
    using that(2) by (intro body_run_piece [OF that(1)] less) simp_all
  show ?case
  proof (cases y)
    case (Inl e)
    then show ?thesis using n failed [of E s e s1] by (simp add: body_loop.simps [of E f k s])
  next
    case (Inr l)
    show ?thesis
    proof (cases l)
      case (Got b)
      with n Inr next_line_unread(2) [OF n] show ?thesis by (intro read [of "Line b" s1]) (simp_all add: whole)
    next
      case Eof
      with n Inr left [of E s s1] show ?thesis by (simp add: body_loop.simps [of E f k s])
    next
      case TooLong
      with n Inr unread_clear [of E WRITE_CHUNK s s1] show ?thesis by (intro read [of "Partial (buf s1)" "s1\<lparr>buf := []\<rparr>"]) (simp_all add: part)
    qed
  qed
qed

text \<open>Nothing is lost: a run of the relation is the run of the loop.\<close>

lemma body_run_loop: "body_run E f k s r s' \<Longrightarrow> body_loop E f k s = (r, s')"
  by (induction rule: body_run.induct)
     (auto simp: body_loop.simps elim!: piece_read.cases)

lemma body_loop_iff: "body_loop E f k s = (r, s') \<longleftrightarrow> body_run E f k s r s'"
  using body_run_loop body_loop_run [of E f k s] by force

end
