(* ===== verification/Session_Safety.thy ===== *)
theory Session_Safety
  imports Body_Reading
begin

text \<open>
  What holds in every run of a session, whatever the client sends and however the handler answers within
  its contract: an invariant of the session that every step keeps, stated over the trace.
  The lemmas are proved once, in the locale \<open>session_env\<close> that extends the handler's contract.
\<close>

section \<open>What a trace must satisfy\<close>

text \<open>
  The transaction as the trace tells it: whether \<open>MAIL\<close> was accepted since the last reset, and how many
  recipients were.
\<close>

fun tx_step :: "bool \<times> nat \<Rightarrow> event \<Rightarrow> bool \<times> nat" where
  "tx_step (m, n) ResetCall = (False, 0)"
| "tx_step (m, n) (MailCall _ accepted) = (accepted, n)"
| "tx_step (m, n) (RcptCall _ accepted) = (m, if accepted then Suc n else n)"
| "tx_step (m, n) _ = (m, n)"

definition tx :: "event list \<Rightarrow> bool \<times> nat" where
  "tx tr = foldl tx_step (False, 0) tr"

definition secured :: "server_config \<Rightarrow> event list \<Rightarrow> bool" where
  "secured c pre \<longleftrightarrow> (require_starttls c \<longrightarrow> TlsUp \<in> set pre)"

definition authorised :: "server_config \<Rightarrow> event list \<Rightarrow> bool" where
  "authorised c pre \<longleftrightarrow> (require_auth c \<longrightarrow> AuthCall True \<in> set pre)"

text \<open>
  When an event may follow the events before it. From the position \<open>d\<close> on, if there is one, a 250 may only
  hand on what the upstream answered to the end of the message.
\<close>

fun step_ok :: "server_config \<Rightarrow> nat option \<Rightarrow> event list \<Rightarrow> event \<Rightarrow> bool" where
  "step_ok c d pre (AuthCall _) \<longleftrightarrow> secured c pre"
| "step_ok c d pre (MailCall _ _) \<longleftrightarrow> secured c pre \<and> authorised c pre"
| "step_ok c d pre (RcptCall _ _) \<longleftrightarrow> secured c pre \<and> authorised c pre \<and> fst (tx pre) \<and>
     (max_recipients c > 0 \<longrightarrow> snd (tx pre) < max_recipients c)"
| "step_ok c d pre (OpenCall _ _) \<longleftrightarrow> secured c pre \<and> authorised c pre \<and> fst (tx pre) \<and> 0 < snd (tx pre)"
| "step_ok c d pre (Sent r) \<longleftrightarrow>
     (case d of None \<Rightarrow> True | Some k \<Rightarrow>
        k \<le> length pre \<and> reply_code r = 250 \<longrightarrow>
        (\<exists>m. pre \<noteq> [] \<and> last pre = Finished (Inr m) \<and> r = Reply_new 250 (''OK: '' @ m)))"
| "step_ok c d pre _ \<longleftrightarrow> True"

definition trace_ok :: "server_config \<Rightarrow> nat option \<Rightarrow> event list \<Rightarrow> bool" where
  "trace_ok c d tr \<longleftrightarrow> (\<forall>i < length tr. step_ok c d (take i tr) (tr ! i))"

lemma trace_ok_Nil [simp]: "trace_ok c d []"
  by (simp add: trace_ok_def)

lemma trace_ok_snoc [simp]: "trace_ok c d (tr @ [e]) \<longleftrightarrow> trace_ok c d tr \<and> step_ok c d tr e"
  by (auto simp: trace_ok_def nth_append less_Suc_eq)

lemma trace_ok_snoc2 [simp]:
  "trace_ok c d (tr @ [e, e']) \<longleftrightarrow> trace_ok c d tr \<and> step_ok c d tr e \<and> step_ok c d (tr @ [e]) e'"
  using trace_ok_snoc [of c d "tr @ [e]" e'] by simp

lemma tx_simps [simp]: "tx [] = (False, 0)" "tx (tr @ es) = foldl tx_step (tx tr) es"
  by (simp_all add: tx_def)

lemma tx_step_Sent [simp]: "tx_step p (Sent r) = p" "tx_step p (SendFailed r) = p"
  "tx_step p Shutdown = p" "tx_step p TlsUp = p" "tx_step p (AuthCall b) = p" "tx_step p ResetCall = (False, 0)"
  "tx_step p (OpenCall hs b) = p" "tx_step p (WriteCall c b) = p" "tx_step p (Finished x) = p"
  "tx_step p SinkDropped = p" "tx_step p (MailCall a b) = (b, snd p)"
  "tx_step p (RcptCall a b) = (fst p, if b then Suc (snd p) else snd p)"
  by (cases p; simp)+


section \<open>Results\<close>

text \<open>A step that does not panic and ends, with or without an error, in a state with \<open>P\<close>.\<close>

definition safe :: "('h session \<Rightarrow> bool) \<Rightarrow> ('r \<times> 'h session) option \<Rightarrow> bool" where
  "safe P m \<longleftrightarrow> (\<exists>r s. m = Some (r, s) \<and> P s)"

lemma safe_simps [simp]: "safe P (Some (r, s)) \<longleftrightarrow> P s" "safe P (ok a s) \<longleftrightarrow> P s" "\<not> safe P None"
  by (auto simp: safe_def ok_def)

text \<open>A reply goes out or fails; either way only the log, the write outcomes and the trace change.\<close>

abbreviation after_send :: "log_entry list \<Rightarrow> error_kind option list \<Rightarrow> event \<Rightarrow> 'h session \<Rightarrow> 'h session" where
  "after_send l w e s \<equiv> s\<lparr>wire_log := l, writes := w, trace := trace s @ [e]\<rparr>"

lemma send_cases:
  assumes "wire r \<noteq> None"
  obtains (sent) l w where "send E r s = Some (Inr (), after_send l w (Sent r) s)"
  | (failed) l w e where "send E r s = Some (Inl e, after_send l w (SendFailed r) s)"
proof -
  obtain x where x: "wire r = Some x" using assms by auto
  define s1 where "s1 = log_lines E (\<lambda>_. log_sent x) s"
  have s1: "s1 = s\<lparr>wire_log := wire_log s1\<rparr>"
    by (simp add: s1_def log_lines_def split: option.split)
  have up: "emit e (s1\<lparr>writes := w\<rparr>) = after_send (wire_log s1) w e s" for e w
    by (subst s1) (simp add: emit_def)
  show thesis
  proof (cases "writes s1")
    case Nil
    then have "send E r s = Some (Inr (), after_send (wire_log s1) [] (Sent r) s)"
      using x up by (simp add: send_def Let_def s1_def [symmetric])
    then show ?thesis by (rule sent)
  next
    case (Cons y ws)
    show ?thesis
    proof (cases y)
      case None
      then have "send E r s = Some (Inr (), after_send (wire_log s1) ws (Sent r) s)"
        using x up Cons by (simp add: send_def Let_def s1_def [symmetric])
      then show ?thesis by (rule sent)
    next
      case (Some e)
      then have "send E r s = Some (Inl e, after_send (wire_log s1) ws (SendFailed r) s)"
        using x up Cons by (simp add: send_def Let_def s1_def [symmetric])
      then show ?thesis by (rule failed)
    qed
  qed
qed

lemma safe_send_then:
  assumes "wire r \<noteq> None"
    and "\<And>l w. P (after_send l w (SendFailed r) s)"
    and "\<And>l w. safe P (k () (after_send l w (Sent r) s))"
  shows "safe P (and_then (send E r s) k)"
  by (rule send_cases [OF assms(1), of E s]) (use assms(2,3) in \<open>auto simp: and_then_def\<close>)

lemma safe_send:
  assumes "wire r \<noteq> None"
    and "\<And>l w. P (after_send l w (SendFailed r) s)" and "\<And>l w. P (after_send l w (Sent r) s)"
  shows "safe P (send E r s)"
  by (rule send_cases [OF assms(1), of E s]) (use assms(2,3) in auto)

lemma safe_and_then:
  assumes "safe P m" and "\<And>a s. P s \<Longrightarrow> m = Some (Inr a, s) \<Longrightarrow> safe P (k a s)"
  shows "safe P (and_then m k)"
  using assms by (auto simp: safe_def and_then_def split: sum.splits)


section \<open>The invariant\<close>

text \<open>The most a session holds of what the client sent: the largest budget of a line, and one read.\<close>

definition buffer_bound :: "server_config \<Rightarrow> nat" where
  "buffer_bound c =
     max (max MAX_COMMAND_BUFFER WRITE_CHUNK) (cfg_max_header_size c + TERMINATOR_SLACK) + READ_CHUNK"

definition sinv :: "('h, 'k) env \<Rightarrow> ('h \<Rightarrow> bool) \<Rightarrow> nat option \<Rightarrow> nat \<Rightarrow> 'h session \<Rightarrow> bool" where
  "sinv E hinv d n s \<longleftrightarrow>
     trace_ok (cfg E) d (trace s) \<and> remaining s \<le> n \<and> length (buf s) \<le> buffer_bound (cfg E) \<and>
     hinv (handler s) \<and>
     (tls_active s \<longrightarrow> TlsUp \<in> set (trace s)) \<and>
     (WantAuth \<le> st s \<longrightarrow> secured (cfg E) (trace s)) \<and>
     (WantMail \<le> st s \<longrightarrow> authorised (cfg E) (trace s)) \<and>
     snd (tx (trace s)) = recipients s \<and>
     (max_recipients (cfg E) > 0 \<longrightarrow> recipients s \<le> max_recipients (cfg E)) \<and>
     (WantRcpt \<le> st s \<longrightarrow> fst (tx (trace s))) \<and>
     (st s = WantData \<longrightarrow> 0 < recipients s)"

lemma state_order [simp]:
  "WantAuth \<le> WantGreeting \<longleftrightarrow> False" "WantAuth \<le> WantStartTls \<longleftrightarrow> False" "WantAuth \<le> WantAuth"
  "WantAuth \<le> WantMail" "WantAuth \<le> WantRcpt" "WantAuth \<le> WantData"
  "WantMail \<le> WantGreeting \<longleftrightarrow> False" "WantMail \<le> WantStartTls \<longleftrightarrow> False" "WantMail \<le> WantAuth \<longleftrightarrow> False"
  "WantMail \<le> WantMail" "WantMail \<le> WantRcpt" "WantMail \<le> WantData"
  "WantRcpt \<le> WantGreeting \<longleftrightarrow> False" "WantRcpt \<le> WantStartTls \<longleftrightarrow> False" "WantRcpt \<le> WantAuth \<longleftrightarrow> False"
  "WantRcpt \<le> WantMail \<longleftrightarrow> False" "WantRcpt \<le> WantRcpt" "WantRcpt \<le> WantData"
  by (simp_all add: less_eq_state_def)

lemma state_chain: "WantMail \<le> x \<Longrightarrow> WantAuth \<le> x" "WantRcpt \<le> x \<Longrightarrow> WantMail \<le> x" "x > WantMail \<Longrightarrow> WantMail \<le> x"
  by (cases x; simp add: less_eq_state_def less_state_def)+

lemma secured_append [simp]: "secured c pre \<Longrightarrow> secured c (pre @ es)"
  by (auto simp: secured_def)

lemma authorised_append [simp]: "authorised c pre \<Longrightarrow> authorised c (pre @ es)"
  by (simp add: authorised_def)

lemma remaining_after_send [simp]:
  "remaining (s\<lparr>wire_log := l, writes := w, trace := t\<rparr>) = remaining s"
  "remaining (s\<lparr>st := x\<rparr>) = remaining s" "remaining (s\<lparr>handler := h\<rparr>) = remaining s"
  "remaining (s\<lparr>recipients := m\<rparr>) = remaining s" "remaining (s\<lparr>wire_log := l\<rparr>) = remaining s"
  "remaining (s\<lparr>writes := w\<rparr>) = remaining s"
  "remaining (s\<lparr>drain_script := ds\<rparr>) = remaining s" "remaining (s\<lparr>trace := t\<rparr>) = remaining s"
  "remaining (s\<lparr>first_command_seen := b\<rparr>) = remaining s" "remaining (s\<lparr>tls_active := b\<rparr>) = remaining s"
  by (simp_all add: remaining_def unread_def)

text \<open>Events that change neither the transaction nor the state keep the invariant.\<close>

definition neutral :: "event \<Rightarrow> bool" where
  "neutral e \<longleftrightarrow> (\<forall>p. tx_step p e = p)"

lemma neutral_simps [simp]:
  "neutral (Sent r)" "neutral (SendFailed r)" "neutral Shutdown" "neutral TlsUp" "neutral (AuthCall b)"
  "neutral (OpenCall hs b)" "neutral (WriteCall c b)" "neutral (Finished x)" "neutral SinkDropped"
  by (simp_all add: neutral_def)

lemma emit_frame [simp]: "st (emit e s) = st s" "trace (emit e s) = trace s @ [e]" "handler (emit e s) = handler s"
  by (simp_all add: emit_def)

lemma neutralD: "neutral e \<Longrightarrow> tx_step p e = p"
  unfolding neutral_def by blast

lemma sinv_after_send:
  "sinv E hinv d n s \<Longrightarrow> neutral e \<Longrightarrow> step_ok (cfg E) d (trace s) e \<Longrightarrow> sinv E hinv d n (after_send l w e s)"
  by (simp add: sinv_def neutralD)

lemma sinv_emit:
  "sinv E hinv d n s \<Longrightarrow> neutral e \<Longrightarrow> step_ok (cfg E) d (trace s) e \<Longrightarrow> sinv E hinv d n (emit e s)"
  by (simp add: sinv_def neutralD emit_def)

lemma sinv_log_lines [simp]: "sinv E hinv d n (log_lines E f s) = sinv E hinv d n s"
  by (simp add: sinv_def log_lines_def split: option.split)

lemma sinv_first_command_seen [simp]: "sinv E hinv d n (s\<lparr>first_command_seen := b\<rparr>) = sinv E hinv d n s"
  by (simp add: sinv_def)

lemma sinv_drain_script [simp]: "sinv E hinv d n (s\<lparr>drain_script := ds\<rparr>) = sinv E hinv d n s"
  by (simp add: sinv_def)

lemma sinv_handler: "sinv E hinv d n s \<Longrightarrow> hinv h \<Longrightarrow> sinv E hinv d n (s\<lparr>handler := h\<rparr>)"
  by (simp add: sinv_def)

lemma sinv_WantMail: "sinv E hinv d n s \<Longrightarrow> WantMail \<le> st s \<Longrightarrow> sinv E hinv d n (s\<lparr>st := WantMail\<rparr>)"
  using state_chain by (auto simp: sinv_def)

lemma sinv_clear: "sinv E hinv d n s \<Longrightarrow> sinv E hinv d n (s\<lparr>buf := []\<rparr>)"
  by (auto simp: sinv_def remaining_def unread_def)

lemma sinv_mono: "sinv E hinv d n s \<Longrightarrow> n \<le> m \<Longrightarrow> sinv E hinv d m s"
  by (auto simp: sinv_def)


subsection \<open>Reading\<close>

lemma read_chunk_length: "read_chunk dl evs = (Inr bs, evs') \<Longrightarrow> length bs \<le> READ_CHUNK"
  by (cases "(dl, evs)" rule: read_chunk.cases) (auto split: if_splits)

lemma fill_line_buffer:
  "fill_line dl m b evs = (r, b', evs') \<Longrightarrow> length b' \<le> max (length b) (m + READ_CHUNK)"
proof (induction dl m b evs rule: fill_line.induct)
  case (1 dl m b evs)
  show ?case
  proof (cases "take_line b")
    case (Some p)
    then obtain l rest where p: "take_line b = Some (l, rest)" by (cases p) auto
    with "1.prems" have "b' = rest" by (auto simp: fill_line.simps [of dl m b])
    with take_line_length [OF p] show ?thesis by auto
  next
    case None
    show ?thesis
    proof (cases "m < length b \<or> (\<nexists>c evs1. read_chunk dl evs = (Inr c, evs1) \<and> c \<noteq> [])")
      case True
      then have "b' = b"
        using None "1.prems"
        by (auto simp: fill_line.simps [of dl m b] split: if_splits prod.splits sum.splits)
      then show ?thesis by simp
    next
      case False
      then obtain c evs1 where c: "read_chunk dl evs = (Inr c, evs1)" "c \<noteq> []" and m: "\<not> m < length b" by auto
      with None "1.prems" have f: "fill_line dl m (b @ c) evs1 = (r, b', evs')"
        by (simp add: fill_line.simps [of dl m b])
      have "length b' \<le> max (length (b @ c)) (m + READ_CHUNK)"
        using "1.IH" [OF None m c(1) [symmetric] refl c(2) f] .
      with read_chunk_length [OF c(1)] m show ?thesis by auto
    qed
  qed
qed

lemma next_line_frame:
  assumes "next_line E m s = (r, s')"
  obtains b evs where "s' = s\<lparr>buf := b, inp := evs\<rparr>" "length b \<le> max (length (buf s)) (m + READ_CHUNK)"
  using assms fill_line_buffer by (force simp: next_line_def split: prod.splits)

lemma next_line_remaining:
  assumes "next_line E m s = (r, s')"
  shows "remaining s' \<le> remaining s" and "r = Inr (Got l) \<Longrightarrow> remaining s' < remaining s"
proof -
  have "after_tls s' = after_tls s" using assms by (auto elim: next_line_frame)
  then show "remaining s' \<le> remaining s" and "r = Inr (Got l) \<Longrightarrow> remaining s' < remaining s"
    using next_line_unread [OF assms] by (simp_all add: remaining_def)
qed

lemma next_line_keeps:
  assumes "next_line E m s = (r, s')"
  shows "trace s' = trace s" "st s' = st s" "handler s' = handler s" "tls_active s' = tls_active s"
    "recipients s' = recipients s"
  using assms by (auto elim: next_line_frame)

lemma sinv_next_line:
  assumes "sinv E hinv d n s" "next_line E m s = (r, s')" "m + READ_CHUNK \<le> buffer_bound (cfg E)"
  shows "sinv E hinv d n s'"
proof -
  have "length (buf s') \<le> max (length (buf s)) (m + READ_CHUNK)"
    using assms(2) by (auto elim: next_line_frame)
  moreover have "length (buf s) \<le> buffer_bound (cfg E)" using assms(1) by (simp add: sinv_def)
  ultimately have "length (buf s') \<le> buffer_bound (cfg E)" using assms(3) by linarith
  moreover have "remaining s' \<le> n"
    using next_line_remaining(1) [OF assms(2)] assms(1) by (simp add: sinv_def)
  ultimately show ?thesis
    using assms(1) next_line_keeps [OF assms(2)] by (simp add: sinv_def)
qed

lemma command_budget: "MAX_COMMAND_BUFFER + READ_CHUNK \<le> buffer_bound c"
  by (simp add: buffer_bound_def)

lemma body_budget: "WRITE_CHUNK + READ_CHUNK \<le> buffer_bound c"
  by (simp add: buffer_bound_def)


subsection \<open>Replies that can be sent\<close>

text \<open>A reply with a sendable code, at least one line, and no 250 where that needs a reason.\<close>

definition plain_reply :: "reply \<Rightarrow> bool" where
  "plain_reply r \<longleftrightarrow> 200 \<le> reply_code r \<and> reply_code r \<le> 599 \<and> reply_code r \<noteq> 250 \<and> reply_lines r \<noteq> []"

lemma plain_Reply_new [simp]: "plain_reply (Reply_new c t) \<longleftrightarrow> 200 \<le> c \<and> c \<le> 599 \<and> c \<noteq> 250"
  by (auto simp: plain_reply_def Reply_new_def)

lemma plain_wire: "plain_reply r \<Longrightarrow> wire r \<noteq> None"
  using wire_iff [of r] by (simp add: plain_reply_def)

lemma plain_step_ok: "plain_reply r \<Longrightarrow> step_ok c d pre (Sent r)"
  by (simp add: plain_reply_def split: option.split)

lemma wire_250 [simp]: "wire (Reply_new 250 t) \<noteq> None" "ls \<noteq> [] \<Longrightarrow> wire (Reply_multi 250 ls) \<noteq> None"
  using wire_iff [of "Reply_new 250 t"] wire_iff [of "Reply_multi 250 ls"]
  by (simp_all add: Reply_new_def Reply_multi_def)

lemma step_ok_None [simp]: "step_ok c None pre (Sent r)"
  by simp

lemma safe_send_sinv:
  assumes "sinv E hinv d n s" "wire r \<noteq> None" "step_ok (cfg E) d (trace s) (Sent r)"
  shows "safe (sinv E hinv d n) (send E r s)"
  using assms by (intro safe_send sinv_after_send) simp_all

lemma safe_send_sinv_then:
  assumes "sinv E hinv d n s" "wire r \<noteq> None" "step_ok (cfg E) d (trace s) (Sent r)"
    and "\<And>l w. sinv E hinv d n (after_send l w (Sent r) s) \<Longrightarrow>
           safe (sinv E hinv d n) (k () (after_send l w (Sent r) s))"
  shows "safe (sinv E hinv d n) (and_then (send E r s) k)"
proof (rule safe_send_then [OF assms(2)])
  show "sinv E hinv d n (after_send l w (SendFailed r) s)" for l w
    using assms(1) by (rule sinv_after_send) simp_all
  show "safe (sinv E hinv d n) (k () (after_send l w (Sent r) s))" for l w
    using assms(4) sinv_after_send [OF assms(1) neutral_simps(1) assms(3)] by blast
qed

lemma safe_send_plain_then:
  assumes "sinv E hinv d n s" "plain_reply r"
    and "\<And>l w. sinv E hinv d n (after_send l w (Sent r) s) \<Longrightarrow>
           safe (sinv E hinv d n) (k () (after_send l w (Sent r) s))"
  shows "safe (sinv E hinv d n) (and_then (send E r s) k)"
  using assms plain_wire plain_step_ok by (intro safe_send_sinv_then) blast+

lemma safe_send_continue:
  assumes "sinv E hinv d n s" "plain_reply r"
  shows "safe (sinv E hinv d n) (send_continue E r s)"
  unfolding send_continue_def using assms by (intro safe_send_plain_then) simp_all

lemma safe_send_ignore:
  assumes "sinv E hinv d n s" "plain_reply r"
  shows "safe (sinv E hinv d n) (send_ignore E r s)"
  using safe_send_sinv [OF assms(1) plain_wire [OF assms(2)] plain_step_ok [OF assms(2)]]
  by (auto simp: send_ignore_def safe_def ok_def split: sum.splits)

lemma safe_bad_sequence: "sinv E hinv d n s \<Longrightarrow> safe (sinv E hinv d n) (bad_sequence E s)"
  unfolding bad_sequence_def by (intro safe_send_continue) simp_all

lemma safe_refuse_long_line:
  "sinv E hinv d n s \<Longrightarrow> safe (sinv E hinv d n) (refuse_long_line E s)"
  unfolding refuse_long_line_def by (intro safe_send_ignore) simp_all

lemma safe_drained:
  assumes "sinv E hinv d n s"
  shows "safe (sinv E hinv d n) (drained E s)"
proof -
  have "safe (sinv E hinv d n) (send_ignore E (Reply_new 421 (service_name (cfg E) @
      '' Service not available, closing transmission channel'')) s)" by (rule safe_send_ignore [OF assms]) simp
  then show ?thesis unfolding drained_def by (auto simp: safe_def and_then_def ok_def sinv_emit split: sum.splits)
qed

lemma safe_last_words: "safe P m \<Longrightarrow> \<exists>x s. last_words r m = Some (Inl x, s) \<and> P s"
  by (auto simp: safe_def last_words_def split: sum.splits)

lemma safe_auth_continuation:
  assumes "sinv E hinv d n s"
  shows "safe (sinv E hinv d n) (auth_continuation E s)"
proof -
  obtain r s1 where nl: "next_line E MAX_COMMAND_BUFFER s = (r, s1)"
    by (cases "next_line E MAX_COMMAND_BUFFER s")
  have s1: "sinv E hinv d n s1" using sinv_next_line [OF assms nl command_budget] .
  show ?thesis
  proof (cases r)
    case (Inl e)
    with nl s1 show ?thesis by (simp add: auth_continuation_def)
  next
    case (Inr x)
    show ?thesis
    proof (cases x)
      case (Got l)
      with nl Inr s1 show ?thesis
        by (auto simp: auth_continuation_def Let_def intro!: safe_send_plain_then)
    next
      case Eof
      with nl Inr s1 show ?thesis by (simp add: auth_continuation_def)
    next
      case TooLong
      with nl Inr safe_refuse_long_line [OF s1] show ?thesis
        by (auto simp: auth_continuation_def safe_def and_then_def ok_def split: sum.splits)
    qed
  qed
qed

lemma send_st: "send E r s = Some (x, s') \<Longrightarrow> st s' = st s"
  by (auto simp: send_def Let_def emit_def log_lines_def split: option.splits list.splits)

lemma auth_continuation_st: "auth_continuation E s = Some (Inr a, s') \<Longrightarrow> st s' = st s"
  by (auto simp: auth_continuation_def and_then_def ok_def Let_def refuse_long_line_def send_ignore_def
      log_lines_def split: prod.splits sum.splits line.splits if_splits option.splits
      dest!: next_line_keeps(2) send_st)

lemma safe_refuse_data:
  assumes "sinv E hinv d n s" "plain_reply (Reply_new c t)"
  shows "safe (sinv E hinv d n) (refuse_data E c t s)"
  using safe_send_sinv [OF assms(1) plain_wire [OF assms(2)] plain_step_ok [OF assms(2)]]
  by (auto simp: refuse_data_def safe_def split: sum.splits) (simp add: ok_def)+

lemma discard_keeps:
  assumes "sinv E hinv d n s" "discard_to_terminator E b s = (r, s')"
  shows "sinv E hinv d n s' \<and> st s' = st s \<and> trace s' = trace s"
  using assms
proof (induction E b s arbitrary: s' rule: discard_to_terminator.induct)
  case (1 E b s)
  obtain x s1 where nl: "next_line E MAX_COMMAND_BUFFER s = (x, s1)"
    by (cases "next_line E MAX_COMMAND_BUFFER s")
  have s1: "sinv E hinv d n s1" "st s1 = st s" "trace s1 = trace s"
    using sinv_next_line [OF "1.prems"(1) nl command_budget] next_line_keeps [OF nl] by simp_all
  show ?case
  proof (cases x)
    case (Inl e)
    with nl s1 "1.prems"(2) show ?thesis by (auto simp: discard_to_terminator.simps [of E b s])
  next
    case (Inr l)
    show ?thesis
    proof (cases l)
      case (Got t)
      show ?thesis
      proof (cases "b \<and> is_terminator t")
        case True
        with nl Inr Got have "discard_to_terminator E b s = (Inr Continue, s1)"
          by (subst discard_to_terminator.simps) simp
        with s1 "1.prems"(2) show ?thesis by simp
      next
        case False
        with nl "1.prems"(2) Inr Got have "discard_to_terminator E True s1 = (r, s')"
          by (simp add: discard_to_terminator.simps [of E b s])
        with "1.IH"(1) [OF nl [symmetric] Inr Got False s1(1)] s1 show ?thesis by simp
      qed
    next
      case Eof
      with nl s1 "1.prems"(2) Inr show ?thesis by (auto simp: discard_to_terminator.simps [of E b s])
    next
      case TooLong
      with nl "1.prems"(2) Inr have "discard_to_terminator E False (s1\<lparr>buf := []\<rparr>) = (r, s')"
        by (simp add: discard_to_terminator.simps [of E b s])
      with "1.IH"(2) [OF nl [symmetric] Inr TooLong sinv_clear [OF s1(1)]] s1 show ?thesis by simp
    qed
  qed
qed

lemma remaining_capacity_le:
  "collector_inv h \<Longrightarrow> remaining_capacity h = Some left \<Longrightarrow> left \<le> max_header_size h"
  by (auto simp: remaining_capacity_def split: if_splits)

lemma header_budget:
  assumes "collector_inv h" "max_header_size h = cfg_max_header_size c"
  shows "(case remaining_capacity h of None \<Rightarrow> MAX_COMMAND_BUFFER | Some left \<Rightarrow> left + TERMINATOR_SLACK)
           + READ_CHUNK \<le> buffer_bound c"
proof (cases "remaining_capacity h")
  case None
  then show ?thesis by (simp add: buffer_bound_def)
next
  case (Some left)
  with remaining_capacity_le [OF assms(1) Some] assms(2) show ?thesis by (simp add: buffer_bound_def)
qed

lemma push_line_max: "push_line l h = (x, h') \<Longrightarrow> max_header_size h' = max_header_size h"
  by (auto simp: push_line_def mark_too_large_def Let_def split: if_splits)

lemma header_loop_keeps:
  assumes "sinv E hinv d n s" "collector_inv h" "max_header_size h = cfg_max_header_size (cfg E)"
    and "header_loop E h s = (r, s')"
  shows "sinv E hinv d n s' \<and> st s' = st s \<and> trace s' = trace s"
  using assms
proof (induction E h s arbitrary: s' rule: header_loop.induct)
  case (1 E h s)
  let ?m = "case remaining_capacity h of None \<Rightarrow> MAX_COMMAND_BUFFER | Some left \<Rightarrow> left + TERMINATOR_SLACK"
  obtain x s1 where nl: "next_line E ?m s = (x, s1)" by (cases "next_line E ?m s")
  have s1: "sinv E hinv d n s1" "st s1 = st s" "trace s1 = trace s"
    using sinv_next_line [OF "1.prems"(1) nl header_budget [OF "1.prems"(2,3)]] next_line_keeps [OF nl]
    by simp_all
  show ?case
  proof (cases "\<exists>l h'. x = Inr (Got l) \<and> push_line l h = (None, h')")
    case True
    then obtain l h' where x: "x = Inr (Got l)" and p: "push_line l h = (None, h')" by blast
    have "collector_inv h'" using push_line_inv [OF "1.prems"(2), of l] p by simp
    moreover have "max_header_size h' = cfg_max_header_size (cfg E)" using push_line_max [OF p] "1.prems"(3) by simp
    moreover have "header_loop E h' s1 = (r, s')"
      using "1.prems"(4) nl x p by (simp add: header_loop.simps [of E h s])
    ultimately show ?thesis
      using "1.IH" [OF refl nl [symmetric] x refl p [symmetric] refl s1(1)] s1 by simp
  next
    case False
    then have "s' = s1 \<or> s' = s1\<lparr>buf := []\<rparr>"
      using "1.prems"(4) nl
      by (auto simp: header_loop.simps [of E h s] split: sum.splits line.splits prod.splits option.splits header_event.splits)
    with s1 sinv_clear show ?thesis by auto
  qed
qed


section \<open>Every operation keeps the invariant\<close>

lemma sinv_start_transaction:
  assumes "sinv E hinv d n s" "hinv (h_reset (ops E) (handler s))" "x \<le> WantMail" "x \<le> st s"
  shows "sinv E hinv d n ((start_transaction E s)\<lparr>st := x\<rparr>)"
  using assms by (cases x; cases "st s") (simp_all add: sinv_def start_transaction_def emit_def less_eq_state_def)

lemma start_transaction_frame [simp]:
  "st (start_transaction E s) = st s" "tls_active (start_transaction E s) = tls_active s"
  "handler (start_transaction E s) = h_reset (ops E) (handler s)"
  "trace (start_transaction E s) = trace s @ [ResetCall]" "recipients (start_transaction E s) = 0"
  by (simp_all add: start_transaction_def emit_def)

locale session_env = handler_contract "ops E" hinv kinv
  for E :: "('h, 'k) env" and hinv :: "'h \<Rightarrow> bool" and kinv :: "'k \<Rightarrow> bool"
begin

abbreviation keeps :: "nat option \<Rightarrow> nat \<Rightarrow> 'h session \<Rightarrow> bool" where
  "keeps d n s \<equiv> sinv E hinv d n s"

lemma sinv_hinv: "keeps d n s \<Longrightarrow> hinv (handler s)"
  by (simp add: sinv_def)

lemma sinv_reset: "keeps d n s \<Longrightarrow> st s = WantMail \<Longrightarrow> keeps d n (start_transaction E s)"
  using reset_inv by (simp add: sinv_def start_transaction_def emit_def)

lemma finish_auth_safe:
  assumes "keeps None n s" "st s = WantAuth"
  shows "safe (keeps None n) (finish_auth E creds s)"
proof (cases creds)
  case None
  with assms show ?thesis by (auto simp: finish_auth_def intro!: safe_send_continue)
next
  case (Some c)
  obtain r h where a: "h_auth (ops E) (authzid c) (authcid c) (password c) (handler s) = (r, h)"
    by (cases "h_auth (ops E) (authzid c) (authcid c) (password c) (handler s)")
  have "hinv h" using auth_inv [OF sinv_hinv [OF assms(1)]] a by (metis snd_conv)
  then have e: "keeps None n (emit (AuthCall b) (s\<lparr>handler := h\<rparr>))" for b
    using assms by (intro sinv_emit sinv_handler) (simp_all add: sinv_def)
  show ?thesis
  proof (cases r)
    case (Inl x)
    with Some a e show ?thesis by (auto simp: finish_auth_def intro!: safe_send_continue)
  next
    case (Inr u)
    have "safe (keeps None n) (and_then (send E (Reply_new 235 ''Authentication successful'')
        (emit (AuthCall True) (s\<lparr>handler := h\<rparr>))) (\<lambda>_ s2. ok Continue (s2\<lparr>st := WantMail\<rparr>)))"
    proof (rule safe_send_plain_then [OF e])
      fix l w
      assume "keeps None n (after_send l w (Sent (Reply_new 235 ''Authentication successful''))
        (emit (AuthCall True) (s\<lparr>handler := h\<rparr>)))"
      then show "safe (keeps None n) (ok Continue ((after_send l w (Sent (Reply_new 235 ''Authentication successful''))
        (emit (AuthCall True) (s\<lparr>handler := h\<rparr>)))\<lparr>st := WantMail\<rparr>))"
        using assms(2) by (simp add: sinv_def emit_def authorised_def)
    qed simp
    with Some a Inr show ?thesis by (simp add: finish_auth_def)
  qed
qed

lemma want_mail_safe:
  assumes "keeps None n s" "st s = WantMail"
  shows "safe (keeps None n) (want_mail E c s)"
proof (cases "\<exists>a ps. c = Mail a ps \<and> validate_dsn ps DsnMail = Inr ()")
  case False
  then show ?thesis using assms
    by (auto simp: want_mail_def intro!: safe_bad_sequence safe_send_continue split: command.split sum.split)
next
  case True
  then obtain a ps where c: "c = Mail a ps" "validate_dsn ps DsnMail = Inr ()" by blast
  define s1 where "s1 = start_transaction E s"
  have s1: "keeps None n s1" "st s1 = WantMail" "recipients s1 = 0"
    using sinv_reset [OF assms] assms(2) by (simp_all add: s1_def)
  obtain r h where m: "h_mail (ops E) a ps (handler s1) = (r, h)" by (cases "h_mail (ops E) a ps (handler s1)")
  have hi: "hinv (handler s1)" using sinv_hinv [OF s1(1)] .
  have h: "hinv h" using mail_inv [OF hi, of a ps] m by simp
  have e: "keeps None n (emit (MailCall a b) (s1\<lparr>handler := h\<rparr>))" for b
    using s1 h by (simp add: sinv_def emit_def)
  show ?thesis
  proof (cases r)
    case (Inl rej)
    have "refusal_code (rej_code rej)" using mail_code [OF hi] m Inl by blast
    then have "safe (keeps None n) (send_continue E (Reply_new (rej_code rej) (rej_text rej))
        (emit (MailCall a False) (s1\<lparr>handler := h\<rparr>)))"
      by (intro safe_send_continue e) (simp add: refusal_code_def)
    with c m Inl show ?thesis by (simp add: want_mail_def s1_def [symmetric])
  next
    case (Inr u)
    have "safe (keeps None n) (and_then (send E (Reply_new 250 ''OK'') (emit (MailCall a True) (s1\<lparr>handler := h\<rparr>)))
        (\<lambda>_ s3. ok Continue (s3\<lparr>st := WantRcpt\<rparr>)))"
      by (rule safe_send_sinv_then [OF e]) (use s1 in \<open>simp_all add: sinv_def emit_def\<close>)
    with c m Inr show ?thesis by (simp add: want_mail_def s1_def [symmetric])
  qed
qed

lemma with_token_safe:
  assumes "keeps d n s" "\<And>t s'. keeps d n s' \<Longrightarrow> st s' = st s \<Longrightarrow> safe (keeps d n) (k t s')"
  shows "safe (keeps d n) (with_token (auth_continuation E s) k)"
  unfolding with_token_def
proof (rule safe_and_then [OF safe_auth_continuation [OF assms(1)]])
  fix a s1
  assume s1: "keeps d n s1" and a: "auth_continuation E s = Some (Inr a, s1)"
  have "st s1 = st s" using auth_continuation_st [OF a] .
  then show "safe (keeps d n) ((case a of Token t \<Rightarrow> k t | Confused \<Rightarrow> ok Continue | AuthClosed \<Rightarrow> ok Close) s1)"
    using s1 assms(2) by (cases a) simp_all
qed

lemma want_auth_safe:
  assumes "keeps None n s" "st s = WantAuth"
  shows "safe (keeps None n) (want_auth E c s)"
proof (cases "\<exists>m i. c = Auth m i")
  case False
  have "keeps None n (s\<lparr>st := WantMail\<rparr>)" if "\<not> require_auth (cfg E)"
    using assms that by (simp add: sinv_def authorised_def)
  with False assms want_mail_safe [of n "s\<lparr>st := WantMail\<rparr>"] show ?thesis
    by (auto simp: want_auth_def intro!: safe_send_continue split: command.split)
next
  case True
  then obtain m i where c: "c = Auth m i" by blast
  have fin: "safe (keeps None n) (finish_auth E x s')" if "keeps None n s'" "st s' = WantAuth" for x s'
    using finish_auth_safe that .
  have plain: "safe (keeps None n) (and_then (send E (Reply_new 334 []) s)
      (\<lambda>_ s1. with_token (auth_continuation E s1) (\<lambda>t. finish_auth E (decode_plain (b64 E) t))))"
    using assms fin by (intro safe_send_plain_then with_token_safe) simp_all
  have login: "safe (keeps None n) (and_then (send E (Reply_new 334 USERNAME_CHALLENGE) s)
      (\<lambda>_ s1. with_token (auth_continuation E s1)
        (\<lambda>user s2. and_then (send E (Reply_new 334 PASSWORD_CHALLENGE) s2)
          (\<lambda>_ s3. with_token (auth_continuation E s3)
             (\<lambda>pass. finish_auth E (decode_login (b64 E) user pass))))))"
    using assms fin by (intro safe_send_plain_then with_token_safe) simp_all
  have "safe (keeps None n) (finish_auth E (decode_plain (b64 E) t) s)" for t using fin assms .
  with plain login assms show ?thesis
    by (auto simp: want_auth_def c intro!: safe_send_continue split: option.split)
qed

lemma want_starttls_safe:
  assumes "keeps None n s" "st s = WantStartTls"
  shows "safe (keeps None n) (want_starttls E c s)"
proof (cases "c = StartTls \<and> tls_offered (cfg E)")
  case False
  have "keeps None n (s\<lparr>st := WantAuth\<rparr>)" if "\<not> require_starttls (cfg E)"
    using assms that by (simp add: sinv_def secured_def)
  with False assms want_auth_safe [of n "s\<lparr>st := WantAuth\<rparr>"] show ?thesis
    by (auto simp: want_starttls_def intro!: safe_send_continue)
next
  case True
  let ?k = "\<lambda>(_::unit) s1. let s2 = s1\<lparr>buf := [], inp := [], after_tls := HandshakeFails\<rparr>
       in case after_tls s1 of
            HandshakeOk plaintext \<Rightarrow>
              ok Continue (emit TlsUp (s2\<lparr>inp := plaintext, tls_active := True, st := WantAuth\<rparr>))
          | HandshakeFails \<Rightarrow> ok FlowTlsFailed s2
          | HandshakeStalls \<Rightarrow> ok Stuck s2"
  have "safe (keeps None n) (and_then (send E (Reply_new 220 ''Go ahead'') s) ?k)"
  proof (rule safe_send_plain_then [OF assms(1)])
    fix l w
    let ?s = "after_send l w (Sent (Reply_new 220 ''Go ahead'')) s"
    assume "keeps None n ?s"
    then show "safe (keeps None n) (?k () ?s)"
      using assms(2)
      by (auto simp: sinv_def remaining_def unread_def emit_def secured_def events_size_def Let_def
          split: tls_outcome.splits)
  qed simp
  with True show ?thesis by (simp add: want_starttls_def)
qed

lemma want_rcpt_safe:
  assumes "keeps None n s" "WantRcpt \<le> st s"
  shows "safe (keeps None n) (want_rcpt E c s)"
proof (cases "\<exists>a ps. c = Rcpt a ps \<and> validate_dsn ps DsnRcpt = Inr () \<and>
    \<not> (max_recipients (cfg E) > 0 \<and> recipients s \<ge> max_recipients (cfg E))")
  case False
  then show ?thesis using assms
    by (auto simp: want_rcpt_def intro!: safe_bad_sequence safe_send_continue split: command.split sum.split)
next
  case True
  then obtain a ps where c: "c = Rcpt a ps" "validate_dsn ps DsnRcpt = Inr ()"
    and lim: "max_recipients (cfg E) > 0 \<longrightarrow> recipients s < max_recipients (cfg E)" by auto
  have nl: "\<not> (max_recipients (cfg E) > 0 \<and> recipients s \<ge> max_recipients (cfg E))" using lim by auto
  obtain r h where m: "h_rcpt (ops E) a ps (handler s) = (r, h)" by (cases "h_rcpt (ops E) a ps (handler s)")
  have hi: "hinv (handler s)" using sinv_hinv [OF assms(1)] .
  have h: "hinv h" using rcpt_inv [OF hi, of a ps] m by simp
  have ord: "WantMail \<le> st s" "WantAuth \<le> st s" using assms(2) state_chain by blast+
  show ?thesis
  proof (cases r)
    case (Inl rej)
    have "refusal_code (rej_code rej)" using rcpt_code [OF hi] m Inl by blast
    moreover have "keeps None n (emit (RcptCall a False) (s\<lparr>handler := h\<rparr>))"
      using assms h ord lim by (simp add: sinv_def emit_def)
    ultimately have "safe (keeps None n) (send_continue E (Reply_new (rej_code rej) (rej_text rej))
        (emit (RcptCall a False) (s\<lparr>handler := h\<rparr>)))"
      by (intro safe_send_continue) (simp_all add: refusal_code_def)
    with c m Inl nl show ?thesis by (auto simp: want_rcpt_def)
  next
    case (Inr u)
    let ?s = "emit (RcptCall a True) (s\<lparr>handler := h, recipients := recipients s + 1\<rparr>)"
    have e: "keeps None n ?s" using assms h ord lim by (simp add: sinv_def emit_def Suc_le_eq)
    have "safe (keeps None n) (and_then (send E (Reply_new 250 ''OK'') ?s)
        (\<lambda>_ s3. ok Continue (s3\<lparr>st := WantData\<rparr>)))"
      by (rule safe_send_sinv_then [OF e]) (use assms ord lim in \<open>simp_all add: sinv_def emit_def\<close>)
    with c m Inr nl show ?thesis by (auto simp: want_rcpt_def)
  qed
qed

lemma greeting_lines_keeps:
  assumes "keeps None n s" "greeting_lines E b s = (ls, s0)"
  shows "keeps None n s0"
proof (cases b)
  case True
  let ?h = "snd (h_size_limit (ops E) (snd (h_dsn_available (ops E) (handler s))))"
  have "s0 = s\<lparr>handler := ?h\<rparr>" using assms(2) True by (auto simp: greeting_lines_def Let_def split: prod.splits)
  moreover have "hinv ?h" using size_inv [OF dsn_inv [OF sinv_hinv [OF assms(1)]]] .
  ultimately show ?thesis using sinv_handler [OF assms(1)] by simp
qed (use assms in \<open>simp add: greeting_lines_def Let_def\<close>)

lemma greeting_safe:
  assumes "keeps None n s"
  shows "safe (keeps None n) (greeting E b s)"
proof -
  obtain ls s0 where g: "greeting_lines E b s = (ls, s0)" by (cases "greeting_lines E b s")
  then have ne: "ls \<noteq> []" by (auto simp: greeting_lines_def Let_def split: if_splits prod.splits)
  have k: "keeps None n s0" using greeting_lines_keeps [OF assms g] .
  define s1 where "s1 = (if st s0 \<ge> WantMail then start_transaction E s0 else s0)"
  let ?x = "if st s1 \<ge> WantMail then WantMail else if st s1 \<ge> WantAuth \<or> tls_active s1 then WantAuth else WantStartTls"
  have "keeps None n (s1\<lparr>st := ?x\<rparr>)"
  proof (cases "WantMail \<le> st s0")
    case True
    then show ?thesis
      using sinv_start_transaction [OF k reset_inv [OF sinv_hinv [OF k]], of WantMail] by (simp add: s1_def)
  next
    case False
    then show ?thesis using k by (auto simp: s1_def sinv_def secured_def)
  qed
  then show ?thesis
    unfolding greeting_def g prod.case Let_def s1_def [symmetric]
    by (intro safe_send_sinv) (simp_all add: wire_250(2) [OF ne, simplified])
qed

text \<open>From here on a 250 needs a reason: the lemmas hold for every \<open>d\<close>.\<close>

lemma refuse_data_refusal:
  "keeps d n s \<Longrightarrow> refusal_code c \<Longrightarrow> safe (keeps d n) (refuse_data E c t s)"
  by (rule safe_refuse_data) (simp_all add: refusal_code_def)

lemma conclude_safe:
  assumes "keeps d n s" "WantMail \<le> st s"
    and "\<And>m. r = Inr m \<Longrightarrow> trace s \<noteq> [] \<and> last (trace s) = Finished (Inr m)" and "\<And>v. r = Inl v \<Longrightarrow> refuses v"
  shows "safe (keeps d n) (conclude E r s)"
proof -
  have s0: "keeps d n (s\<lparr>st := WantMail\<rparr>)" using sinv_WantMail assms(1,2) .
  show ?thesis
  proof (cases r)
    case (Inl v)
    with assms(4) s0 show ?thesis
      by (cases v) (auto simp: conclude_def refuses_def intro!: refuse_data_refusal)
  next
    case (Inr m)
    have "safe (keeps d n) (send E (Reply_new 250 (''OK: '' @ m)) (s\<lparr>st := WantMail\<rparr>))"
      using assms(3) [OF Inr] by (intro safe_send_sinv s0) (simp_all split: option.split)
    with Inr show ?thesis
      by (auto simp: conclude_def safe_def split: sum.splits) (simp add: ok_def)+
  qed
qed

lemma mirror_safe:
  assumes "keeps d n s" "WantMail \<le> st s" "refuses v"
  shows "safe (keeps d n) (mirror E v b s)"
proof (cases v)
  case Dropped
  with assms conclude_safe [of d n s "Inl Dropped"] show ?thesis by (simp add: mirror_def)
next
  case (Replied c t)
  have s0: "keeps d n (s\<lparr>st := WantMail\<rparr>)" using sinv_WantMail assms(1,2) .
  have "safe (keeps d n) (refuse_data E c t (s\<lparr>st := WantMail\<rparr>))"
    using assms(3) Replied by (intro refuse_data_refusal s0) (simp add: refuses_def)
  then have "safe (keeps d n) (and_then (refuse_data E c t (s\<lparr>st := WantMail\<rparr>))
            (\<lambda>f s1.
               if f = Close then ok Close s1
               else (case discard_to_terminator E b s1 of
                       (Inl e, s2) \<Rightarrow> Some (Inl e, s2)
                     | (Inr g, s2) \<Rightarrow> ok g (start_transaction E s2))))"
  proof (rule safe_and_then)
    fix f s1
    assume s1: "keeps d n s1" and rd: "refuse_data E c t (s\<lparr>st := WantMail\<rparr>) = Some (Inr f, s1)"
    have st: "st s1 = WantMail"
      using rd by (auto simp: refuse_data_def ok_def split: option.splits sum.splits if_splits dest!: send_st)
    obtain x s2 where dt: "discard_to_terminator E b s1 = (x, s2)" by (cases "discard_to_terminator E b s1")
    have "keeps d n s2" "st s2 = WantMail" using discard_keeps [OF s1 dt] st by simp_all
    then show "safe (keeps d n) (if f = Close then ok Close s1
               else (case discard_to_terminator E b s1 of
                       (Inl e, s2) \<Rightarrow> Some (Inl e, s2)
                     | (Inr g, s2) \<Rightarrow> ok g (start_transaction E s2)))"
      using s1 dt sinv_reset by (cases x) simp_all
  qed
  with Replied show ?thesis by (simp add: mirror_def)
qed

lemma refuse_large_headers_safe:
  assumes "keeps d n s" "WantMail \<le> st s"
  shows "safe (keeps d n) (refuse_large_headers E b s)"
proof -
  obtain x s1 where dt: "discard_to_terminator E b s = (x, s1)" by (cases "discard_to_terminator E b s")
  have s1: "keeps d n s1" "WantMail \<le> st s1" using discard_keeps [OF assms(1) dt] assms(2) by simp_all
  have "keeps d n (start_transaction E (s1\<lparr>st := WantMail\<rparr>))"
    using sinv_WantMail [OF s1] by (intro sinv_reset) simp_all
  with dt s1 show ?thesis
    by (cases x) (auto simp: refuse_large_headers_def intro!: safe_refuse_data)
qed

lemma drop_sink_safe: "safe (keeps d n) m \<Longrightarrow> safe (keeps d n) (drop_sink m)"
  by (auto simp: safe_def drop_sink_def intro!: sinv_emit)

lemma finish_sink_safe:
  assumes "keeps d n s" "WantMail \<le> st s" "kinv k"
  shows "safe (keeps d n) (finish_sink E k s)"
proof -
  obtain r k' where f: "k_finish (ops E) k = (r, k')" by (cases "k_finish (ops E) k")
  have "keeps d n (emit (Finished r) s)" using assms(1) by (rule sinv_emit) simp_all
  then have "safe (keeps d n) (conclude E r (emit (Finished r) s))"
    using assms(2) finish_refuses [OF assms(3)] f by (intro conclude_safe) (auto simp: emit_def)
  with f show ?thesis by (simp add: finish_sink_def)
qed

lemma finish_body_safe:
  assumes "keeps d n s" "WantMail \<le> st s" "kinv k"
  shows "safe (keeps d n) (finish_body E f k s)"
proof -
  let ?rest = "fst (flush f)"
  obtain r k' where w: "k_write_final (ops E) ?rest k = (r, k')" by (cases "k_write_final (ops E) ?rest k")
  have k': "kinv k'" using write_final_inv [OF assms(3), of ?rest] w by simp
  have e: "keeps d n (emit (WriteCall ?rest b) s)" for b using assms(1) by (rule sinv_emit) simp_all
  have "safe (keeps d n) (drop_sink (conclude E (Inl v) (emit (WriteCall ?rest False) s)))" if "r = Inl v" for v
    using write_final_refuses [OF assms(3)] w that assms(2)
    by (intro drop_sink_safe conclude_safe e) (auto simp: emit_def)
  moreover have "safe (keeps d n) (finish_sink E k' (emit (WriteCall ?rest True) s))"
    using assms(2) k' by (intro finish_sink_safe e) (simp_all add: emit_def)
  ultimately show ?thesis
    using w finish_sink_safe [OF assms] by (cases r) (simp_all add: finish_body_def Let_def)
qed

definition body_end_ok :: "error_kind + 'k body_end \<Rightarrow> bool" where
  "body_end_ok r \<longleftrightarrow>
     (case r of
        Inr (BodyDone f k) \<Rightarrow> kinv k
      | Inr (BodyVerdict v b) \<Rightarrow> refuses v
      | _ \<Rightarrow> True)"

lemma body_line_keeps:
  assumes "keeps d n s" "next_line E WRITE_CHUNK s = (r, s1)"
  shows "keeps d n s1" "st s1 = st s"
  using sinv_next_line [OF assms body_budget] next_line_keeps(2) [OF assms(2)] by simp_all

lemma piece_read_keeps:
  assumes "piece_read E s x s1" "keeps d n s"
  shows "keeps d n s1 \<and> st s1 = st s"
  using assms(1)
proof cases
  case (whole l)
  from body_line_keeps [OF assms(2) whole(2)] show ?thesis by simp
next
  case (part s0)
  note k = body_line_keeps [OF assms(2) part(3)]
  show ?thesis unfolding part(2) using sinv_clear [OF k(1)] k(2) by simp
qed

lemma body_run_keeps: "body_run E f k s r s' \<Longrightarrow> keeps d n s \<Longrightarrow> kinv k \<Longrightarrow> keeps d n s' \<and> st s' = st s \<and> body_end_ok r"
proof (induction rule: body_run.induct)
  case (failed s e s1 f k)
  then show ?case using body_line_keeps [OF failed.prems(1) failed.hyps] by (simp add: body_end_ok_def)
next
  case (left s s1 f k)
  then show ?case using body_line_keeps [OF left.prems(1) left.hyps] by (simp add: body_end_ok_def)
next
  case (written s x s1 f c g k u k1 r s')
  note p = piece_read_keeps [OF written.hyps(1) written.prems(1)]
  have "keeps d n (emit (WriteCall c True) s1)" using conjunct1 [OF p] by (rule sinv_emit) simp_all
  then show ?case using written p write_inv [of k c] by (simp add: emit_def)
next
  case (refused s x s1 f c g k v k1)
  note p = piece_read_keeps [OF refused.hyps(1) refused.prems(1)]
  have "keeps d n (emit (WriteCall c False) s1)" using conjunct1 [OF p] by (rule sinv_emit) simp_all
  then show ?case using refused p write_refuses by (simp add: body_end_ok_def emit_def)
next
  case (pending s x s1 f g k r s')
  then show ?case using piece_read_keeps [OF pending.hyps(1) pending.prems(1)] by simp
next
  case (ended s x s1 f g k)
  then show ?case using piece_read_keeps [OF ended.hyps(1) ended.prems(1)] by (simp add: body_end_ok_def)
qed

lemma body_loop_keeps:
  assumes "keeps d n s" "kinv k" "body_loop E f k s = (r, s')"
  shows "keeps d n s' \<and> st s' = st s \<and> body_end_ok r"
  using body_run_keeps assms by (simp add: body_loop_iff)

lemma read_body_safe:
  assumes "keeps d n s" "WantMail \<le> st s" "kinv k"
  shows "safe (keeps d n) (read_body E k s)"
proof -
  obtain r s1 where b: "body_loop E framer_new k s = (r, s1)" by (cases "body_loop E framer_new k s")
  have s1: "keeps d n s1" "WantMail \<le> st s1" and r: "body_end_ok r"
    using body_loop_keeps [OF assms(1,3) b] assms(2) by simp_all
  show ?thesis
  proof (cases r)
    case (Inl e)
    with b s1 show ?thesis by (simp add: read_body_def drop_sink_safe)
  next
    case (Inr y)
    with b s1 r show ?thesis
      by (cases y) (auto simp: read_body_def body_end_ok_def intro!: drop_sink_safe mirror_safe finish_body_safe)
  qed
qed

lemma open_message_safe:
  assumes "keeps d n s" "st s = WantData"
  shows "safe (keeps d n) (open_message E hs b s)"
proof -
  have hi: "hinv (handler s)" using sinv_hinv [OF assms(1)] .
  obtain r h where o: "h_open_body (ops E) hs (handler s) = Some (r, h)" using open_no_panic [OF hi, of hs] by auto
  have h: "hinv h" using open_inv [OF hi o] .
  have e: "keeps d n (emit (OpenCall hs x) (s\<lparr>handler := h\<rparr>))" for x
    using assms h by (intro sinv_emit sinv_handler) (simp_all add: sinv_def)
  show ?thesis
  proof (cases r)
    case (Inr k)
    have "kinv k" using open_sink [OF hi] o Inr by blast
    with o Inr e assms(2) show ?thesis
      by (auto simp: open_message_def Let_def intro!: finish_sink_safe read_body_safe)
  next
    case (Inl rej)
    have rc: "refusal_code (rej_code rej)" using open_code [OF hi] o Inl by blast
    have refuse: "safe (keeps d n) (refuse_data E (rej_code rej) (rej_text rej) (s3\<lparr>st := WantMail\<rparr>))"
      if "keeps d n s3" "st s3 = WantData" for s3
      using that rc by (intro refuse_data_refusal sinv_WantMail) simp_all
    let ?s = "emit (OpenCall hs False) (s\<lparr>handler := h\<rparr>)"
    have st: "st ?s = WantData" using assms(2) by (simp add: emit_def)
    obtain x s3 where dt: "discard_to_terminator E True ?s = (x, s3)" by (cases "discard_to_terminator E True ?s")
    have s3: "keeps d n s3" "st s3 = WantData" using discard_keeps [OF e dt] st by simp_all
    show ?thesis
      using o Inl dt s3 refuse [OF s3] refuse [OF e st] by (cases x) (simp_all add: open_message_def Let_def)
  qed
qed

lemma read_message_safe:
  assumes "keeps d n s" "st s = WantData"
  shows "safe (keeps d n) (read_message E s)"
  unfolding read_message_def
proof (rule safe_send_plain_then [OF assms(1)])
  fix l w
  let ?s = "after_send l w (Sent (Reply_new 354 ''End data with <CR><LF>.<CR><LF>'')) s"
  let ?c = "collector_new (cfg_max_header_size (cfg E))"
  assume s1: "keeps d n ?s"
  obtain r s2 where h: "header_loop E ?c ?s = (r, s2)" by (cases "header_loop E ?c ?s")
  have s2: "keeps d n s2" "st s2 = WantData"
    using header_loop_keeps [OF s1 collector_new_inv _ h] assms(2) by (simp_all add: collector_new_def)
  show "safe (keeps d n) (case header_loop E ?c ?s of
            (Inl e, s2) \<Rightarrow> Some (Inl e, s2)
          | (Inr HeaderEof, s2) \<Rightarrow> ok Close s2
          | (Inr CapInLine, s2) \<Rightarrow> refuse_large_headers E False s2
          | (Inr CapAtLine, s2) \<Rightarrow> refuse_large_headers E True s2
          | (Inr (Block hs body_follows), s2) \<Rightarrow> open_message E hs body_follows s2)"
    using h s2
    by (auto split: sum.split header_end.split intro!: refuse_large_headers_safe open_message_safe)
qed simp

lemma want_data_safe:
  assumes "keeps None n s" "st s = WantData"
  shows "safe (keeps None n) (want_data E c s)"
  using assms
  by (auto simp: want_data_def split: command.split
      intro!: safe_bad_sequence want_rcpt_safe read_message_safe)

lemma rset_keeps:
  assumes "keeps None n s"
  shows "keeps None n (if st (start_transaction E s) > WantMail then (start_transaction E s)\<lparr>st := WantMail\<rparr>
                       else start_transaction E s)"
proof (cases "st s > WantMail")
  case True
  then show ?thesis
    using sinv_start_transaction [OF assms reset_inv [OF sinv_hinv [OF assms]], of WantMail] by simp
next
  case False
  then have "st s \<le> WantMail" by (simp add: not_less)
  then have "keeps None n ((start_transaction E s)\<lparr>st := st s\<rparr>)"
    by (intro sinv_start_transaction assms reset_inv sinv_hinv [OF assms]) simp_all
  moreover have "(start_transaction E s)\<lparr>st := st s\<rparr> = start_transaction E s"
    by (simp add: start_transaction_def emit_def)
  ultimately show ?thesis using False by simp
qed

lemma safe_ok_250: "keeps None n s \<Longrightarrow> safe (keeps None n) (send_continue E (Reply_new 250 t) s)"
  unfolding send_continue_def by (rule safe_send_sinv_then) simp_all

lemma greeting_continue_safe:
  "keeps None n s \<Longrightarrow> safe (keeps None n) (and_then (greeting E b s) (\<lambda>_. ok Continue))"
  by (rule safe_and_then [OF greeting_safe]) simp_all

lemma quit_safe:
  assumes "keeps None n s"
  shows "safe (keeps None n)
    (and_then (send E (Reply_new 221 (service_name (cfg E) @ '' closing transmission channel'')) s)
       (\<lambda>_ s1. ok FlowQuit (emit Shutdown s1)))"
  using assms by (intro safe_send_plain_then) (auto intro!: sinv_emit)

lemma by_state_safe:
  assumes "keeps None n s"
  shows "safe (keeps None n) (case st s of
             WantGreeting \<Rightarrow> bad_sequence E s
           | WantStartTls \<Rightarrow> want_starttls E c s
           | WantAuth \<Rightarrow> want_auth E c s
           | WantMail \<Rightarrow> want_mail E c s
           | WantRcpt \<Rightarrow> want_rcpt E c s
           | WantData \<Rightarrow> want_data E c s)"
  using assms
  by (cases "st s") (simp_all add: safe_bad_sequence want_starttls_safe want_auth_safe want_mail_safe
      want_rcpt_safe want_data_safe)

lemma dispatch_safe:
  assumes "keeps None n s"
  shows "safe (keeps None n) (dispatch E c s)"
  using by_state_safe [OF assms] quit_safe [OF assms] safe_ok_250 [OF assms]
    greeting_continue_safe [OF assms] safe_ok_250 [OF rset_keeps [OF assms]]
    safe_send_continue [OF assms, of "Reply_new 553 ''Unimplemented''"]
  by (cases c) (simp_all add: dispatch_def Let_def)

lemma parse_error_code:
  "parse_command l = Some (Inl e) \<Longrightarrow> err_code e \<in> {500, 501, 502}"
  using parse_command_code [of l] by (simp add: code_in_def)

lemma serve_line_safe:
  assumes "keeps None n s"
  shows "safe (keeps None n) (serve_line E l s)"
proof -
  define s1 where "s1 = log_lines E (\<lambda>cred. log_received cred (trim_line_end (from_utf8_lossy l))) s"
  have s1: "keeps None n s1" using assms by (simp add: s1_def)
  obtain p where p: "parse_command l = Some p" using parse_command_total [of l] by auto
  show ?thesis
  proof (cases p)
    case (Inl e)
    have "plain_reply (Reply_new (err_code e) (err_text e))" using parse_error_code p Inl by fastforce
    then have "safe (keeps None n) (send E (Reply_new (err_code e) (err_text e)) s1)"
      using plain_wire by (intro safe_send_sinv s1) simp_all
    with p Inl show ?thesis
      by (auto simp: serve_line_def s1_def [symmetric] safe_def split: sum.splits)
  next
    case (Inr c)
    with p dispatch_safe [OF s1, of c] show ?thesis
      by (auto simp: serve_line_def s1_def [symmetric] safe_def split: sum.splits flow.splits)
  qed
qed

lemma next_command_line_keeps:
  assumes "keeps None n s" "next_command_line E s = (r, s')"
  shows "keeps None n s'" and "r = Inr (Some (Got l)) \<Longrightarrow> remaining s' < remaining s"
proof -
  let ?s = "s\<lparr>drain_script := tl (drain_script s)\<rparr>"
  obtain x s1 where nl: "next_line E MAX_COMMAND_BUFFER ?s = (x, s1)" by (cases "next_line E MAX_COMMAND_BUFFER ?s")
  have s1: "keeps None n s1" using sinv_next_line [OF _ nl command_budget] assms(1) by simp
  show "keeps None n s'"
    using assms s1 nl by (auto simp: next_command_line_def split: if_splits sum.splits)
  show "r = Inr (Some (Got l)) \<Longrightarrow> remaining s' < remaining s"
    using assms(2) nl next_line_remaining(2) [OF nl]
    by (auto simp: next_command_line_def split: if_splits sum.splits)
qed

lemma serve_turn_safe:
  assumes "keeps None n s"
  obtains r s' where "serve_turn E s = Some (r, s')" "keeps None n s'" "r = Inr () \<Longrightarrow> remaining s' < remaining s"
proof -
  obtain r s1 where nc: "next_command_line E s = (r, s1)" by (cases "next_command_line E s")
  note k = next_command_line_keeps [OF assms nc]
  show thesis
  proof (cases "\<exists>l. r = Inr (Some (Got l))")
    case True
    then obtain l where l: "r = Inr (Some (Got l))" by blast
    have lt: "remaining s1 < remaining s" using k(2) l by blast
    let ?n = "remaining s1"
    have "keeps None ?n (s1\<lparr>first_command_seen := True\<rparr>)" using k(1) by (simp add: sinv_def)
    then obtain x s2 where x: "serve_line E l (s1\<lparr>first_command_seen := True\<rparr>) = Some (x, s2)"
      and s2: "keeps None ?n s2" using serve_line_safe unfolding safe_def by blast
    moreover have "serve_turn E s = Some (x, s2)" using nc l x by (simp add: serve_turn_def)
    moreover have "remaining s2 \<le> ?n" using s2 by (simp add: sinv_def)
    moreover have "?n \<le> n" using k(1) by (simp add: sinv_def)
    ultimately show thesis using that sinv_mono lt by fastforce
  next
    case False
    then consider e where "r = Inl e" | "r = Inr None" | "r = Inr (Some Eof)" | "r = Inr (Some TooLong)"
      by (metis line.exhaust not_None_eq obj_sumE)
    then have "\<exists>x s2. serve_turn E s = Some (Inl x, s2) \<and> keeps None n s2"
      using nc k(1) safe_last_words [OF safe_drained [OF k(1)]] safe_last_words [OF safe_refuse_long_line [OF k(1)]]
      by cases (auto simp: serve_turn_def)
    with that show thesis by blast
  qed
qed

lemma serve_loop_safe:
  assumes "keeps None n s"
  obtains r s' where "serve_loop m E s = Some (r, s')" "keeps None n s'" "remaining s < m \<Longrightarrow> r \<noteq> None"
  using assms
proof (induction m arbitrary: s thesis)
  case 0
  then show ?case by simp
next
  case (Suc m)
  obtain x s1 where t: "serve_turn E s = Some (x, s1)" "keeps None n s1" "x = Inr () \<Longrightarrow> remaining s1 < remaining s"
    by (rule serve_turn_safe [OF Suc.prems(2)]) blast
  show ?case
  proof (cases x)
    case (Inl e)
    with t Suc.prems(1) show ?thesis by simp
  next
    case (Inr u)
    obtain r s' where "serve_loop m E s1 = Some (r, s')" "keeps None n s'" "remaining s1 < m \<Longrightarrow> r \<noteq> None"
      by (rule Suc.IH [OF _ t(2)]) blast
    with t Inr Suc.prems(1) show ?thesis by simp
  qed
qed

lemma new_session_keeps: "hinv h \<Longrightarrow> keeps None (remaining (new_session rs tls ws ds h)) (new_session rs tls ws ds h)"
  by (simp add: sinv_def new_session_def)

text \<open>A whole run: no panic, it ends, and the invariant holds at its end.\<close>

lemma run_safe:
  assumes "hinv h"
  obtains r s where "run E rs tls ws ds h = Some (Some r, s)" "keeps None (remaining (new_session rs tls ws ds h)) s"
proof -
  let ?s = "new_session rs tls ws ds h" and ?r = "Reply_new 220 (service_name (cfg E) @ '' SMTP service ready'')"
  let ?n = "remaining ?s"
  have k: "keeps None ?n ?s" using assms by (rule new_session_keeps)
  have "plain_reply ?r" by simp
  then have "safe (keeps None ?n) (send E ?r ?s)" using plain_wire by (intro safe_send_sinv k) simp_all
  then obtain x s1 where x: "send E ?r ?s = Some (x, s1)" "keeps None ?n s1" unfolding safe_def by blast
  show thesis
  proof (cases x)
    case (Inl e)
    with x that show thesis by (simp add: run_def serve_def Let_def)
  next
    case (Inr u)
    have "remaining s1 < Suc ?n" using x(2) by (simp add: sinv_def)
    then obtain r s' where "serve_loop (Suc ?n) E s1 = Some (r, s')" "keeps None ?n s'" "r \<noteq> None"
      using serve_loop_safe [OF x(2), of "Suc ?n"] by metis
    with x Inr that show thesis by (auto simp: run_def serve_def Let_def)
  qed
qed

end

end
