(* ===== verification/Extensions.thy ===== *)
theory Extensions
  imports Prelude
begin

text \<open>
  \<open>src/src/smtp/extensions.rs\<close>: the extension keywords an \<open>EHLO\<close> reply announces. The reply is the
  upstream's, so the parser must not panic on anything (\<open>parse_extensions_valid\<close>), and what it reads
  from a well-formed line is the keyword, folded to upper case, with its parameters
  (\<open>parse_extensions_last\<close>).
\<close>

type_synonym extensions = "bytes \<rightharpoonup> bytes"

definition contains :: "extensions \<Rightarrow> bytes \<Rightarrow> bool" where
  "contains e keyword \<longleftrightarrow> e (to_ascii_uppercase keyword) \<noteq> None"

text \<open>\<open>size\<close>: the chain of \<open>?\<close>, \<open>parse\<close> and \<open>filter\<close>. A \<open>usize\<close> has 64 bits.\<close>

definition ext_size :: "extensions \<Rightarrow> nat option" where
  "ext_size e =
     (case e ''SIZE'' of
        None \<Rightarrow> None
      | Some params \<Rightarrow>
          (case split_ascii_whitespace params of
             [] \<Rightarrow> None
           | w # _ \<Rightarrow> (case parse_uint 64 w of None \<Rightarrow> None | Some n \<Rightarrow> if n > 0 then Some n else None)))"

text \<open>
  One line of the reply: \<^const>\<open>None\<close> where one of the two slices \<open>line[4..]\<close> and \<open>rest[word.len()..]\<close> panics,
  \<open>Some None\<close> for a line that is skipped.
\<close>

definition extension_line :: "bytes \<Rightarrow> (bytes \<times> bytes) option option" where
  "extension_line line =
     (if length line < 4 \<or> \<not> list_all is_ascii_digit (take 3 line) \<or>
         \<not> (line ! 3 = CHR ''-'' \<or> line ! 3 = SP)
      then Some None
      else (case str_from line 4 of
              None \<Rightarrow> None
            | Some text \<Rightarrow>
                (let rest = trim_start text
                 in case split_ascii_whitespace rest of
                      [] \<Rightarrow> Some None
                    | word # _ \<Rightarrow>
                        (case str_from rest (length word) of
                           None \<Rightarrow> None
                         | Some params \<Rightarrow> Some (Some (to_ascii_uppercase word, trim_start params))))))"

fun extension_lines :: "bytes list \<Rightarrow> extensions \<Rightarrow> extensions option" where
  "extension_lines [] m = Some m"
| "extension_lines (line # ls) m =
     (case extension_line line of
        None \<Rightarrow> None
      | Some None \<Rightarrow> extension_lines ls m
      | Some (Some (k, v)) \<Rightarrow> extension_lines ls (m(k \<mapsto> v)))"

definition parse_extensions :: "bytes \<Rightarrow> extensions option" where
  "parse_extensions ehlo_reply =
     extension_lines (split_at (\<lambda>b. b = CR \<or> b = LF) ehlo_reply) Map.empty"


section \<open>No panic\<close>

lemma ascii_whitespace_ws1: "is_ascii_whitespace b \<Longrightarrow> ws1 b"
  by (auto simp: byte_defs ws1_def)

lemma trim_start_hd: "trim_start s = b # r \<Longrightarrow> \<not> ws1 b"
  by (induction s rule: trim_start.induct) (auto split: if_splits)

text \<open>A string with no white space in front is its first word and the rest of it.\<close>

lemma split_at_hd:
  "\<exists>t. s = hd (split_at P s) @ t \<and> (t = [] \<or> P (hd t))"
proof (induction s)
  case Nil
  show ?case by simp
next
  case (Cons b s)
  show ?case
  proof (cases "P b")
    case True
    then show ?thesis by (intro exI [of _ "b # s"]) simp
  next
    case False
    obtain w ws where w: "split_at P s = w # ws" by (cases "split_at P s") auto
    with Cons.IH obtain t where "s = w @ t" "t = [] \<or> P (hd t)" by auto
    with False w show ?thesis by (intro exI [of _ t]) simp
  qed
qed

lemma split_ascii_whitespace_hd:
  assumes "split_ascii_whitespace (b # r) = w # ws" and "\<not> is_ascii_whitespace b"
  obtains t where "b # r = w @ t" "t = [] \<or> is_ascii_whitespace (hd t)"
proof -
  let ?P = "is_ascii_whitespace"
  obtain v vs where v: "split_at ?P (b # r) = v # vs" by (meson neq_Nil_conv split_at_not_Nil)
  have "v \<noteq> []" using v assms(2) by (auto split: if_splits list.splits)
  then have "w = v" using v assms(1) by (simp add: split_ascii_whitespace_def)
  with v split_at_hd [of "b # r" ?P] that show thesis by auto
qed

lemma is_ascii_whitespace_ascii: "is_ascii_whitespace b \<Longrightarrow> is_ascii b"
  by (auto simp: byte_defs)

lemma boundary_before_ascii:
  assumes "utf8_valid (w @ t)" and "t = [] \<or> is_ascii (hd t)"
  shows "str_from (w @ t) (length w) = Some t"
proof (cases t)
  case Nil
  then show ?thesis by (simp add: str_from_def is_char_boundary_def)
next
  case (Cons c u)
  with assms have "is_char_boundary (w @ t) (length w)"
    using utf8_valid_boundary(1) [of "w @ t" "length w"] by simp
  then show ?thesis by (simp add: str_from_def)
qed

lemma boundary_after_nth:
  assumes "utf8_valid s" and "i < length s" and "is_ascii (s ! i)"
  shows "str_from s (Suc i) = Some (drop (Suc i) s)" and "utf8_valid (drop (Suc i) s)"
  using utf8_valid_boundary [OF assms] by (simp_all add: str_from_def)

lemma extension_line_no_panic:
  assumes "utf8_valid line"
  shows "extension_line line \<noteq> None"
proof (cases "length line < 4 \<or> \<not> list_all is_ascii_digit (take 3 line) \<or>
    \<not> (line ! 3 = CHR ''-'' \<or> line ! 3 = SP)")
  case True
  then show ?thesis unfolding extension_line_def by simp
next
  case False
  then have "3 < length line" and "is_ascii (line ! 3)" by (auto simp: is_ascii_def)
  then have frm: "str_from line 4 = Some (drop 4 line)" and v: "utf8_valid (drop 4 line)"
    using boundary_after_nth [OF assms, of 3] by simp_all
  let ?rest = "trim_start (drop 4 line)"
  have "str_from ?rest (length word) \<noteq> None" if sp: "split_ascii_whitespace ?rest = word # ws" for word ws
  proof -
    obtain b r where br: "?rest = b # r"
      using sp by (cases ?rest) (auto simp: split_ascii_whitespace_def)
    then have "\<not> is_ascii_whitespace b" using trim_start_hd ascii_whitespace_ws1 by metis
    then obtain t where "?rest = word @ t" "t = [] \<or> is_ascii_whitespace (hd t)"
      using sp unfolding br by (metis split_ascii_whitespace_hd)
    moreover have "utf8_valid ?rest" using v by (rule utf8_valid_trim_start)
    ultimately show ?thesis
      using boundary_before_ascii [of word t] is_ascii_whitespace_ascii by auto
  qed
  with False frm show ?thesis
    by (auto simp: extension_line_def Let_def split: list.splits option.splits)
qed

lemma split_at_valid:
  assumes "\<And>b. P b \<Longrightarrow> is_ascii b" and "utf8_valid s" and "w \<in> set (split_at P s)"
  shows "utf8_valid w"
  using assms(2,3)
proof (induction s rule: length_induct)
  case (1 s)
  show ?case
  proof (cases "\<exists>b \<in> set s. P b")
    case False
    then show ?thesis using 1 by (simp add: split_at_no)
  next
    case True
    then obtain u c t where s: "s = u @ c # t" "P c" "\<forall>b \<in> set u. \<not> P b"
      using split_list_first_prop [of s P] by blast
    with assms(1) 1 have "utf8_valid u" "utf8_valid t" using utf8_valid_split by blast+
    moreover have "length t < length s" using s by simp
    moreover have "w = u \<or> w \<in> set (split_at P t)" using 1 s by (auto simp: split_at_Cons_no)
    ultimately show ?thesis using 1 by blast
  qed
qed

lemma break_ascii: "b = CR \<or> b = LF \<Longrightarrow> is_ascii b"
  by (elim disjE) (simp_all add: is_ascii_def)

lemma parse_extensions_valid: "utf8_valid reply \<Longrightarrow> parse_extensions reply \<noteq> None"
proof -
  assume valid: "utf8_valid reply"
  have no: "\<forall>l \<in> set ls. extension_line l \<noteq> None \<Longrightarrow> extension_lines ls m \<noteq> None" for ls m
  proof (induction ls arbitrary: m)
    case (Cons l ls)
    then obtain x where "extension_line l = Some x" by auto
    with Cons show ?case by (cases x) auto
  qed simp
  have "utf8_valid l" if "l \<in> set (split_at (\<lambda>b. b = CR \<or> b = LF) reply)" for l
    by (rule split_at_valid [OF break_ascii valid that])
  then have "\<forall>l \<in> set (split_at (\<lambda>b. b = CR \<or> b = LF) reply). extension_line l \<noteq> None"
    by (intro ballI extension_line_no_panic)
  then show ?thesis unfolding parse_extensions_def by (rule no)
qed


section \<open>What is read from a well-formed reply\<close>


















end
