(* ===== verification/Relay.thy ===== *)
theory Relay
  imports Streams Handler_Interface Dsn Extensions Message_Data
begin

text \<open>
  \<open>src/src/relay.rs\<close>: the SMTP client for the upstream, one connection per message.

  A connection is a record of what the upstream will do: the reads to come, the outcome of each write
  step, who wins the race of a body write against the upstream's reply, and what becomes of a TLS
  handshake. \<open>usent\<close> is every byte that went out, in order, each piece with whether TLS was on. \<open>Upstream\<close>
  and \<open>UpstreamSession\<close> of the source are the same record: splitting the stream keeps what had been
  buffered in front of it.

  The TLS package and the operating system's error texts are outside; \<open>UpstreamTls::build\<close> is in the theory \<open>Startup\<close>,
  and of the client configuration it builds only whether there is one is kept here.
\<close>

section \<open>Errors and configuration\<close>

datatype upstream_tls_mode = Off | Opportunistic | Required | Implicit

record upstream_tls =
  mode :: upstream_tls_mode
  has_client_config :: bool

definition upstream_tls_off :: upstream_tls where
  "upstream_tls_off = \<lparr>mode = Off, has_client_config = False\<rparr>"

record relay_config =
  host :: bytes
  port :: nat
  relay_timeout :: nat
  tls :: upstream_tls
  tls_server_name :: "bytes option"

definition server_name :: "relay_config \<Rightarrow> bytes" where
  "server_name c = (case tls_server_name c of Some n \<Rightarrow> n | None \<Rightarrow> host c)"

text \<open>\<open>RelayError\<close>. An I/O error has the text the source gives it, or that of the operating system.\<close>

datatype relay_error =
    Io error_kind "bytes option"
  | Rejected nat bytes
  | Address bytes
  | Timeout
  | Tls bytes
  | NoStartTls

definition client_code :: "relay_error \<Rightarrow> nat" where
  "client_code e =
     (case e of
        Rejected code _ \<Rightarrow> if 400 \<le> code \<and> code < 600 then code else 451
      | Address _ \<Rightarrow> 550
      | _ \<Rightarrow> 451)"

text \<open>The \<open>Display\<close> of an error; \<open>os_text\<close> renders the operating system's errors.\<close>

definition relay_error_text :: "(error_kind \<Rightarrow> bytes) \<Rightarrow> relay_error \<Rightarrow> bytes" where
  "relay_error_text os_text e =
     (case e of
        Io k (Some t) \<Rightarrow> t
      | Io k None \<Rightarrow> os_text k
      | Rejected _ t \<Rightarrow> t
      | Address a \<Rightarrow> ''Refusing to relay the address '' @ CHR 0x27 # a @
          CHR 0x27 # '': it contains characters that cannot appear in an SMTP command line''
      | Timeout \<Rightarrow> ''timeout talking to the upstream''
      | Tls t \<Rightarrow> ''TLS to the upstream failed: '' @ t
      | NoStartTls \<Rightarrow> ''upstream does not offer STARTTLS'')"

definition MAX_UPSTREAM_REPLY_LINE :: nat where
  "MAX_UPSTREAM_REPLY_LINE = 4096"

definition MAX_REPLY_TOTAL :: nat where
  "MAX_REPLY_TOTAL = 65536"

record recipient =
  rc_address :: bytes
  rc_parameters :: "param list"

record envelope =
  env_from :: bytes
  env_mail_params :: "param list"
  env_recipients :: "recipient list"

record upstream_caps =
  cap_dsn :: bool
  cap_size :: "nat option"
  cap_size_announced :: bool

definition caps_of :: "extensions \<Rightarrow> upstream_caps" where
  "caps_of e = \<lparr>cap_dsn = contains e ''DSN'', cap_size = ext_size e, cap_size_announced = contains e ''SIZE''\<rparr>"

definition relayable_char :: "byte \<Rightarrow> bool" where
  [byte_defs]: "relayable_char b \<longleftrightarrow> in_range 0x21 0x7E b \<and> b \<noteq> CHR ''<'' \<and> b \<noteq> CHR ''>''"

definition assert_relayable :: "bytes \<Rightarrow> relay_error + unit" where
  "assert_relayable address = (if list_all relayable_char address then Inr () else Inl (Address address))"

definition dsn_suffix :: "param list \<Rightarrow> (bytes \<Rightarrow> bool) \<Rightarrow> bool \<Rightarrow> bytes" where
  "dsn_suffix params keep upstream_dsn =
     (let wanted = filter (\<lambda>p. keep (par_keyword p)) params
      in if wanted = [] then []
         else if \<not> upstream_dsn then []
         else concat (map (\<lambda>p. case par_value p of
                                  Some v \<Rightarrow> SP # par_keyword p @ CHR ''='' # v
                                | None \<Rightarrow> SP # par_keyword p) wanted))"

definition size_suffix :: "param list \<Rightarrow> bool \<Rightarrow> bytes" where
  "size_suffix params upstream_announces_size =
     (case find (\<lambda>p. eq_ignore_ascii_case (par_keyword p) ''SIZE'') params of
        None \<Rightarrow> []
      | Some p \<Rightarrow>
          (case par_value p of
             None \<Rightarrow> []
           | Some n \<Rightarrow> if \<not> upstream_announces_size then [] else '' SIZE='' @ n))"

definition HELLO :: bytes where
  "HELLO = ''localhost.localdomain''"

definition replied :: "nat \<Rightarrow> bytes \<Rightarrow> upstream_verdict" where
  "replied code text = Replied (if 400 \<le> code \<and> code < 600 then code else 451) text"

definition into_relay_error :: "bytes \<Rightarrow> upstream_verdict \<Rightarrow> relay_error" where
  "into_relay_error command v =
     (case v of
        Dropped \<Rightarrow> Io ConnectionAborted (Some (''lost the upstream during '' @ command @
          '': it stopped reading, closed the connection, or answered unintelligibly''))
      | Replied code text \<Rightarrow> Rejected code text)"


section \<open>A connection\<close>

text \<open>One timed write with its flush: all of it goes out, or a part of it and then an error.\<close>

datatype write_outcome = WrOk | WrTimeout nat | WrError nat error_kind

datatype upstream_handshake = UpTlsOk "read_event list" | UpTlsError bytes | UpTlsTimeout

record upstream =
  rbuf :: bytes
  revs :: "read_event list"
  wouts :: "write_outcome list"
  races :: "nat option list"
  utls :: upstream_handshake
  up_tls :: bool
  usent :: "(bool \<times> bytes) list"
  up_timeout :: nat
  caps :: upstream_caps
  last_written :: "byte option"

record upstream_reply =
  ur_code :: nat
  ur_text :: bytes
  ur_raw :: bytes

type_synonym 'a up = "((relay_error + 'a) \<times> upstream) option"

text \<open>
  \<open>take(limit).read_line\<close> under one timeout: bytes come from the reader's buffer, filled by reads of the
  connection, up to an LF, the limit or the end of the stream. The whole line has to arrive in time.
\<close>

function read_until_lf ::
  "nat \<Rightarrow> nat \<Rightarrow> bytes \<Rightarrow> bytes \<Rightarrow> read_event list \<Rightarrow> (relay_error + bytes) \<times> bytes \<times> read_event list" where
  "read_until_lf left time acc b evs =
     (if left = 0 then (Inr acc, b, evs)
      else if b = [] then
        (case read_chunk time evs of
           (Inl e, evs') \<Rightarrow> (if evs = [] \<or> evs' = evs then Inl Timeout else Inl (Io e None), b, evs')
         | (Inr chunk, evs') \<Rightarrow>
             if chunk = [] then (Inr acc, b, evs')
             else read_until_lf left (time - (case hd evs of Arrives w _ \<Rightarrow> w | Fails w _ \<Rightarrow> w)) acc chunk evs')
      else (case position ((=) LF) (take left b) of
              Some i \<Rightarrow> (Inr (acc @ take (i + 1) b), drop (i + 1) b, evs)
            | None \<Rightarrow> read_until_lf (left - length (take left b)) time (acc @ take left b) (drop left b) evs))"
  by pat_completeness auto
termination
  by (relation "inv_image (less_than <*lex*> less_than) (\<lambda>(_, _, _, b, evs). (events_size evs, length b))")
     (auto dest: read_chunk_size(1) [OF sym])

declare read_until_lf.simps [simp del]

definition read_line_up :: "nat \<Rightarrow> bytes \<Rightarrow> read_event list \<Rightarrow> (relay_error + bytes) \<times> bytes \<times> read_event list" where
  "read_line_up timeout b evs =
     (case read_until_lf MAX_UPSTREAM_REPLY_LINE timeout [] b evs of
        (Inl e, b', evs') \<Rightarrow> (Inl e, b', evs')
      | (Inr line, b', evs') \<Rightarrow>
          (if utf8_valid line then Inr line else Inl (Io InvalidData None), b', evs'))"

definition join_lf :: "bytes list \<Rightarrow> bytes" where
  "join_lf ls = (case ls of [] \<Rightarrow> [] | l # r \<Rightarrow> l @ concat (map (\<lambda>x. LF # x) r))"

text \<open>
  \<open>read_reply\<close>: line after line until one whose fourth byte is a space, or that is the code alone.
\<close>

definition invalid_data :: "bytes \<Rightarrow> relay_error" where
  "invalid_data text = Io InvalidData (Some text)"

function reply_lines_up ::
  "nat \<Rightarrow> bytes \<Rightarrow> bytes list \<Rightarrow> bytes \<Rightarrow> read_event list \<Rightarrow>
   (relay_error + upstream_reply) \<times> bytes \<times> read_event list" where
  "reply_lines_up timeout raw texts b evs =
     (case read_line_up timeout b evs of
        (Inl e, b', evs') \<Rightarrow> (Inl e, b', evs')
      | (Inr line, b', evs') \<Rightarrow>
          if line = [] then (Inl (Io UnexpectedEof (Some ''upstream closed the connection'')), b', evs')
          else if last line \<noteq> LF \<and> length line \<ge> MAX_UPSTREAM_REPLY_LINE then
            (Inl (invalid_data (''upstream reply line exceeds '' @ show_nat MAX_UPSTREAM_REPLY_LINE @ '' bytes'')), b', evs')
          else if length (raw @ line) > MAX_REPLY_TOTAL then
            (Inl (invalid_data (''upstream reply exceeds '' @ show_nat MAX_REPLY_TOTAL @ '' bytes'')), b', evs')
          else
            (let trimmed = trim_end_matches (\<lambda>c. c = CR \<or> c = LF) line
             in if length trimmed < 3 \<or> \<not> list_all is_ascii_digit (take 3 trimmed) then
                  (Inl (invalid_data (''unparseable upstream reply: '' @ trimmed)), b', evs')
                else
                  (let code = nat_of_digits (take 3 trimmed);
                       texts' = texts @ [case str_from trimmed 4 of Some t \<Rightarrow> t | None \<Rightarrow> []]
                   in if length trimmed = 3 \<or> trimmed ! 3 = SP then
                        (Inr \<lparr>ur_code = code, ur_text = join_lf texts', ur_raw = raw @ line\<rparr>, b', evs')
                      else reply_lines_up timeout (raw @ line) texts' b' evs')))"
  by pat_completeness auto
termination
  by (relation "measure (\<lambda>(_, raw, _). MAX_REPLY_TOTAL + 1 - length raw)")
     (auto simp: not_less simp flip: length_greater_0_conv)

declare reply_lines_up.simps [simp del]

definition read_reply :: "upstream \<Rightarrow> (relay_error + upstream_reply) \<times> upstream" where
  "read_reply u =
     (case reply_lines_up (up_timeout u) [] [] (rbuf u) (revs u) of
        (r, b, evs) \<Rightarrow> (r, u\<lparr>rbuf := b, revs := evs\<rparr>))"

text \<open>
  \<open>chunks\<close>, and a timed write of one chunk with its flush. Of a write that fails a part may have gone out.
\<close>

function chunks :: "nat \<Rightarrow> bytes \<Rightarrow> bytes list" where
  "chunks n s = (if s = [] \<or> n = 0 then [] else take n s # chunks n (drop n s))"
  by pat_completeness auto
termination
  by (relation "measure (\<lambda>(_, s). length s)") auto

declare chunks.simps [simp del]

definition put :: "bytes \<Rightarrow> upstream \<Rightarrow> upstream" where
  "put bs u = u\<lparr>usent := usent u @ [(up_tls u, bs)]\<rparr>"

definition write_step :: "bytes \<Rightarrow> upstream \<Rightarrow> (relay_error + unit) \<times> upstream" where
  "write_step bs u =
     (case wouts u of
        WrTimeout k # ws \<Rightarrow> (Inl Timeout, put (take k bs) (u\<lparr>wouts := ws\<rparr>))
      | WrError k e # ws \<Rightarrow> (Inl (Io e None), put (take k bs) (u\<lparr>wouts := ws\<rparr>))
      | ws \<Rightarrow> (Inr (), put bs (u\<lparr>wouts := tl ws\<rparr>)))"

fun write_all_chunks :: "bytes list \<Rightarrow> upstream \<Rightarrow> (relay_error + unit) \<times> upstream" where
  "write_all_chunks [] u = (Inr (), u)"
| "write_all_chunks (c # cs) u =
     (case write_step c u of
        (Inl e, u') \<Rightarrow> (Inl e, u')
      | (Inr _, u') \<Rightarrow> write_all_chunks cs u')"

definition write_chunks :: "bytes \<Rightarrow> upstream \<Rightarrow> (relay_error + unit) \<times> upstream" where
  "write_chunks payload u = write_all_chunks (chunks WRITE_CHUNK payload) u"

definition send_command :: "bytes \<Rightarrow> upstream \<Rightarrow> (relay_error + unit) \<times> upstream" where
  "send_command line u = write_chunks (line @ CRLF) u"

definition require_class :: "upstream_reply \<Rightarrow> nat \<Rightarrow> relay_error + upstream_reply" where
  "require_class r expect_class =
     (if ur_code r div 100 \<noteq> expect_class then Inl (Rejected (ur_code r) (ur_text r)) else Inr r)"

definition up_command :: "bytes \<Rightarrow> nat \<Rightarrow> upstream \<Rightarrow> (relay_error + upstream_reply) \<times> upstream" where
  "up_command line expect_class u =
     (case send_command line u of
        (Inl e, u1) \<Rightarrow> (Inl e, u1)
      | (Inr _, u1) \<Rightarrow>
          (case read_reply u1 of
             (Inl e, u2) \<Rightarrow> (Inl e, u2)
           | (Inr r, u2) \<Rightarrow> (require_class r expect_class, u2)))"

definition quit_up :: "upstream \<Rightarrow> upstream" where
  "quit_up u = snd (up_command ''QUIT'' 2 u)"


section \<open>The handshake\<close>

text \<open>
  \<open>handshake\<close>: whether the TLS package accepts the server's name and certificate is the environment's. Behind
  it the stream is a new one.
\<close>

definition handshake :: "upstream_tls \<Rightarrow> upstream \<Rightarrow> (relay_error + unit) \<times> upstream" where
  "handshake t u =
     (if \<not> has_client_config t then (Inl (Tls ''no TLS client configuration''), u)
      else (case utls u of
              UpTlsOk evs \<Rightarrow> (Inr (), u\<lparr>rbuf := [], revs := evs, up_tls := True\<rparr>)
            | UpTlsError e \<Rightarrow> (Inl (Tls e), u)
            | UpTlsTimeout \<Rightarrow> (Inl Timeout, u)))"

definition upgrade :: "upstream_tls \<Rightarrow> upstream \<Rightarrow> (relay_error + unit) \<times> upstream" where
  "upgrade t u =
     (if rbuf u \<noteq> [] then (Inl (Tls ''the upstream sent data after its reply to STARTTLS''), u)
      else handshake t (u\<lparr>rbuf := [], revs := []\<rparr>))"

definition up_result :: "(relay_error + 'a) \<times> upstream \<Rightarrow> 'a up" where
  "up_result r = Some r"

text \<open>\<open>open\<close>, with the panics of \<open>parse_extensions\<close>: the greeting, \<open>EHLO\<close> or \<open>HELO\<close>, then TLS if the mode asks for it.\<close>

definition hello :: "upstream \<Rightarrow> extensions up" where
  "hello u =
     (case up_command (''EHLO '' @ HELLO) 2 u of
        (Inr r, u1) \<Rightarrow> (case parse_extensions (ur_raw r) of None \<Rightarrow> None | Some e \<Rightarrow> ok e u1)
      | (Inl e, u1) \<Rightarrow>
          (case e of
             Rejected code _ \<Rightarrow>
               if code div 100 = 5
               then and_then (up_result (up_command (''HELO '' @ HELLO) 2 u1)) (\<lambda>_. ok Map.empty)
               else Some (Inl e, u1)
           | _ \<Rightarrow> Some (Inl e, u1)))"

definition start_tls :: "upstream_tls \<Rightarrow> upstream \<Rightarrow> extensions up" where
  "start_tls t u =
     and_then (up_result (up_command ''STARTTLS'' 2 u))
       (\<lambda>_ u1. and_then (up_result (upgrade t u1))
          (\<lambda>_ u2. and_then (up_result (up_command (''EHLO '' @ HELLO) 2 u2))
             (\<lambda>r u3. case parse_extensions (ur_raw r) of None \<Rightarrow> None | Some e \<Rightarrow> ok e u3)))"

definition open_up :: "upstream_tls \<Rightarrow> upstream \<Rightarrow> extensions up" where
  "open_up t u =
     and_then (up_result (read_reply u))
       (\<lambda>greeting u1.
          if ur_code greeting div 100 \<noteq> 2 then Some (Inl (Rejected (ur_code greeting) (ur_text greeting)), u1)
          else and_then (hello u1)
            (\<lambda>exts u2.
               case mode t of
                 Off \<Rightarrow> ok exts u2
               | Implicit \<Rightarrow> ok exts u2
               | Opportunistic \<Rightarrow> if contains exts ''STARTTLS'' then start_tls t u2 else ok exts u2
               | Required \<Rightarrow>
                   if \<not> contains exts ''STARTTLS'' then Some (Inl NoStartTls, u2) else start_tls t u2))"

text \<open>\<open>dial\<close>: what the network makes of the connection attempt.\<close>

datatype dial_outcome = Connected upstream | ConnectTimeout | ConnectError error_kind

definition dial :: "relay_config \<Rightarrow> dial_outcome \<Rightarrow> relay_error + upstream" where
  "dial c d =
     (case d of
        ConnectTimeout \<Rightarrow> Inl Timeout
      | ConnectError e \<Rightarrow> Inl (Io e None)
      | Connected u0 \<Rightarrow>
          (let u = u0\<lparr>rbuf := [], up_tls := False, usent := [], up_timeout := relay_timeout c,
                      last_written := None\<rparr>
           in if mode (tls c) = Implicit
              then (case handshake (tls c) u of (Inl e, _) \<Rightarrow> Inl e | (Inr _, u1) \<Rightarrow> Inr u1)
              else Inr u))"

definition greet :: "upstream_tls \<Rightarrow> upstream \<Rightarrow> unit up" where
  "greet t u = and_then (open_up t u) (\<lambda>exts u1. ok () (u1\<lparr>caps := caps_of exts\<rparr>))"

text \<open>\<open>UpstreamSession::connect\<close>. The connection is dropped on an error.\<close>

definition connect :: "relay_config \<Rightarrow> dial_outcome \<Rightarrow> (relay_error + upstream) option" where
  "connect c d =
     (case dial c d of
        Inl e \<Rightarrow> Some (Inl e)
      | Inr u \<Rightarrow>
          (case greet (tls c) u of
             None \<Rightarrow> None
           | Some (Inl e, _) \<Rightarrow> Some (Inl e)
           | Some (Inr _, u1) \<Rightarrow> Some (Inr u1)))"

definition probe :: "relay_config \<Rightarrow> dial_outcome \<Rightarrow> (relay_error + upstream_caps) option" where
  "probe c d =
     (case connect c d of
        None \<Rightarrow> None
      | Some (Inl e) \<Rightarrow> Some (Inl e)
      | Some (Inr u) \<Rightarrow> Some (Inr (caps (quit_up u))))"


section \<open>The transaction\<close>

definition mail_line :: "upstream_caps \<Rightarrow> envelope \<Rightarrow> bytes" where
  "mail_line c e =
     ''MAIL FROM:<'' @ env_from e @ ''>'' @ dsn_suffix (env_mail_params e) is_mail_dsn_keyword (cap_dsn c) @
     size_suffix (env_mail_params e) (cap_size_announced c)"

definition rcpt_line :: "upstream_caps \<Rightarrow> recipient \<Rightarrow> bytes" where
  "rcpt_line c r =
     ''RCPT TO:<'' @ rc_address r @ ''>'' @ dsn_suffix (rc_parameters r) is_rcpt_dsn_keyword (cap_dsn c)"

fun rcpt_loop :: "recipient list \<Rightarrow> upstream \<Rightarrow> (relay_error + unit) \<times> upstream" where
  "rcpt_loop [] u = (Inr (), u)"
| "rcpt_loop (r # rs) u =
     (case up_command (rcpt_line (caps u) r) 2 u of
        (Inl e, u1) \<Rightarrow> (Inl e, u1)
      | (Inr _, u1) \<Rightarrow> rcpt_loop rs u1)"

definition open_transaction :: "envelope \<Rightarrow> upstream \<Rightarrow> (relay_error + unit) \<times> upstream" where
  "open_transaction e u =
     (case up_command (mail_line (caps u) e) 2 u of
        (Inl x, u1) \<Rightarrow> (Inl x, u1)
      | (Inr _, u1) \<Rightarrow>
          (case rcpt_loop (env_recipients e) u1 of
             (Inl x, u2) \<Rightarrow> (Inl x, u2)
           | (Inr _, u2) \<Rightarrow>
               (case up_command ''DATA'' 3 u2 of
                  (Inl x, u3) \<Rightarrow> (Inl x, u3)
                | (Inr _, u3) \<Rightarrow> (Inr (), u3))))"

text \<open>
  The race of a body write against the reader: \<open>Some k\<close> when the reader is ready first, \<open>k\<close> bytes of the piece
  being out by then. It can only be ready when there is something to read, or an error, or the end.
\<close>

definition fill_buf :: "upstream \<Rightarrow> (error_kind + unit) \<times> upstream" where
  "fill_buf u =
     (if rbuf u \<noteq> [] then (Inr (), u)
      else (case revs u of
              Fails _ e # evs \<Rightarrow> (Inl e, u\<lparr>revs := evs\<rparr>)
            | Arrives _ bs # evs \<Rightarrow>
                if bs = [] then (Inr (), u)
                else (Inr (), u\<lparr>rbuf := take READ_CHUNK bs,
                        revs := (if length bs > READ_CHUNK then Arrives 0 (drop READ_CHUNK bs) # evs else evs)\<rparr>)
            | [] \<Rightarrow> (Inr (), u)))"

definition reader_wins :: "upstream \<Rightarrow> nat option" where
  "reader_wins u =
     (case races u of
        Some k # _ \<Rightarrow> if rbuf u = [] \<and> revs u = [] then None else Some k
      | _ \<Rightarrow> None)"

fun write_pieces :: "bytes list \<Rightarrow> upstream \<Rightarrow> (upstream_verdict + unit) \<times> upstream" where
  "write_pieces [] u = (Inr (), u)"
| "write_pieces (p # ps) u =
     (let u0 = u\<lparr>races := tl (races u)\<rparr>
      in case reader_wins u of
           None \<Rightarrow>
             (case write_step p u0 of
                (Inl _, u1) \<Rightarrow> (Inl Dropped, u1)
              | (Inr _, u1) \<Rightarrow> write_pieces ps u1)
         | Some k \<Rightarrow>
             (case fill_buf (put (take k p) u0) of
                (Inl _, u1) \<Rightarrow> (Inl Dropped, u1)
              | (Inr _, u1) \<Rightarrow>
                  (case read_reply u1 of
                     (Inl _, u2) \<Rightarrow> (Inl Dropped, u2)
                   | (Inr r, u2) \<Rightarrow> (Inl (replied (ur_code r) (ur_text r)), u2))))"

definition up_write :: "bytes \<Rightarrow> upstream \<Rightarrow> (upstream_verdict + unit) \<times> upstream" where
  "up_write chunk u =
     (if chunk = [] then (Inr (), u)
      else write_pieces (chunks WRITE_CHUNK chunk) (u\<lparr>last_written := Some (last chunk)\<rparr>))"

definition tail_bytes :: "byte option \<Rightarrow> bytes" where
  "tail_bytes l = (if l = Some LF then DOT # CRLF else CRLF @ DOT # CRLF)"

definition finish_up :: "upstream \<Rightarrow> (upstream_verdict + bytes) \<times> upstream" where
  "finish_up u =
     (case write_chunks (tail_bytes (last_written u)) u of
        (Inl _, u1) \<Rightarrow> (Inl Dropped, u1)
      | (Inr _, u1) \<Rightarrow>
          (case read_reply u1 of
             (Inl _, u2) \<Rightarrow> (Inl Dropped, u2)
           | (Inr r, u2) \<Rightarrow>
               if ur_code r div 100 \<noteq> 2 then (Inl (replied (ur_code r) (ur_text r)), u2)
               else (Inr (ur_text r), quit_up u2)))"

end
