(* ===== verification/Api.thy ===== *)
theory Api
  imports Relay "HOL-Library.AList"
begin

text \<open>
  \<open>src/src/api.rs\<close>: the call that asks the customer's endpoint whether a message may be sent. The HTTP client
  (\<open>reqwest\<close>), the JSON decoder (\<open>serde_json\<close>) and the table of reason phrases (\<open>http\<close>) are third-party code and
  stay parameters: an exchange is a transport error or a status with a body, and the decoder is a
  function on the body. \<open>Recipient\<close> is in the theory \<open>Relay\<close>, which writes it out.
\<close>

record request_header =
  rq_name :: bytes
  rq_value :: bytes

record response_header =
  rs_name :: bytes
  rs_value :: "bytes option"

record check_request =
  cr_username :: bytes
  cr_password :: bytes
  cr_from :: bytes
  cr_to :: "bytes list"
  cr_headers :: "request_header list"
  cr_mail_parameters :: "param list"
  cr_rcpt_parameters :: "recipient list"

record check_response =
  allow :: bool
  reason :: "bytes option"
  rsp_headers :: "response_header list"
  rsp_from :: "bytes option"
  auth_id :: "bytes option"

datatype api_error = Transport bytes | Status nat bytes | Json bytes

text \<open>What an HTTP exchange gives: no response, or a status and the text of the body, which may fail to arrive.\<close>

datatype exchange = NoResponse bytes | Response nat "bytes + bytes"

record api_env =
  from_json :: "bytes \<Rightarrow> bytes + check_response"
  canonical_reason :: "nat \<Rightarrow> bytes option"

definition is_success :: "nat \<Rightarrow> bool" where
  "is_success status \<longleftrightarrow> 200 \<le> status \<and> status < 300"

definition status_reason :: "api_env \<Rightarrow> nat \<Rightarrow> bytes" where
  "status_reason A status =
     (case canonical_reason A status of Some t \<Rightarrow> t | None \<Rightarrow> show_nat status)"

definition post :: "api_env \<Rightarrow> exchange \<Rightarrow> api_error + check_response" where
  "post A x =
     (case x of
        NoResponse e \<Rightarrow> Inl (Transport e)
      | Response status body \<Rightarrow>
          if \<not> is_success status then Inl (Status status (status_reason A status))
          else (case body of
                  Inl e \<Rightarrow> Inl (Transport e)
                | Inr text \<Rightarrow>
                    (case from_json A text of Inl e \<Rightarrow> Inl (Json e) | Inr r \<Rightarrow> Inr r)))"

text \<open>\<open>check\<close> is \<open>post\<close>; on a failure it logs \<open>redacted_json\<close> of the request (below), which is no part of the result.\<close>

definition check :: "api_env \<Rightarrow> exchange \<Rightarrow> api_error + check_response" where
  "check A x = post A x"

text \<open>A verdict comes only out of a successful response with the agreed JSON in it.\<close>

lemma check_Inr:
  "check A x = Inr r \<longleftrightarrow> (\<exists>status text. x = Response status (Inr text) \<and> is_success status \<and> from_json A text = Inr r)"
  by (auto simp: check_def post_def split: exchange.splits sum.splits)


section \<open>The dumps for the debug log\<close>

text \<open>
  A \<open>serde_json::Value\<close> as \<open>derive(Serialize)\<close> builds it; an object has its keys once each. Printing it is
  third-party code and a parameter, \<open>render\<close>.
\<close>

datatype json = JNull | JBool bool | JString bytes | JArray "json list" | JObject "(bytes \<times> json) list"

definition option_value :: "bytes option \<Rightarrow> json" where
  "option_value x = (case x of None \<Rightarrow> JNull | Some t \<Rightarrow> JString t)"

definition param_value :: "param \<Rightarrow> json" where
  "param_value p = JObject [(''keyword'', JString (par_keyword p)), (''value'', option_value (par_value p))]"

definition request_header_value :: "request_header \<Rightarrow> json" where
  "request_header_value h = JObject [(''name'', JString (rq_name h)), (''value'', JString (rq_value h))]"

definition response_header_value :: "response_header \<Rightarrow> json" where
  "response_header_value h = JObject [(''name'', JString (rs_name h)), (''value'', option_value (rs_value h))]"

definition recipient_value :: "recipient \<Rightarrow> json" where
  "recipient_value r =
     JObject [(''address'', JString (rc_address r)), (''parameters'', JArray (map param_value (rc_parameters r)))]"

definition request_value :: "check_request \<Rightarrow> json" where
  "request_value r =
     JObject
       [(''username'', JString (cr_username r)), (''password'', JString (cr_password r)),
        (''from'', JString (cr_from r)), (''to'', JArray (map JString (cr_to r))),
        (''headers'', JArray (map request_header_value (cr_headers r))),
        (''mailParameters'', JArray (map param_value (cr_mail_parameters r))),
        (''rcptParameters'', JArray (map recipient_value (cr_rcpt_parameters r)))]"

definition redacted_json :: "(json \<Rightarrow> bytes) \<Rightarrow> check_request \<Rightarrow> bytes" where
  "redacted_json render r =
     render (case request_value r of
               JObject obj \<Rightarrow> JObject (AList.update ''password'' (JString ''*******'') obj)
             | v \<Rightarrow> v)"

definition response_json :: "(json \<Rightarrow> bytes) \<Rightarrow> check_response \<Rightarrow> bytes" where
  "response_json render r =
     render
       (JObject
          [(''allow'', JBool (allow r)), (''reason'', option_value (reason r)),
           (''headers'', JArray (map response_header_value (rsp_headers r))), (''from'', option_value (rsp_from r)),
           (''authId'', option_value (auth_id r))])"

text \<open>
  C39. The dump of a request in the debug log is the request with asterisks for the password: it keeps every other
  field and does not depend on the password, however a value is printed.
\<close>

theorem redacted_json_secret:
  "redacted_json render r = render (request_value (r\<lparr>cr_password := ''*******''\<rparr>)) \<and>
   redacted_json render (r\<lparr>cr_password := p\<rparr>) = redacted_json render r"
  by (simp add: redacted_json_def request_value_def)

end
