(* ===== verification/Headers.thy ===== *)
theory Headers
  imports Message_Data Api
begin

text \<open>
  The header half of \<open>src/src/proxy.rs\<close>: the block of the client taken apart for the API (\<open>parse_headers\<close>), the
  headers the API asks for merged in (\<open>merge_headers\<close>), what must not be relayed refused
  (\<open>assert_header_relayable\<close>), and the rest written in wire form (\<open>header_block\<close>).

  The main lemma reads the wire form back with the project's own reader, \<open>HeaderCollector\<close> and
  \<open>parse_headers\<close>: every header is there, alone, with its value, and the block ends where it should.
\<close>

record raw_header =
  rh_name :: bytes
  rh_value :: bytes

definition to_request :: "raw_header \<Rightarrow> request_header" where
  "to_request h = \<lparr>rq_name = from_utf8_lossy (rh_name h), rq_value = from_utf8_lossy (rh_value h)\<rparr>"

definition name_text :: "raw_header \<Rightarrow> bytes" where
  "name_text h = from_utf8_lossy (rh_name h)"

definition is_perl_space :: "byte \<Rightarrow> bool" where
  "is_perl_space b \<longleftrightarrow> b \<in> {SP, TAB, LF, CR, CHR 0x0B, CHR 0x0C}"

definition is_break :: "byte \<Rightarrow> bool" where
  "is_break b \<longleftrightarrow> b = CR \<or> b = LF"

definition trim_end_breaks :: "bytes \<Rightarrow> bytes" where
  "trim_end_breaks line = trim_end_matches is_break line"

definition perl_header_value :: "bytes \<Rightarrow> bytes" where
  "perl_header_value rest =
     (case position (\<lambda>b. \<not> is_perl_space b) rest of
        Some i \<Rightarrow> drop i rest
      | None \<Rightarrow> if rest = [] then [] else [last rest])"

definition continuation :: "bytes \<Rightarrow> bool" where
  "continuation raw \<longleftrightarrow> raw \<noteq> [] \<and> hd raw \<in> {SP, TAB, CHR 0x0B, CHR 0x0C}"

text \<open>The first loop of \<open>parse_headers\<close>: folded lines stay whole.\<close>

fun fold_lines :: "bytes list \<Rightarrow> bytes list \<Rightarrow> bytes list" where
  "fold_lines lines [] = lines"
| "fold_lines lines (raw # raws) =
     (if lines \<noteq> [] \<and> continuation raw
      then fold_lines (butlast lines @ [last lines @ raw]) raws
      else fold_lines (lines @ [raw]) raws)"

text \<open>One round of the second loop: a line to a header, or dropped.\<close>

definition parse_header :: "bytes \<Rightarrow> raw_header option" where
  "parse_header l =
     (let line = trim_end_breaks l
      in case position (\<lambda>b. b = CHR '':'') line of
           Some colon \<Rightarrow>
             if colon > 0 \<and> colon + 1 < length line
             then Some \<lparr>rh_name = take colon line, rh_value = perl_header_value (drop (colon + 1) line)\<rparr>
             else None
         | None \<Rightarrow> None)"

definition parse_headers :: "bytes \<Rightarrow> raw_header list" where
  "parse_headers block = List.map_filter parse_header (fold_lines [] (split_inclusive ((=) LF) block))"

definition merge_headers :: "raw_header list \<Rightarrow> response_header list \<Rightarrow> raw_header list" where
  "merge_headers existing api =
     filter (\<lambda>h. \<not> list_ex (\<lambda>a. eq_ignore_ascii_case (rs_name a) (rh_name h)) api) existing @
     List.map_filter (\<lambda>a. map_option (\<lambda>v. \<lparr>rh_name = rs_name a, rh_value = v\<rparr>) (rs_value a)) api"

definition get :: "bytes \<Rightarrow> nat \<Rightarrow> byte option" where
  "get s i = (if i < length s then Some (s ! i) else None)"

definition folds_at :: "bytes \<Rightarrow> nat \<Rightarrow> bool" where
  "folds_at val i =
     (if val ! i = CR \<and> get val (i + 1) \<noteq> Some LF then False
      else let after = (if val ! i = CR then i + 2 else i + 1)
           in get val after = Some SP \<or> get val after = Some TAB)"

fun assert_header_relayable :: "raw_header list \<Rightarrow> bytes + unit" where
  "assert_header_relayable [] = Inr ()"
| "assert_header_relayable (h # hs) =
     (if rh_name h = [] \<or> list_ex (\<lambda>b. b = CR \<or> b = LF \<or> b = CHR '':'' \<or> is_perl_space b) (rh_name h)
      then Inl (name_text h)
      else if list_ex (\<lambda>i. (rh_value h ! i = CR \<or> rh_value h ! i = LF) \<and> \<not> folds_at (rh_value h) i)
                [0..<length (rh_value h)]
      then Inl (name_text h)
      else assert_header_relayable hs)"

fun normalize_breaks :: "bytes \<Rightarrow> bytes" where
  "normalize_breaks [] = []"
| "normalize_breaks [b] = (if b = LF then CRLF else [b])"
| "normalize_breaks (b # c # s) =
     (if b = LF then CRLF @ normalize_breaks (c # s)
      else if b = CR \<and> c = LF then CRLF @ normalize_breaks s
      else b # normalize_breaks (c # s))"

fun dot_stuff_from :: "bool \<Rightarrow> bytes \<Rightarrow> bytes" where
  "dot_stuff_from line_start [] = []"
| "dot_stuff_from line_start (b # s) =
     (if line_start \<and> b = DOT then [DOT] else []) @ b # dot_stuff_from (b = LF) s"

definition dot_stuff :: "bytes \<Rightarrow> bytes" where
  "dot_stuff block = dot_stuff_from True block"

definition header_text :: "raw_header \<Rightarrow> bytes" where
  "header_text h = rh_name h @ '': '' @ rh_value h @ CRLF"

definition header_block :: "raw_header list \<Rightarrow> bytes" where
  "header_block hs = dot_stuff (normalize_breaks (concat (map header_text hs) @ CRLF))"


section \<open>The two passes\<close>

lemma crlf_from_cr: "s = [] \<or> hd s \<noteq> LF \<Longrightarrow> crlf_from cr s = crlf_from False s"
  by (cases s) auto

text \<open>The header pass and the body framer write line breaks alike.\<close>

lemma normalize_breaks_crlf_norm: "normalize_breaks s = crlf_norm s"
proof -
  have "normalize_breaks s = crlf_from False s"
  proof (induction s rule: normalize_breaks.induct)
    case (3 b c s)
    show ?case
    proof (cases "b = CR \<and> c = LF")
      case True
      then show ?thesis using 3 by (simp add: crlf_from_cr)
    next
      case False
      then have "crlf_from (b = CR) (c # s) = crlf_from False (c # s)" by (cases "b = CR") (simp_all add: crlf_from_cr)
      then show ?thesis using 3 False by (cases "b = LF") simp_all
    qed
  qed simp_all
  then show ?thesis by (simp add: crlf_norm_def)
qed

abbreviation lines_of :: "bytes \<Rightarrow> bytes list" where
  "lines_of s \<equiv> split_inclusive ((=) LF) s"

definition stuff_line :: "bytes \<Rightarrow> bytes" where
  "stuff_line l = (if l \<noteq> [] \<and> hd l = DOT then DOT # l else l)"

lemma unstuff_stuff_line [simp]: "unstuff (stuff_line l) = l"
  by (cases l) (auto simp: unstuff_def stuff_line_def strip_prefix_def)

text \<open>Dot stuffing works line by line.\<close>

lemma dot_stuff_from_lines:
  "dot_stuff_from st s =
     (case lines_of s of [] \<Rightarrow> [] | l # ls \<Rightarrow> (if st then stuff_line l else l) @ concat (map stuff_line ls))"
proof (induction s arbitrary: st)
  case (Cons b s)
  have ne: "l \<noteq> []" if "lines_of s = l # ls" for l ls using split_inclusive_butlast [of l "(=) LF" s] that by simp
  show ?case
  proof (cases "b = LF")
    case True
    then show ?thesis using Cons.IH [of True]
      by (cases "lines_of s") (simp_all add: stuff_line_def)
  next
    case False
    then show ?thesis using Cons.IH [of False] ne
      by (cases "lines_of s") (simp_all add: stuff_line_def)
  qed
qed simp

lemma dot_stuff_lines: "dot_stuff s = concat (map stuff_line (lines_of s))"
  by (simp add: dot_stuff_def dot_stuff_from_lines split: list.split)

text \<open>Whole lines: one LF, at the end.\<close>

definition full_line :: "bytes \<Rightarrow> bool" where
  "full_line l \<longleftrightarrow> (\<exists>x. l = x @ [LF] \<and> LF \<notin> set x)"

lemma lines_of_full: "\<forall>l \<in> set ls. full_line l \<Longrightarrow> lines_of (concat ls) = ls"
proof (induction ls)
  case (Cons l ls)
  then obtain x where l: "l = x @ [LF]" "LF \<notin> set x" by (auto simp: full_line_def)
  have no: "\<forall>b \<in> set x. \<not> (=) LF b" using l(2) by metis
  show ?case using split_inclusive_Cons_no [OF no, of LF "concat ls"] Cons l(1) by simp
qed simp

lemma full_lines_of: "s = [] \<or> last s = LF \<Longrightarrow> \<forall>l \<in> set (lines_of s). full_line l"
proof (induction s rule: length_induct)
  case (1 s)
  show ?case
  proof (cases "s = []")
    case False
    then have "LF \<in> set s" using 1(2) last_in_set by fastforce
    then obtain x t where s: "s = x @ LF # t" "LF \<notin> set x" using split_list_first by fastforce
    have no: "\<forall>b \<in> set x. \<not> (=) LF b" using s(2) by metis
    have "t = [] \<or> last t = LF" using 1(2) s(1) by (cases t) simp_all
    then have "\<forall>l \<in> set (lines_of t). full_line l" using 1(1) [rule_format, of t] s(1) by simp
    moreover have "full_line (x @ [LF])" unfolding full_line_def using s(2) by blast
    ultimately show ?thesis using split_inclusive_Cons_no [OF no, of LF t] s(1) by simp
  qed simp
qed

lemma full_stuff_line: "full_line l \<Longrightarrow> full_line (stuff_line l)"
proof -
  assume "full_line l"
  then obtain x where l: "l = x @ [LF]" "LF \<notin> set x" by (auto simp: full_line_def)
  show ?thesis
  proof (cases "hd l = DOT")
    case True
    have "stuff_line l = (DOT # x) @ [LF]" "LF \<notin> set (DOT # x)" using True l by (simp_all add: stuff_line_def)
    then show ?thesis unfolding full_line_def by blast
  next
    case False
    then show ?thesis using \<open>full_line l\<close> by (simp add: stuff_line_def)
  qed
qed

lemma lines_of_dot_stuff: "s = [] \<or> last s = LF \<Longrightarrow> lines_of (dot_stuff s) = map stuff_line (lines_of s)"
proof -
  assume "s = [] \<or> last s = LF"
  from full_lines_of [OF this] have "\<forall>l \<in> set (map stuff_line (lines_of s)). full_line l"
    using full_stuff_line by auto
  from lines_of_full [OF this] show ?thesis by (simp add: dot_stuff_lines)
qed


section \<open>Folded values\<close>

fun value_ok :: "bytes \<Rightarrow> bool" where
  "value_ok [] = True"
| "value_ok (b # s) =
     (value_ok s \<and> (b = LF \<longrightarrow> s \<noteq> [] \<and> (hd s = SP \<or> hd s = TAB)) \<and> (b = CR \<longrightarrow> s \<noteq> [] \<and> hd s = LF))"

lemma get_Suc [simp]: "get (b # s) (Suc i) = get s i"
  by (simp add: get_def)

lemma get_0: "get s 0 = (if s = [] then None else Some (hd s))"
  by (cases s) (simp_all add: get_def)

lemma folds_at_Suc [simp]: "folds_at (b # s) (Suc i) = folds_at s i"
  by (simp add: folds_at_def Let_def)

lemma folds_at_0:
  assumes "value_ok s"
  shows "folds_at (b # s) 0 = (if b = CR then s \<noteq> [] \<and> hd s = LF else s \<noteq> [] \<and> (hd s = SP \<or> hd s = TAB))"
proof (cases "b = CR")
  case True
  show ?thesis
  proof (cases s)
    case (Cons c t)
    then have "get (b # s) (Suc (Suc 0)) = (if t = [] then None else Some (hd t))" by (simp add: get_0)
    then show ?thesis using True Cons assms by (auto simp: folds_at_def Let_def get_0 numeral_2_eq_2)
  qed (simp add: folds_at_def True get_def)
next
  case False
  then show ?thesis by (auto simp: folds_at_def Let_def get_0)
qed

lemma value_ok_iff:
  "value_ok s \<longleftrightarrow> (\<forall>i < length s. (s ! i = CR \<or> s ! i = LF) \<longrightarrow> folds_at s i)"
proof (induction s)
  case (Cons b s)
  have "(\<forall>i < length (b # s). ((b # s) ! i = CR \<or> (b # s) ! i = LF) \<longrightarrow> folds_at (b # s) i) \<longleftrightarrow>
    ((b = CR \<or> b = LF) \<longrightarrow> folds_at (b # s) 0) \<and> value_ok s"
    unfolding Cons.IH by (simp add: All_less_Suc2)
  then show ?case using folds_at_0 [of s b] by (cases "value_ok s") (auto simp del: Cons.IH)
qed simp

text \<open>A name that stands for a header of its own, and a header that is relayed.\<close>

definition name_ok :: "bytes \<Rightarrow> bool" where
  "name_ok n \<longleftrightarrow> n \<noteq> [] \<and> (\<forall>b \<in> set n. b \<noteq> CHR '':'' \<and> \<not> is_perl_space b)"

lemma break_space: "is_perl_space CR" "is_perl_space LF"
  by (simp_all add: is_perl_space_def)

lemma assert_header_relayable_iff:
  "assert_header_relayable hs = Inr () \<longleftrightarrow> (\<forall>h \<in> set hs. name_ok (rh_name h) \<and> value_ok (rh_value h))"
proof (induction hs)
  case (Cons h hs)
  have e: "list_ex (\<lambda>b. b = CR \<or> b = LF \<or> b = CHR '':'' \<or> is_perl_space b) n \<longleftrightarrow>
      (\<exists>b \<in> set n. b = CHR '':'' \<or> is_perl_space b)" for n
    unfolding list_ex_iff by (rule bex_cong [OF refl]) (auto simp: is_perl_space_def)
  have n: "(rh_name h = [] \<or> list_ex (\<lambda>b. b = CR \<or> b = LF \<or> b = CHR '':'' \<or> is_perl_space b) (rh_name h)) \<longleftrightarrow>
      \<not> name_ok (rh_name h)"
    unfolding e name_ok_def by blast
  have v: "list_ex (\<lambda>i. (rh_value h ! i = CR \<or> rh_value h ! i = LF) \<and> \<not> folds_at (rh_value h) i)
      [0..<length (rh_value h)] \<longleftrightarrow> \<not> value_ok (rh_value h)"
    unfolding value_ok_iff list_ex_iff by auto
  show ?case unfolding assert_header_relayable.simps n v using Cons.IH by simp
qed simp

fun folded :: "bytes \<Rightarrow> bool" where
  "folded [] = True"
| "folded (b # s) = (folded s \<and> (b = LF \<longrightarrow> s = [] \<or> hd s = SP \<or> hd s = TAB))"

lemma crlf_from_hd: "s \<noteq> [] \<Longrightarrow> hd s \<noteq> LF \<Longrightarrow> crlf_from cr s \<noteq> [] \<and> hd (crlf_from cr s) = hd s"
  by (cases s) simp_all

lemma crlf_from_last: "s \<noteq> [] \<Longrightarrow> crlf_from cr s \<noteq> [] \<and> last (crlf_from cr s) = last s"
proof (induction s arbitrary: cr)
  case (Cons b s)
  then show ?case by (cases "s = []") simp_all
qed simp

lemma folded_value: "value_ok v \<Longrightarrow> folded (crlf_from cr v @ CRLF)"
proof (induction v arbitrary: cr)
  case (Cons b v)
  have ih: "folded (crlf_from c v @ CRLF)" for c using Cons by simp
  show ?case
  proof (cases "b = LF")
    case True
    then have "v \<noteq> []" "hd v = SP \<or> hd v = TAB" using Cons.prems by simp_all
    then have "crlf_from False v \<noteq> [] \<and> hd (crlf_from False v) = hd v" using crlf_from_hd [of v] by auto
    then show ?thesis using ih [of False] True \<open>hd v = SP \<or> hd v = TAB\<close> by simp
  next
    case False
    then show ?thesis using ih by simp
  qed
qed simp

lemma folded_append: "LF \<notin> set a \<Longrightarrow> folded (a @ s) = folded s"
  by (induction a) auto

lemma folded_lines:
  assumes "folded s" "s \<noteq> []"
  shows "\<exists>l ls. lines_of s = l # ls \<and> l \<noteq> [] \<and> hd l = hd s \<and> (\<forall>x \<in> set ls. x \<noteq> [] \<and> (hd x = SP \<or> hd x = TAB))"
  using assms
proof (induction s)
  case (Cons b s)
  show ?case
  proof (cases "s = []")
    case False
    with Cons obtain l ls where ls: "lines_of s = l # ls" "l \<noteq> []" "hd l = hd s"
      "\<forall>x \<in> set ls. x \<noteq> [] \<and> (hd x = SP \<or> hd x = TAB)" by auto
    show ?thesis
    proof (cases "b = LF")
      case True
      with ls False Cons.prems show ?thesis by simp
    next
      case False
      with ls show ?thesis by simp
    qed
  qed simp
qed simp


section \<open>Reading the block back\<close>

definition wire_header :: "raw_header \<Rightarrow> bytes" where
  "wire_header h = rh_name h @ '': '' @ crlf_norm (rh_value h) @ CRLF"

text \<open>What a reader makes of a header as it is written: the value, behind the space, with its breaks CRLF.\<close>

definition as_read :: "raw_header \<Rightarrow> raw_header" where
  "as_read h = \<lparr>rh_name = rh_name h, rh_value = perl_header_value (SP # crlf_norm (rh_value h))\<rparr>"

abbreviation relayable_header :: "raw_header \<Rightarrow> bool" where
  "relayable_header h \<equiv> name_ok (rh_name h) \<and> value_ok (rh_value h)"

lemma crlf_norm_header:
  assumes "relayable_header h"
  shows "crlf_norm (header_text h) = wire_header h"
proof -
  have no: "LF \<notin> set (rh_name h @ '': '')" using assms break_space by (auto simp: name_ok_def)
  have "crlf_norm (header_text h) = crlf_from False ((rh_name h @ '': '') @ rh_value h @ CRLF)"
    by (simp add: header_text_def crlf_norm_def)
  also have "\<dots> = (rh_name h @ '': '') @ crlf_from False (rh_value h @ CRLF)"
    by (simp only: crlf_from_append [of False "rh_name h @ '': ''"] crlf_from_no_LF [OF no]) (simp add: ends_cr_def)
  also have "crlf_from False (rh_value h @ CRLF) = crlf_norm (rh_value h) @ CRLF"
    by (simp add: crlf_from_append crlf_norm_def)
  finally show ?thesis by (simp add: wire_header_def)
qed

lemma crlf_norm_append_LF: "s = [] \<or> last s = LF \<Longrightarrow> crlf_norm (s @ t) = crlf_norm s @ crlf_norm t"
  by (auto simp: crlf_norm_append ends_cr_def) (simp_all add: crlf_norm_def)

lemma crlf_norm_headers:
  "\<forall>h \<in> set hs. relayable_header h \<Longrightarrow>
   crlf_norm (concat (map header_text hs) @ CRLF) = concat (map wire_header hs) @ CRLF"
proof (induction hs)
  case Nil
  then show ?case by (simp add: crlf_norm_def)
next
  case (Cons h hs)
  have "last (header_text h) = LF" by (simp add: header_text_def)
  then show ?case using Cons crlf_norm_append_LF [of "header_text h"] crlf_norm_header [of h] by simp
qed

lemma wire_header_lines:
  assumes "relayable_header h"
  shows "\<exists>l ls. lines_of (wire_header h) = l # ls \<and> l \<noteq> [] \<and> hd l = hd (rh_name h) \<and>
    (\<forall>x \<in> set ls. x \<noteq> [] \<and> (hd x = SP \<or> hd x = TAB))"
proof -
  have no: "LF \<notin> set (rh_name h @ '': '')" using assms break_space by (auto simp: name_ok_def)
  have "folded (wire_header h)"
    using folded_append [OF no] folded_value assms unfolding wire_header_def crlf_norm_def by simp
  moreover have "wire_header h \<noteq> []" "hd (wire_header h) = hd (rh_name h)"
    using assms by (simp_all add: wire_header_def name_ok_def)
  ultimately show ?thesis using folded_lines by metis
qed

lemma wire_header_last: "wire_header h \<noteq> [] \<and> last (wire_header h) = LF"
  by (simp add: wire_header_def)

lemma lines_of_headers: "lines_of (concat (map wire_header hs) @ t) = concat (map (\<lambda>h. lines_of (wire_header h)) hs) @ lines_of t"
proof (induction hs)
  case (Cons h hs)
  then show ?case using split_inclusive_append [of "wire_header h" "(=) LF"] wire_header_last [of h] by simp
qed simp

lemma wire_line_start:
  assumes "relayable_header h" "l \<in> set (lines_of (wire_header h))"
  shows "l \<noteq> [] \<and> hd l \<noteq> CR \<and> hd l \<noteq> LF"
proof -
  have "hd (rh_name h) \<noteq> CR" "hd (rh_name h) \<noteq> LF"
    using assms(1) break_space hd_in_set by (fastforce simp: name_ok_def)+
  then show ?thesis using wire_header_lines [OF assms(1)] assms(2) by fastforce
qed

lemma stuffed_header_line:
  assumes "l \<noteq> []" "hd l \<noteq> CR" "hd l \<noteq> LF"
  shows "header_line (stuff_line l)"
proof -
  obtain b r where l: "l = b # r" using assms(1) by (cases l) simp_all
  show ?thesis using assms unfolding l header_line_def is_terminator_def is_empty_line_def stuff_line_def
    by (cases "b = DOT") simp_all
qed

text \<open>The fold of \<open>parse_headers\<close> puts a header together again.\<close>

lemma fold_lines_continue:
  "\<forall>x \<in> set ls. continuation x \<Longrightarrow> fold_lines (acc @ [y]) (ls @ rest) = fold_lines (acc @ [y @ concat ls]) rest"
proof (induction ls arbitrary: y)
  case (Cons l ls)
  then show ?case using Cons.IH [of "y @ l"] by simp
qed simp

lemma fold_lines_groups:
  assumes "\<forall>h \<in> set hs. relayable_header h"
  shows "fold_lines acc (concat (map (\<lambda>h. lines_of (wire_header h)) hs)) = acc @ map wire_header hs"
  using assms
proof (induction hs arbitrary: acc)
  case (Cons h hs)
  then have h: "relayable_header h" by simp
  obtain l ls where ls: "lines_of (wire_header h) = l # ls" "l \<noteq> []" "hd l = hd (rh_name h)"
    "\<forall>x \<in> set ls. x \<noteq> [] \<and> (hd x = SP \<or> hd x = TAB)" using wire_header_lines [OF h] by blast
  have "\<not> is_perl_space (hd (rh_name h))" using h hd_in_set by (auto simp: name_ok_def)
  then have "\<not> continuation l" using ls(3) by (auto simp: continuation_def is_perl_space_def)
  moreover have "\<forall>x \<in> set ls. continuation x" using ls(4) by (auto simp: continuation_def)
  moreover have "l @ concat ls = wire_header h" using concat_split_inclusive [of "(=) LF" "wire_header h"] ls(1) by simp
  ultimately have "fold_lines acc (lines_of (wire_header h) @ rest) = fold_lines (acc @ [wire_header h]) rest" for rest
    using fold_lines_continue [of ls acc l] ls(1) by simp
  then show ?case using Cons by simp
qed simp

lemma value_ok_last: "value_ok v \<Longrightarrow> v \<noteq> [] \<Longrightarrow> \<not> is_break (last v)"
  by (induction v) (auto simp: is_break_def split: if_splits)

lemma parse_wire_header:
  assumes "relayable_header h"
  shows "parse_header (wire_header h) = Some (as_read h)"
proof -
  let ?v = "crlf_norm (rh_value h)" and ?n = "rh_name h"
  have "\<forall>b \<in> set CRLF. is_break b" by (simp add: is_break_def)
  then have "trim_end_breaks (wire_header h) = trim_end_breaks (?n @ '': '' @ ?v)"
    using trim_end_matches_append_all [of CRLF is_break "?n @ '': '' @ ?v"]
    by (simp add: trim_end_breaks_def wire_header_def)
  also have "\<dots> = ?n @ '': '' @ ?v"
  proof -
    have "\<not> is_break (last (?n @ '': '' @ ?v))"
    proof (cases "rh_value h = []")
      case True
      then show ?thesis by (simp add: crlf_norm_def is_break_def)
    next
      case False
      then show ?thesis
        using crlf_from_last [of "rh_value h" False] value_ok_last [of "rh_value h"] assms by (simp add: crlf_norm_def)
    qed
    then show ?thesis unfolding trim_end_breaks_def by (intro trim_end_matches_id) simp
  qed
  finally have t: "trim_end_breaks (wire_header h) = ?n @ '': '' @ ?v" .
  have no: "\<forall>b \<in> set ?n. b \<noteq> CHR '':''" using assms by (simp add: name_ok_def)
  have p: "position (\<lambda>b. b = CHR '':'') (?n @ CHR '':'' # SP # ?v) = Some (length ?n)"
    unfolding position_Some using no by (auto simp: nth_append)
  show ?thesis using assms unfolding parse_header_def t Let_def by (simp add: p as_read_def name_ok_def)
qed

lemma map_filter_all_Some: "\<forall>x \<in> set xs. f (g x) = Some (k x) \<Longrightarrow> List.map_filter f (map g xs) = map k xs"
  by (induction xs) (simp_all add: List.map_filter_simps)

lemma parse_headers_wire:
  assumes "\<forall>h \<in> set hs. relayable_header h"
  shows "parse_headers (concat (map wire_header hs)) = map as_read hs"
proof -
  have "lines_of (concat (map wire_header hs)) = concat (map (\<lambda>h. lines_of (wire_header h)) hs)"
    using lines_of_headers [of hs "[]"] by simp
  then show ?thesis
    unfolding parse_headers_def using fold_lines_groups [OF assms, of "[]"] parse_wire_header assms
    by (simp add: map_filter_all_Some)
qed

lemma header_block_lines:
  assumes "\<forall>h \<in> set hs. relayable_header h"
  shows "lines_of (header_block hs) =
    map stuff_line (concat (map (\<lambda>h. lines_of (wire_header h)) hs)) @ [CRLF]"
proof -
  have "header_block hs = dot_stuff (concat (map wire_header hs) @ CRLF)"
    by (simp only: header_block_def normalize_breaks_crlf_norm crlf_norm_headers [OF assms])
  then show ?thesis
    using lines_of_dot_stuff [of "concat (map wire_header hs) @ CRLF"] lines_of_headers [of hs CRLF]
    by (simp add: stuff_line_def)
qed

lemma header_block_header_lines:
  assumes "\<forall>h \<in> set hs. relayable_header h"
  shows "\<forall>l \<in> set (map stuff_line (concat (map (\<lambda>h. lines_of (wire_header h)) hs))). header_line l"
  using wire_line_start stuffed_header_line assms by fastforce

text \<open>
  C4. What the proxy writes is what it meant: read by a receiver (here the project's own collector and
  header parser), the block of headers that passed \<open>assert_header_relayable\<close> ends at its last line and not
  before, and is the list of those headers, in order, each with its own name and its own value, the breaks
  of its folds made CRLF. No value of the client or of the API can forge a header, a body or the end of
  the message.
\<close>

theorem header_block_roundtrip:
  assumes "assert_header_relayable hs = Inr ()"
  shows "\<exists>block. (\<forall>n. length block \<le> n \<longrightarrow>
      (\<exists>c. collect (lines_of (header_block hs)) (collector_new n) = (Some (Complete block), [], c))) \<and>
    parse_headers block = map as_read hs"
proof -
  have ok: "\<forall>h \<in> set hs. relayable_header h" using assms by (simp add: assert_header_relayable_iff)
  let ?ls = "concat (map (\<lambda>h. lines_of (wire_header h)) hs)"
  let ?b = "concat (map wire_header hs)"
  have b: "concat (map unstuff (map stuff_line ?ls)) = ?b"
  proof -
    have "concat (concat (map (\<lambda>h. lines_of (wire_header h)) hs)) = concat (map wire_header hs)"
      by (induction hs) simp_all
    then show ?thesis by (simp add: comp_def)
  qed
  have "\<exists>c. collect (lines_of (header_block hs)) (collector_new n) = (Some (Complete ?b), [], c)"
    if "length ?b \<le> n" for n
  proof -
    have new: "collector_new n = holding n []" by (simp add: collector_new_def holding_def)
    have "collect (map stuff_line ?ls @ [CRLF]) (holding n []) = collect [CRLF] (holding n ([] @ ?b))"
      using collect_lines_fit [OF header_block_header_lines [OF ok], of "[]" n "[CRLF]"] that b by simp
    moreover have "\<not> is_terminator CRLF" "is_empty_line CRLF" by (simp_all add: is_terminator_def is_empty_line_def)
    ultimately show ?thesis unfolding header_block_lines [OF ok] new by (simp add: push_line_def)
  qed
  with parse_headers_wire [OF ok] show ?thesis by blast
qed

theorem header_block_roundtrip_witness:
  "\<exists>block. parse_headers block = [\<lparr>rh_name = ''.A'', rh_value = ''b'' @ CRLF @ '' c''\<rparr>] \<and>
     (\<exists>c. collect (lines_of (''..A: b'' @ CRLF @ '' c'' @ CRLF @ CRLF)) (collector_new (length block)) =
        (Some (Complete block), [], c))"
proof -
  let ?hs = "[\<lparr>rh_name = ''.A'', rh_value = ''b'' @ [LF] @ '' c''\<rparr>]"
  have h: "assert_header_relayable ?hs = Inr ()" by code_simp
  have "header_block ?hs = ''..A: b'' @ CRLF @ '' c'' @ CRLF @ CRLF" by code_simp
  moreover have "map as_read ?hs = [\<lparr>rh_name = ''.A'', rh_value = ''b'' @ CRLF @ '' c''\<rparr>]" by code_simp
  ultimately show ?thesis using header_block_roundtrip [OF h] by (metis order_refl)
qed

lemma perl_header_value_strip: "s \<noteq> [] \<Longrightarrow> \<not> is_perl_space (hd s) \<Longrightarrow> perl_header_value (SP # s) = s"
  by (cases s) (simp_all add: perl_header_value_def is_perl_space_def)

lemma parse_header_value:
  assumes "parse_header l = Some h"
  shows "rh_value h \<noteq> [] \<and> (\<not> is_perl_space (hd (rh_value h)) \<or>
    (\<exists>b. rh_value h = [b] \<and> is_perl_space b \<and> \<not> is_break b))"
proof -
  let ?l = "trim_end_breaks l"
  obtain i where i: "i + 1 < length ?l" "rh_value h = perl_header_value (drop (i + 1) ?l)"
    using assms unfolding parse_header_def Let_def by (auto split: option.splits if_splits)
  let ?r = "drop (i + 1) ?l"
  have r: "?r \<noteq> []" "last ?r = last ?l" using i(1) by (simp_all add: last_drop)
  have nb: "\<not> is_break (last ?r)"
    using trim_end_matches_last [of is_break l] r i(1) unfolding trim_end_breaks_def by force
  show ?thesis
  proof (cases "position (\<lambda>b. \<not> is_perl_space b) ?r")
    case None
    then have "is_perl_space (last ?r)" using r(1) last_in_set [of ?r] by (simp add: position_None)
    then show ?thesis using None r(1) nb unfolding i(2) perl_header_value_def by auto
  next
    case (Some k)
    then have k: "k < length ?r" "\<not> is_perl_space (?r ! k)" unfolding position_Some by blast+
    have "rh_value h = drop k ?r" using Some unfolding i(2) perl_header_value_def by simp
    moreover have "drop k ?r \<noteq> []" using k(1) by simp
    ultimately show ?thesis using k(2) hd_drop_conv_nth [OF k(1)] by metis
  qed
qed

text \<open>
  What a line of a client says, its folds included: a name without a colon, the colon, white space, a value that
  ends in no line break, and line breaks. The white space is all there is in front of the value, unless the value is
  itself one such byte, because there is nothing else.
\<close>

definition header_said :: "bytes \<Rightarrow> raw_header \<Rightarrow> bool" where
  "header_said l h \<longleftrightarrow>
     (\<exists>ws e. l = rh_name h @ [CHR '':''] @ ws @ rh_value h @ e \<and>
        rh_name h \<noteq> [] \<and> CHR '':'' \<notin> set (rh_name h) \<and>
        (\<forall>b \<in> set ws. is_perl_space b) \<and> (\<forall>b \<in> set e. is_break b) \<and>
        rh_value h \<noteq> [] \<and> \<not> is_break (last (rh_value h)) \<and>
        (\<not> is_perl_space (hd (rh_value h)) \<or> length (rh_value h) = 1))"

lemma perl_header_value_split:
  assumes "rest \<noteq> []"
  shows "\<exists>ws. rest = ws @ perl_header_value rest \<and> (\<forall>b \<in> set ws. is_perl_space b)"
proof (cases "position (\<lambda>b. \<not> is_perl_space b) rest")
  case None
  then have "\<forall>b \<in> set rest. is_perl_space b" by (simp add: position_None)
  then show ?thesis using None assms
    by (intro exI [of _ "butlast rest"]) (auto simp: perl_header_value_def dest: in_set_butlastD)
next
  case (Some k)
  then have "\<forall>b \<in> set (take k rest). is_perl_space b" by (auto simp: position_Some in_set_conv_nth)
  then show ?thesis using Some by (intro exI [of _ "take k rest"]) (simp add: perl_header_value_def)
qed

lemma parse_header_said:
  assumes "parse_header l = Some h"
  shows "header_said l h"
proof -
  let ?l = "trim_end_breaks l"
  obtain i where i: "position (\<lambda>b. b = CHR '':'') ?l = Some i" "0 < i" "i + 1 < length ?l"
    "rh_name h = take i ?l" "rh_value h = perl_header_value (drop (i + 1) ?l)"
    using assms unfolding parse_header_def Let_def by (auto split: option.splits if_splits)
  let ?r = "drop (i + 1) ?l"
  obtain e where e: "l = ?l @ e" "\<forall>b \<in> set e. is_break b"
    using trim_end_matches_prefix [of l is_break] unfolding trim_end_breaks_def by blast
  have r: "?r \<noteq> []" using i(3) by simp
  obtain ws where ws: "?r = ws @ rh_value h" "\<forall>b \<in> set ws. is_perl_space b"
    using perl_header_value_split [OF r] i(5) by auto
  have p: "i < length ?l" "?l ! i = CHR '':''" "\<forall>j < i. ?l ! j \<noteq> CHR '':''" using i(1) by (simp_all add: position_Some)
  have "?l = take i ?l @ [CHR '':''] @ ?r" using id_take_nth_drop [OF p(1)] p(2) by simp
  then have l: "l = rh_name h @ [CHR '':''] @ ws @ rh_value h @ e" using e(1) i(4) ws(1) by (metis append_assoc)
  note v = parse_header_value [OF assms]
  have "last (rh_value h) = last ?l" using ws(1) r v i(3) by (metis last_append last_drop not_less)
  then have nb: "\<not> is_break (last (rh_value h))"
    using trim_end_matches_last [of is_break l] i(3) unfolding trim_end_breaks_def by force
  have c: "CHR '':'' \<notin> set (rh_name h)" using p(1,3) by (auto simp: i(4) in_set_conv_nth)
  have n: "rh_name h \<noteq> []" using i(2,4) p(1) by auto
  show ?thesis unfolding header_said_def using l e(2) ws(2) v nb c n by (intro exI [of _ ws] exI [of _ e]) auto
qed

lemma said_parse_header:
  assumes "header_said l h"
  shows "parse_header l = Some h"
proof -
  obtain ws e where l: "l = rh_name h @ [CHR '':''] @ ws @ rh_value h @ e" and n: "rh_name h \<noteq> []" "CHR '':'' \<notin> set (rh_name h)"
    and ws: "\<forall>b \<in> set ws. is_perl_space b" and e: "\<forall>b \<in> set e. is_break b" and v: "rh_value h \<noteq> []" "\<not> is_break (last (rh_value h))"
    and hv: "\<not> is_perl_space (hd (rh_value h)) \<or> length (rh_value h) = 1"
    using assms unfolding header_said_def by blast
  let ?t = "rh_name h @ [CHR '':''] @ ws @ rh_value h"
  have "trim_end_breaks l = trim_end_breaks ?t"
    using trim_end_matches_append_all [OF e, of ?t] unfolding trim_end_breaks_def l by simp
  also have "\<dots> = ?t" unfolding trim_end_breaks_def using v by (intro trim_end_matches_id) simp
  finally have t: "trim_end_breaks l = rh_name h @ CHR '':'' # ws @ rh_value h" by simp
  have no: "\<forall>b \<in> set (rh_name h). b \<noteq> CHR '':''" using n(2) by metis
  have p: "position (\<lambda>b. b = CHR '':'') (rh_name h @ CHR '':'' # ws @ rh_value h) = Some (length (rh_name h))"
    unfolding position_Some using no by (auto simp: nth_append)
  have "perl_header_value (ws @ rh_value h) = rh_value h"
  proof (cases "is_perl_space (hd (rh_value h))")
    case False
    have "position (\<lambda>b. \<not> is_perl_space b) (ws @ rh_value h) = Some (length ws)"
      unfolding position_Some using ws v(1) False by (auto simp: nth_append hd_conv_nth)
    then show ?thesis by (simp add: perl_header_value_def)
  next
    case True
    then obtain b where b: "rh_value h = [b]" "is_perl_space b" using hv by (cases "rh_value h") auto
    then have "position (\<lambda>b. \<not> is_perl_space b) (ws @ rh_value h) = None" using ws by (auto simp: position_None)
    then show ?thesis using b by (simp add: perl_header_value_def)
  qed
  then show ?thesis using n(1) v(1) unfolding parse_header_def t Let_def by (simp add: p)
qed

lemma parse_header_iff: "parse_header l = Some h \<longleftrightarrow> header_said l h"
  using parse_header_said said_parse_header by blast

text \<open>How the lines of a block belong together: a line and the continuations behind it.\<close>

definition folded_group :: "bytes list \<Rightarrow> bool" where
  "folded_group g \<longleftrightarrow> g \<noteq> [] \<and> (\<forall>l \<in> set (tl g). continuation l)"

lemma fold_lines_split:
  "raws = [] \<or> acc = [] \<or> \<not> continuation (hd raws) \<Longrightarrow>
   \<exists>gs. raws = concat gs \<and> (\<forall>g \<in> set gs. folded_group g) \<and> (\<forall>g \<in> set (tl gs). \<not> continuation (hd g)) \<and>
     fold_lines acc raws = acc @ map concat gs"
proof (induction raws arbitrary: acc rule: length_induct)
  case (1 raws)
  show ?case
  proof (cases raws)
    case Nil
    then show ?thesis by (intro exI [of _ "[]"]) simp
  next
    case (Cons r rs)
    let ?g = "r # takeWhile continuation rs" and ?rest = "dropWhile continuation rs"
    have t: "\<forall>x \<in> set (takeWhile continuation rs). continuation x" by (auto dest: set_takeWhileD)
    have h: "?rest = [] \<or> \<not> continuation (hd ?rest)" using hd_dropWhile by blast
    have "length ?rest < length raws" using Cons length_dropWhile_le [of continuation rs] by simp
    then obtain gs where gs: "?rest = concat gs" "\<forall>g \<in> set gs. folded_group g" "\<forall>g \<in> set (tl gs). \<not> continuation (hd g)"
      "fold_lines (acc @ [concat ?g]) ?rest = (acc @ [concat ?g]) @ map concat gs"
      using "1.IH" [rule_format, of ?rest "acc @ [concat ?g]"] h by blast
    have "fold_lines acc raws = fold_lines (acc @ [r]) (takeWhile continuation rs @ ?rest)"
      using Cons "1.prems" by auto
    also have "\<dots> = fold_lines (acc @ [concat ?g]) ?rest" using fold_lines_continue [OF t, of acc r ?rest] by simp
    finally have f: "fold_lines acc raws = acc @ map concat (?g # gs)" using gs(4) by simp
    have "\<not> continuation (hd g)" if "g \<in> set gs" for g
    proof (cases gs)
      case (Cons g0 gs')
      have "g0 \<noteq> []" using gs(2) Cons by (simp add: folded_group_def)
      then have "hd ?rest = hd g0" "?rest \<noteq> []" using gs(1) Cons by simp_all
      then show ?thesis using that h gs(3) Cons by auto
    qed (use that in simp)
    moreover have "raws = concat (?g # gs)" using Cons gs(1) takeWhile_dropWhile_id [of continuation rs] by simp
    moreover have "folded_group ?g" using t by (simp add: folded_group_def)
    ultimately show ?thesis using gs(2) f by (intro exI [of _ "?g # gs"]) simp
  qed
qed

lemma map_filter_option_list: "List.map_filter f xs = concat (map (\<lambda>x. case f x of Some y \<Rightarrow> [y] | None \<Rightarrow> []) xs)"
  by (induction xs) (simp_all add: List.map_filter_simps split: option.split)

text \<open>The space that is written before a value is the space that the parser strips.\<close>

lemma as_read_said:
  assumes "header_said l h"
  shows "as_read h = h\<lparr>rh_value := crlf_norm (rh_value h)\<rparr>"
proof -
  let ?v = "rh_value h"
  have v: "?v \<noteq> []" "\<not> is_break (last ?v)" "\<not> is_perl_space (hd ?v) \<or> length ?v = 1"
    using assms unfolding header_said_def by blast+
  have "perl_header_value (SP # crlf_norm ?v) = crlf_norm ?v"
  proof (cases "is_perl_space (hd ?v)")
    case False
    then have "hd ?v \<noteq> LF" using break_space by metis
    then have "crlf_norm ?v \<noteq> [] \<and> hd (crlf_norm ?v) = hd ?v" using v(1) unfolding crlf_norm_def by (rule crlf_from_hd [rotated])
    then show ?thesis using False by (simp add: perl_header_value_strip)
  next
    case True
    then obtain c where c: "?v = [c]" "is_perl_space c" "\<not> is_break c" using v by (cases ?v) auto
    then have "crlf_norm ?v = [c]" by (simp add: crlf_norm_def is_break_def)
    then show ?thesis using c by (simp add: perl_header_value_def is_perl_space_def)
  qed
  then show ?thesis by (simp add: as_read_def)
qed

text \<open>
  C25. The headers of a client are what it wrote. Its block falls into lines, each with the continuation lines behind
  it; each of these groups gives, in order, the header it says, with the name and the value it has to the byte,
  folds included, and no header when it says none; there are no other headers. And a value that is relayed comes out
  of the wire form again as the client wrote it, but for the breaks of its folds, which become CRLF.
\<close>

theorem client_header_kept:
  "\<exists>gs rs. lines_of b = concat gs \<and> (\<forall>g \<in> set gs. folded_group g) \<and> (\<forall>g \<in> set (tl gs). \<not> continuation (hd g)) \<and>
     parse_headers b = concat rs \<and>
     list_all2 (\<lambda>g r. (\<exists>h. r = [h] \<and> header_said (concat g) h \<and> as_read h = h\<lparr>rh_value := crlf_norm (rh_value h)\<rparr>) \<or>
                      r = [] \<and> (\<forall>h. \<not> header_said (concat g) h)) gs rs"
proof -
  obtain gs where gs: "lines_of b = concat gs" "\<forall>g \<in> set gs. folded_group g" "\<forall>g \<in> set (tl gs). \<not> continuation (hd g)"
    "fold_lines [] (lines_of b) = map concat gs" using fold_lines_split [of "lines_of b" "[]"] by auto
  let ?r = "\<lambda>g. case parse_header (concat g) of Some y \<Rightarrow> [y] | None \<Rightarrow> []"
  have p: "parse_headers b = concat (map ?r gs)"
    unfolding parse_headers_def gs(4) map_filter_option_list by (simp add: comp_def)
  have "(\<exists>h. ?r g = [h] \<and> header_said (concat g) h \<and> as_read h = h\<lparr>rh_value := crlf_norm (rh_value h)\<rparr>) \<or>
      ?r g = [] \<and> (\<forall>h. \<not> header_said (concat g) h)" for g
    using as_read_said by (cases "parse_header (concat g)") (auto simp: parse_header_iff [symmetric])
  then have "list_all2 (\<lambda>g r. (\<exists>h. r = [h] \<and> header_said (concat g) h \<and> as_read h = h\<lparr>rh_value := crlf_norm (rh_value h)\<rparr>) \<or>
      r = [] \<and> (\<forall>h. \<not> header_said (concat g) h)) gs (map ?r gs)"
    by (simp add: list.rel_map list.rel_refl)
  then show ?thesis using gs(1-3) p by blast
qed

text \<open>A block with a folded header, a line without a colon, and a header whose value is white space.\<close>

theorem client_header_kept_witness:
  "\<exists>gs rs. lines_of (''A:  b'' @ CRLF @ '' c'' @ CRLF @ ''x'' @ CRLF @ ''D:  '' @ CRLF) = concat gs \<and>
     concat rs = [\<lparr>rh_name = ''A'', rh_value = ''b'' @ CRLF @ '' c''\<rparr>, \<lparr>rh_name = ''D'', rh_value = '' ''\<rparr>] \<and>
     list_all2 (\<lambda>g r. (\<exists>h. r = [h] \<and> header_said (concat g) h) \<or> r = []) gs rs"
proof -
  let ?b = "''A:  b'' @ CRLF @ '' c'' @ CRLF @ ''x'' @ CRLF @ ''D:  '' @ CRLF"
  have p: "parse_headers ?b = [\<lparr>rh_name = ''A'', rh_value = ''b'' @ CRLF @ '' c''\<rparr>, \<lparr>rh_name = ''D'', rh_value = '' ''\<rparr>]"
    by code_simp
  obtain gs rs where g: "lines_of ?b = concat gs" "parse_headers ?b = concat rs"
    and r: "list_all2 (\<lambda>g r. (\<exists>h. r = [h] \<and> header_said (concat g) h \<and> as_read h = h\<lparr>rh_value := crlf_norm (rh_value h)\<rparr>) \<or>
                      r = [] \<and> (\<forall>h. \<not> header_said (concat g) h)) gs rs"
    using client_header_kept [of ?b] by blast
  have "list_all2 (\<lambda>g r. (\<exists>h. r = [h] \<and> header_said (concat g) h) \<or> r = []) gs rs"
    using r by (rule list_all2_mono) blast
  then show ?thesis using g(1) g(2) [unfolded p, symmetric] by blast
qed


section \<open>Merging\<close>

abbreviation same_name :: "bytes \<Rightarrow> bytes \<Rightarrow> bool" where
  "same_name \<equiv> eq_ignore_ascii_case"

lemma same_name_cong: "same_name a b \<Longrightarrow> same_name a c = same_name b c"
  using eq_ignore_ascii_case_trans eq_ignore_ascii_case_sym by metis

lemma filter_map_filter:
  "filter P (List.map_filter f xs) = List.map_filter (\<lambda>x. case f x of Some y \<Rightarrow> if P y then Some y else None | None \<Rightarrow> None) xs"
  by (induction xs) (simp_all add: List.map_filter_simps split: option.split)

lemma map_filter_cong: "(\<And>x. x \<in> set xs \<Longrightarrow> f x = g x) \<Longrightarrow> List.map_filter f xs = List.map_filter g xs"
  by (induction xs) (simp_all add: List.map_filter_simps split: option.split)

lemma map_filter_None: "(\<And>x. x \<in> set xs \<Longrightarrow> f x = None) \<Longrightarrow> List.map_filter f xs = []"
  by (induction xs) (simp_all add: List.map_filter_simps)

lemma map_filter_filter:
  "List.map_filter f (filter P xs) = List.map_filter (\<lambda>x. if P x then f x else None) xs"
  by (induction xs) (simp_all add: List.map_filter_simps split: option.split)

text \<open>
  C26. After the merge a name the API mentions, in whatever case, has the values the API gave it, in its
  order, and nothing the client sent; a name it does not mention has what the client sent, in the
  client's order.
\<close>

theorem merge_headers_by_name:
  "filter (\<lambda>h. same_name n (rh_name h)) (merge_headers existing api) =
     (if \<exists>a \<in> set api. same_name n (rs_name a)
      then List.map_filter (\<lambda>a. map_option (\<lambda>v. \<lparr>rh_name = rs_name a, rh_value = v\<rparr>) (rs_value a))
             (filter (\<lambda>a. same_name n (rs_name a)) api)
      else filter (\<lambda>h. same_name n (rh_name h)) existing)"
proof -
  let ?f = "\<lambda>a. map_option (\<lambda>v. \<lparr>rh_name = rs_name a, rh_value = v\<rparr>) (rs_value a)"
  let ?N = "\<lambda>h. same_name n (rh_name h)"
  have new: "filter ?N (List.map_filter ?f api) = List.map_filter ?f (filter (\<lambda>a. same_name n (rs_name a)) api)"
    unfolding filter_map_filter map_filter_filter by (rule map_filter_cong) (simp split: option.split)
  have old: "filter ?N (filter (\<lambda>h. \<not> list_ex (\<lambda>a. same_name (rs_name a) (rh_name h)) api) existing) =
    (if \<exists>a \<in> set api. same_name n (rs_name a) then [] else filter ?N existing)"
  proof -
    have "list_ex (\<lambda>a. same_name (rs_name a) (rh_name h)) api \<longleftrightarrow> (\<exists>a \<in> set api. same_name n (rs_name a))"
      if "?N h" for h
      unfolding list_ex_iff using same_name_cong [OF that] eq_ignore_ascii_case_sym by metis
    then show ?thesis unfolding filter_filter by (cases "\<exists>a \<in> set api. same_name n (rs_name a)")
        (auto simp: filter_empty_conv intro!: filter_cong)
  qed
  have "filter (\<lambda>a. same_name n (rs_name a)) api = []" if "\<not> (\<exists>a \<in> set api. same_name n (rs_name a))"
    using that by (simp add: filter_empty_conv)
  then show ?thesis unfolding merge_headers_def filter_append new old by (simp add: List.map_filter_simps)
qed

theorem merge_headers_by_name_witness:
  "filter (\<lambda>h. same_name ''subject'' (rh_name h))
     (merge_headers [\<lparr>rh_name = ''Subject'', rh_value = ''x''\<rparr>] [\<lparr>rs_name = ''SUBJECT'', rs_value = Some ''y''\<rparr>]) =
   [\<lparr>rh_name = ''SUBJECT'', rh_value = ''y''\<rparr>]"
proof -
  have "List.map_filter (\<lambda>a. map_option (\<lambda>v. \<lparr>rh_name = rs_name a, rh_value = v\<rparr>) (rs_value a))
     (filter (\<lambda>a. same_name ''subject'' (rs_name a)) [\<lparr>rs_name = ''SUBJECT'', rs_value = Some ''y''\<rparr>]) =
     [\<lparr>rh_name = ''SUBJECT'', rh_value = ''y''\<rparr>]" by code_simp
  moreover have "\<exists>a \<in> set [\<lparr>rs_name = ''SUBJECT'', rs_value = Some ''y''\<rparr>]. same_name ''subject'' (rs_name a)"
    by code_simp
  ultimately show ?thesis using merge_headers_by_name by (simp only: if_True)
qed

end
