(* ===== verification/Accepted_Message.thy ===== *)
theory Accepted_Message
  imports Session_Safety Headers
begin

text \<open>
  What it takes for a session to see a message accepted, for every handler: how the bytes a client sends behind
  \<open>DATA\<close> become a header block, a body and a terminator, which of them reach the sink in which writes, and that
  nothing but the sink's own answer to the end of the message counts as its acceptance.
\<close>

section \<open>What the client sends\<close>

text \<open>The bytes a session has not consumed: those in its buffer and those still to arrive.\<close>

definition stream_of :: "bytes \<Rightarrow> read_event list \<Rightarrow> bytes" where
  "stream_of b evs = b @ concat (map arrival evs)"

definition stream :: "'h session \<Rightarrow> bytes" where
  "stream s = stream_of (buf s) (inp s)"

lemma read_chunk_stream: "read_chunk dl evs = (Inr c, evs') \<Longrightarrow> stream_of b evs = stream_of (b @ c) evs'"
  by (cases "(dl, evs)" rule: read_chunk.cases) (auto simp: stream_of_def arrival_def split: if_splits)

lemma fill_line_stream:
  "fill_line dl m b evs = (Inr x, b', evs') \<Longrightarrow>
   (case x of
      Got l \<Rightarrow> full_line l \<and> stream_of b evs = l @ stream_of b' evs'
    | TooLong \<Rightarrow> LF \<notin> set b' \<and> m < length b' \<and> stream_of b evs = stream_of b' evs'
    | Eof \<Rightarrow> True)"
proof (induction dl m b evs rule: fill_line.induct)
  case (1 dl m b evs)
  show ?case
  proof (cases "take_line b")
    case (Some p)
    then obtain l rest where p: "take_line b = Some (l, rest)" by (cases p) auto
    then have x: "x = Got l" "b' = rest" "evs' = evs" using "1.prems" by (auto simp: fill_line.simps [of dl m b])
    obtain y where "l = y @ [LF]" "LF \<notin> set y" "b = l @ rest" using p by (auto simp: take_line_Some)
    then show ?thesis unfolding x by (auto simp: full_line_def stream_of_def)
  next
    case None
    show ?thesis
    proof (cases "m < length b \<or> (\<nexists>c evs1. read_chunk dl evs = (Inr c, evs1) \<and> c \<noteq> [])")
      case True
      then have "x = Eof \<or> x = TooLong \<and> b' = b \<and> evs' = evs \<and> m < length b"
        using None "1.prems"
        by (auto simp: fill_line.simps [of dl m b] split: if_splits prod.splits sum.splits)
      then show ?thesis using None by (auto simp: take_line_None)
    next
      case False
      then obtain c evs1 where c: "read_chunk dl evs = (Inr c, evs1)" "c \<noteq> []" and m: "\<not> m < length b" by auto
      with None "1.prems" have f: "fill_line dl m (b @ c) evs1 = (Inr x, b', evs')"
        by (simp add: fill_line.simps [of dl m b])
      from "1.IH" [OF None m c(1) [symmetric] refl c(2) f] show ?thesis
        using read_chunk_stream [OF c(1), of b] by (cases x) simp_all
    qed
  qed
qed

lemma next_line_stream:
  assumes "next_line E m s = (Inr x, s')"
  shows "x = Got l \<Longrightarrow> full_line l \<and> stream s = l @ stream s'"
    and "x = TooLong \<Longrightarrow> LF \<notin> set (buf s') \<and> m < length (buf s') \<and> stream s = buf s' @ stream (s'\<lparr>buf := []\<rparr>)"
proof -
  obtain b evs where f: "fill_line (deadline E s) m (buf s) (inp s) = (Inr x, b, evs)"
    and s': "s' = s\<lparr>buf := b, inp := evs\<rparr>"
    using assms by (auto simp: next_line_def split: prod.splits)
  note g = fill_line_stream [OF f]
  show "x = Got l \<Longrightarrow> full_line l \<and> stream s = l @ stream s'" using g by (simp add: s' stream_def)
  show "x = TooLong \<Longrightarrow> LF \<notin> set (buf s') \<and> m < length (buf s') \<and> stream s = buf s' @ stream (s'\<lparr>buf := []\<rparr>)"
    using g by (simp add: s' stream_def stream_of_def)
qed

lemma stream_emit [simp]: "stream (emit e s) = stream s"
  by (simp add: stream_def emit_def)


section \<open>The body loop\<close>

fun writes_ok :: "('h, 'k) env \<Rightarrow> bytes list \<Rightarrow> 'k \<Rightarrow> 'k option" where
  "writes_ok E [] k = Some k"
| "writes_ok E (c # cs) k =
     (case k_write (ops E) c k of (Inr _, k') \<Rightarrow> writes_ok E cs k' | (Inl _, _) \<Rightarrow> None)"

lemma op_wf_full: "full_line l \<Longrightarrow> op_wf start (Line l)"
  by (auto simp: full_line_def)

lemma op_wf_long: "LF \<notin> set p \<Longrightarrow> WRITE_CHUNK < length p \<Longrightarrow> op_wf start (Partial p)"
  by (auto simp: WRITE_CHUNK_def)

text \<open>
  One piece of the body: what the framer makes of it keeps the two invariants of the framer, that its
  output is the input normalised and that no line of the input is a terminator.
\<close>

lemma framer_op_invariants:
  assumes "framed w f input" "no_dot_lines (at_line_start f) input" "op_wf (at_line_start f) x"
    "framer_op x f = (p, f')" "p \<noteq> BodyTerminator"
  shows "framed (w @ (case p of Chunk c \<Rightarrow> c | _ \<Rightarrow> [])) f' (input @ op_bytes x)"
    and "no_dot_lines (at_line_start f') (input @ op_bytes x)"
proof -
  have ne: "op_bytes x \<noteq> []" using assms(3) by (cases x) auto
  show "framed (w @ (case p of Chunk c \<Rightarrow> c | _ \<Rightarrow> [])) f' (input @ op_bytes x)"
    using framer_op_framed [OF assms(1) ne] assms(4,5) by (cases p) simp_all
  have st: "at_line_start f' = (case x of Line _ \<Rightarrow> True | Partial _ \<Rightarrow> False)"
    using framer_op_line_start [OF assms(4,5)] .
  show "no_dot_lines (at_line_start f') (input @ op_bytes x)"
  proof (cases x)
    case (Line l)
    then have "at_line_start f \<Longrightarrow> \<not> is_terminator l"
      using assms(4,5) framer_op_terminator [of x f f] by auto
    then show ?thesis using no_dot_lines_line assms(2,3) Line st by simp
  next
    case (Partial q)
    then show ?thesis using no_dot_lines_partial assms(2,3) st by simp
  qed
qed

definition delivered_body ::
  "('h, 'k) env \<Rightarrow> bytes \<Rightarrow> bytes \<Rightarrow> 'h session \<Rightarrow> body_framer \<Rightarrow> 'k \<Rightarrow> 'k \<Rightarrow> 'h session \<Rightarrow> bool" where
  "delivered_body E w input s f k k' s' \<longleftrightarrow>
     (\<exists>body t cs. stream s = body @ t @ stream s' \<and> is_terminator t \<and> writes_ok E cs k = Some k' \<and>
        trace s' = trace s @ map (\<lambda>c. WriteCall c True) cs \<and>
        framed (w @ concat cs) f (input @ body) \<and> no_dot_lines True (input @ body))"

lemma piece_read_stream:
  assumes "piece_read E s x s1"
  shows "stream s = op_bytes x @ stream s1 \<and> op_wf start x"
  using assms
proof cases
  case (whole l)
  then show ?thesis using next_line_stream(1) [OF whole(2)] op_wf_full by simp
next
  case (part s0)
  then show ?thesis using next_line_stream(2) [OF part(3)] op_wf_long by simp
qed

lemma piece_read_trace: "piece_read E s x s1 \<Longrightarrow> trace s1 = trace s"
  by (auto elim!: piece_read.cases dest: next_line_keeps)

text \<open>A piece that does not end the body, in front of the rest.\<close>

lemma delivered_body_Cons:
  assumes "delivered_body E (w @ concat cs) (input @ op_bytes x) s1 f k1 k' s'"
    and "stream s = op_bytes x @ stream s1" "\<And>ds. writes_ok E (cs @ ds) k = writes_ok E ds k1"
    and "trace s1 = trace s @ map (\<lambda>c. WriteCall c True) cs"
  shows "delivered_body E w input s f k k' s'"
proof -
  from assms(1) obtain body t ds where d: "stream s1 = body @ t @ stream s'" "is_terminator t" "writes_ok E ds k1 = Some k'"
    "trace s' = trace s1 @ map (\<lambda>c. WriteCall c True) ds"
    "framed ((w @ concat cs) @ concat ds) f ((input @ op_bytes x) @ body)"
    "no_dot_lines True ((input @ op_bytes x) @ body)" unfolding delivered_body_def by blast
  then show ?thesis unfolding delivered_body_def using assms(2-)
    by (intro exI [of _ "op_bytes x @ body"] exI [of _ t] exI [of _ "cs @ ds"]) simp
qed

lemma body_run_delivers:
  "body_run E f k s r s' \<Longrightarrow> r = Inr (BodyDone f' k') \<Longrightarrow> framed w f input \<Longrightarrow> no_dot_lines (at_line_start f) input \<Longrightarrow>
   delivered_body E w input s f' k k' s'"
proof (induction arbitrary: w input rule: body_run.induct)
  case (pending s x s1 f g k r s')
  note p = piece_read_stream [OF pending.hyps(1)]
  note inv = framer_op_invariants [OF pending.prems(2,3) conjunct2 [OF p] pending.hyps(2)]
  have "delivered_body E (w @ concat []) (input @ op_bytes x) s1 f' k k' s'"
    using pending.IH [OF pending.prems(1), of w "input @ op_bytes x"] inv by simp
  then show ?case by (rule delivered_body_Cons) (simp_all add: p piece_read_trace [OF pending.hyps(1)])
next
  case (ended s x s1 f g k)
  then obtain l where l: "x = Line l" "at_line_start f" "is_terminator l" "g = f" using framer_op_terminator by metis
  have "stream s = l @ stream s1" using piece_read_stream [OF ended.hyps(1), of True] l(1) by simp
  moreover have "f' = f" "k' = k" using ended.prems(1) l(4) by simp_all
  ultimately show ?case unfolding delivered_body_def using l(2,3) ended.prems(2,3) piece_read_trace [OF ended.hyps(1)]
    by (intro exI [of _ "[]"] exI [of _ l] exI [of _ "[]"]) simp
next
  case (written s x s1 f c g k u k1 r s')
  note p = piece_read_stream [OF written.hyps(1)]
  note inv = framer_op_invariants [OF written.prems(2,3) conjunct2 [OF p] written.hyps(2)]
  have "delivered_body E (w @ concat [c]) (input @ op_bytes x) (emit (WriteCall c True) s1) f' k1 k' s'"
    using written.IH [OF written.prems(1), of "w @ c" "input @ op_bytes x"] inv by simp
  then show ?case by (rule delivered_body_Cons) (simp_all add: p written.hyps(3) piece_read_trace [OF written.hyps(1)])
qed simp_all

lemma body_loop_delivers:
  assumes "body_loop E f k s = (Inr (BodyDone f' k'), s')"
    and "framed w f input" and "no_dot_lines (at_line_start f) input"
  shows "delivered_body E w input s f' k k' s'"
  using assms(1) by (intro body_run_delivers [OF _ refl assms(2,3)]) (simp add: body_loop_iff)


lemma body_no_terminator:
  assumes "no_dot_lines start body"
  shows "\<forall>l \<in> set (lines_of (crlf_norm body)). \<not> is_terminator l"
proof
  fix l assume "l \<in> set (lines_of (crlf_norm body))"
  then obtain x where x: "x \<in> set (lines_of body)" "l = crlf_norm x" unfolding split_inclusive_crlf_norm by auto
  have "x \<noteq> []" "LF \<notin> set (butlast x)" using split_inclusive_butlast [OF x(1)] by auto
  then show "\<not> is_terminator l" using is_terminator_crlf_norm no_dot_lines_split [OF assms x(1)] x(2) by blast
qed

lemma framed_whole:
  assumes "framed w f body" "no_dot_lines True body"
  shows "w @ fr_out f = crlf_norm body \<and> (body = [] \<or> last body = LF)"
proof -
  have l: "body = [] \<or> last body = LF" using assms(2) by (auto simp: no_dot_lines_def)
  then have "\<not> ends_cr False body" by (auto simp: ends_cr_def)
  moreover have "held_cr f = ends_cr False body" "w @ fr_out f @ held_bytes (held_cr f) = crlf_norm body"
    using assms(1) unfolding framed_def by blast+
  ultimately show ?thesis using l by simp
qed

section \<open>The header block\<close>

lemma header_loop_stream:
  "header_loop E (holding n hs0) s = (Inr (Block hs follows), s') \<Longrightarrow> length hs0 \<le> n \<Longrightarrow>
   \<exists>ls e. stream s = concat ls @ e @ stream s' \<and> (\<forall>l \<in> set ls. full_line l \<and> header_line l) \<and>
     hs = hs0 @ concat (map unstuff ls) \<and> trace s' = trace s \<and> handler s' = handler s \<and>
     (if follows then is_empty_line e else is_terminator e)"
proof (induction "unread s" arbitrary: hs0 s rule: less_induct)
  case less
  let ?c = "holding n hs0"
  let ?m = "case remaining_capacity ?c of None \<Rightarrow> MAX_COMMAND_BUFFER | Some left \<Rightarrow> left + TERMINATOR_SLACK"
  obtain x s1 where nl: "next_line E ?m s = (x, s1)" by (cases "next_line E ?m s")
  then obtain l where x: "x = Inr (Got l)"
    using less.prems(1) by (auto simp: header_loop.simps [of E ?c s] split: sum.splits line.splits)
  note st = next_line_stream(1) [OF nl [unfolded x] refl] and keep = next_line_keeps [OF nl]
  consider "is_terminator l" | "\<not> is_terminator l" "is_empty_line l" | "header_line l"
    by (auto simp: header_line_def)
  then show ?case
  proof cases
    case 1
    then have "hs = hs0" "\<not> follows" "s' = s1" using less.prems(1) nl x
      by (auto simp: header_loop.simps [of E ?c s] push_line_def take_pending_def)
    then show ?thesis using 1 st keep by (intro exI [of _ "[]"] exI [of _ l]) simp
  next
    case 2
    then have "hs = hs0" "follows" "s' = s1" using less.prems(1) nl x
      by (auto simp: header_loop.simps [of E ?c s] push_line_def)
    then show ?thesis using 2 st keep by (intro exI [of _ "[]"] exI [of _ l]) simp
  next
    case 3
    note p = push_line_holding [OF 3 less.prems(2)]
    have fits: "length (hs0 @ unstuff l) \<le> n"
    proof (rule ccontr)
      assume "\<not> ?thesis"
      then show False using p less.prems(1) nl x by (simp add: header_loop.simps [of E ?c s])
    qed
    then have "header_loop E (holding n (hs0 @ unstuff l)) s1 = (Inr (Block hs follows), s')"
      using p less.prems(1) nl x by (simp add: header_loop.simps [of E ?c s])
    from less.hyps [OF next_line_unread(2) [OF nl x] this fits] obtain ls e where
      "stream s1 = concat ls @ e @ stream s'" "\<forall>l \<in> set ls. full_line l \<and> header_line l"
      "hs = (hs0 @ unstuff l) @ concat (map unstuff ls)" "trace s' = trace s1" "handler s' = handler s1"
      "if follows then is_empty_line e else is_terminator e" by blast
    then show ?thesis using 3 st keep by (intro exI [of _ "l # ls"] exI [of _ e]) simp
  qed
qed


section \<open>What does not accept a message\<close>

definition no_acceptance :: "event \<Rightarrow> bool" where
  "no_acceptance e \<longleftrightarrow> (\<forall>m. e \<noteq> Finished (Inr m))"

text \<open>From \<open>s\<close> to \<open>s'\<close> nothing was accepted.\<close>

definition declines :: "'h session \<Rightarrow> 'h session \<Rightarrow> bool" where
  "declines s s' \<longleftrightarrow> (\<exists>es. trace s' = trace s @ es \<and> list_all no_acceptance es)"

lemma declines_same: "trace s' = trace s \<Longrightarrow> declines s s'"
  unfolding declines_def by (intro exI [of _ "[]"]) simp

lemma declines_one: "trace s' = trace s @ [e] \<Longrightarrow> no_acceptance e \<Longrightarrow> declines s s'"
  unfolding declines_def by (intro exI [of _ "[e]"]) simp

lemma declines_trans: "declines s s1 \<Longrightarrow> declines s1 s2 \<Longrightarrow> declines s s2"
  unfolding declines_def by (metis append_assoc list_all_append)

lemma declines_from: "trace s0 = trace s \<Longrightarrow> declines s0 s' \<Longrightarrow> declines s s'"
  by (simp add: declines_def)

lemma no_acceptance_simps [simp]:
  "no_acceptance (Sent r)" "no_acceptance (SendFailed r)" "no_acceptance ResetCall" "no_acceptance SinkDropped"
  "no_acceptance (OpenCall hs b)" "no_acceptance (WriteCall c b)" "no_acceptance (Finished x) \<longleftrightarrow> isl x"
  by (auto simp: no_acceptance_def isl_def) (metis sum.exhaust)

lemma send_event:
  assumes "send E r s = Some (x, s')"
  shows "\<exists>e. trace s' = trace s @ [e] \<and> (e = Sent r \<and> x = Inr () \<or> e = SendFailed r \<and> isl x)"
    and "stream s' = stream s" and "handler s' = handler s"
  using assms
  by (auto simp: send_def emit_def log_lines_def Let_def stream_def split: option.splits list.splits)

lemma send_declines: "send E r s = Some (x, s') \<Longrightarrow> declines s s'"
  using send_event(1) [of E r s x s'] by (auto intro: declines_one)

lemma refuse_data_declines: "refuse_data E c t s = Some (x, s') \<Longrightarrow> declines s s'"
  by (auto simp: refuse_data_def ok_def split: option.splits sum.splits if_splits dest: send_declines)

lemma discard_trace: "discard_to_terminator E b s = (x, s') \<Longrightarrow> trace s' = trace s"
proof (induction "unread s" arbitrary: b s rule: less_induct)
  case less
  obtain y s1 where nl: "next_line E MAX_COMMAND_BUFFER s = (y, s1)" by (cases "next_line E MAX_COMMAND_BUFFER s")
  note keep = next_line_keeps [OF nl]
  show ?case
  proof (cases y)
    case (Inl e)
    with less.prems nl keep show ?thesis by (simp add: discard_to_terminator.simps [of E b s])
  next
    case (Inr l)
    show ?thesis
    proof (cases l)
      case (Got bs)
      then show ?thesis using less.prems nl keep Inr less.hyps [OF next_line_unread(2) [OF nl]]
        by (auto simp: discard_to_terminator.simps [of E b s] split: if_splits)
    next
      case TooLong
      then show ?thesis using less.prems nl keep Inr less.hyps [OF unread_clear [of E MAX_COMMAND_BUFFER s s1]]
        by (auto simp: discard_to_terminator.simps [of E b s])
    qed (use less.prems nl keep Inr in \<open>simp add: discard_to_terminator.simps [of E b s]\<close>)
  qed
qed

lemma start_transaction_declines: "declines s (start_transaction E s)"
  by (rule declines_one [of _ _ ResetCall]) (simp_all add: start_transaction_def emit_def)

lemma conclude_refusal_declines: "conclude E (Inl v) s = Some (x, s') \<Longrightarrow> declines s s'"
proof (cases v)
  case (Replied c t)
  assume "conclude E (Inl v) s = Some (x, s')"
  then have "refuse_data E c t (s\<lparr>st := WantMail\<rparr>) = Some (x, s')" by (simp add: conclude_def Replied)
  then show ?thesis by (intro declines_from [OF _ refuse_data_declines]) simp_all
qed (auto simp: conclude_def ok_def intro: declines_same)

lemma mirror_declines:
  assumes "mirror E v b s = Some (x, s')"
  shows "declines s s'"
proof (cases v)
  case Dropped
  then show ?thesis using assms conclude_refusal_declines by (simp add: mirror_def)
next
  case (Replied c t)
  then obtain y s1 where r: "refuse_data E c t (s\<lparr>st := WantMail\<rparr>) = Some (y, s1)"
    using assms by (auto simp: mirror_def and_then_def split: option.splits)
  have 1: "declines s s1" by (rule declines_from [OF _ refuse_data_declines [OF r]]) simp
  obtain z s2 where d: "discard_to_terminator E b s1 = (z, s2)" by (cases "discard_to_terminator E b s1")
  note 2 = declines_trans [OF 1 declines_same [OF discard_trace [OF d]]]
  have "s' = s1 \<or> s' = s2 \<or> s' = start_transaction E s2"
    using assms r d Replied by (auto simp: mirror_def and_then_def ok_def split: sum.splits if_splits)
  then show ?thesis using 1 2 declines_trans [OF 2 start_transaction_declines] by metis
qed

lemma refuse_large_declines:
  assumes "refuse_large_headers E b s = Some (x, s')"
  shows "declines s s'"
proof -
  obtain z s1 where d: "discard_to_terminator E b s = (z, s1)" by (cases "discard_to_terminator E b s")
  note 1 = declines_same [OF discard_trace [OF d]]
  let ?s = "start_transaction E (s1\<lparr>st := WantMail\<rparr>)"
  have "declines s1 ?s" by (rule declines_one [of _ _ ResetCall]) (simp_all add: start_transaction_def emit_def)
  note 2 = declines_trans [OF 1 this]
  have "s' = s1 \<or> (\<exists>t. refuse_data E 552 t ?s = Some (x, s'))"
    using assms d by (auto simp: refuse_large_headers_def ok_def split: sum.splits if_splits)
  then show ?thesis using 1 declines_trans [OF 2 refuse_data_declines] by metis
qed

lemma drop_sink_declines: "drop_sink m = Some (x, s') \<Longrightarrow> (\<And>s1. m = Some (x, s1) \<Longrightarrow> declines s s1) \<Longrightarrow> declines s s'"
proof -
  assume d: "drop_sink m = Some (x, s')" and m: "\<And>s1. m = Some (x, s1) \<Longrightarrow> declines s s1"
  then obtain s1 where s1: "m = Some (x, s1)" "s' = emit SinkDropped s1" by (auto simp: drop_sink_def)
  show "declines s s'" by (rule declines_trans [OF m [OF s1(1)]]) (simp add: s1(2) declines_one emit_def)
qed

lemma body_run_declines: "body_run E f k s r s' \<Longrightarrow> declines s s'"
proof (induction rule: body_run.induct)
  case (failed s e s1 f k)
  then show ?case by (intro declines_same) (rule next_line_keeps(1))
next
  case (left s s1 f k)
  then show ?case by (intro declines_same) (rule next_line_keeps(1))
next
  case (pending s x s1 f g k r s')
  then show ?case using declines_from [OF piece_read_trace] by metis
next
  case (ended s x s1 f g k)
  then show ?case by (intro declines_same) (rule piece_read_trace)
next
  case (written s x s1 f c g k u k1 r s')
  have "declines s (emit (WriteCall c True) s1)"
    using piece_read_trace [OF written.hyps(1)] by (intro declines_one [of _ _ "WriteCall c True"]) (simp_all add: emit_def)
  then show ?case using written.IH declines_trans by blast
next
  case (refused s x s1 f c g k v k1)
  then show ?case
    using piece_read_trace [OF refused.hyps(1)] by (intro declines_one [of _ _ "WriteCall c False"]) (simp_all add: emit_def)
qed


section \<open>The message that is accepted\<close>

text \<open>All writes of a body went well: those of its chunks and, if anything was left of it, the last one.\<close>

definition all_written :: "('h, 'k) env \<Rightarrow> bytes list \<Rightarrow> 'k \<Rightarrow> 'k \<Rightarrow> bool" where
  "all_written E cs k k1 \<longleftrightarrow>
     writes_ok E cs k = Some k1 \<or>
     (\<exists>ds rest k0. cs = ds @ [rest] \<and> writes_ok E ds k = Some k0 \<and> k_write_final (ops E) rest k0 = (Inr (), k1))"

definition start_of_data :: reply where
  "start_of_data = Reply_new 354 ''End data with <CR><LF>.<CR><LF>''"

definition ok_reply :: "bytes \<Rightarrow> reply" where
  "ok_reply m = Reply_new 250 (''OK: '' @ m)"

text \<open>The session tells the client that the message was accepted, or fails in the attempt.\<close>

definition answered :: "bytes \<Rightarrow> event \<Rightarrow> bool" where
  "answered m e \<longleftrightarrow> e = Sent (ok_reply m) \<or> e = SendFailed (ok_reply m)"

text \<open>From here on, what happened when an acceptance is among the events of a step.\<close>

definition accepts :: "'h session \<Rightarrow> 'h session \<Rightarrow> bytes \<Rightarrow> bool" where
  "accepts s s' m \<longleftrightarrow> (\<exists>es. trace s' = trace s @ es \<and> Finished (Inr m) \<in> set es)"

lemma accepts_not_declines: "accepts s s' m \<Longrightarrow> \<not> declines s s'"
  by (auto simp: accepts_def declines_def no_acceptance_def list_all_iff)

lemma accepts_behind: "declines s s1 \<Longrightarrow> accepts s s' m \<Longrightarrow> \<exists>es. trace s' = trace s1 @ es \<Longrightarrow> accepts s1 s' m"
  by (auto simp: accepts_def declines_def no_acceptance_def list_all_iff)

lemma finish_sink_accepts:
  assumes "finish_sink E k s = Some (r, s')" "accepts s s' m"
  shows "\<exists>k' e. k_finish (ops E) k = (Inr m, k') \<and> trace s' = trace s @ [Finished (Inr m), e] \<and> answered m e \<and>
    stream s' = stream s"
proof -
  obtain o' k' where f: "k_finish (ops E) k = (o', k')" by (cases "k_finish (ops E) k")
  let ?s = "emit (Finished o') s"
  have c: "conclude E o' ?s = Some (r, s')" using assms(1) f by (simp add: finish_sink_def)
  show ?thesis
  proof (cases o')
    case (Inl v)
    have "declines s ?s" by (rule declines_one [of _ _ "Finished o'"]) (simp_all add: emit_def Inl)
    then have "declines s s'" using conclude_refusal_declines [OF c [unfolded Inl]] Inl declines_trans by blast
    then show ?thesis using accepts_not_declines [OF assms(2)] by simp
  next
    case (Inr m')
    then obtain x s1 where s1: "send E (ok_reply m') (?s\<lparr>st := WantMail\<rparr>) = Some (x, s1)" "s' = s1"
      using c by (auto simp: conclude_def ok_reply_def ok_def split: option.splits sum.splits if_splits)
    from send_event(1) [OF s1(1)] obtain e where e: "trace s' = trace s @ [Finished (Inr m'), e]" "answered m' e"
      using Inr s1(2) by (auto simp: answered_def emit_def)
    have "m' = m" using assms(2) e by (auto simp: accepts_def answered_def)
    moreover have "stream s' = stream s" using send_event(2) [OF s1(1)] s1(2) by (simp add: stream_def emit_def)
    ultimately show ?thesis using f Inr e by (intro exI [of _ k'] exI [of _ e]) simp
  qed
qed

text \<open>An operation only adds to the trace.\<close>

lemma conclude_grows:
  assumes "conclude E x s = Some (r, s')"
  shows "\<exists>es. trace s' = trace s @ es"
proof (cases x)
  case (Inl v)
  then have "declines s s'" using conclude_refusal_declines assms by blast
  then show ?thesis by (auto simp: declines_def)
next
  case (Inr m)
  then obtain y where "send E (ok_reply m) (s\<lparr>st := WantMail\<rparr>) = Some (y, s')"
    using assms by (auto simp: conclude_def ok_reply_def ok_def split: option.splits sum.splits if_splits)
  from send_event(1) [OF this] show ?thesis by auto
qed

lemma finish_sink_grows:
  assumes "finish_sink E k s = Some (r, s')"
  shows "\<exists>es. trace s' = trace s @ es"
proof -
  have "conclude E (fst (k_finish (ops E) k)) (emit (Finished (fst (k_finish (ops E) k))) s) = Some (r, s')"
    using assms by (simp add: finish_sink_def Let_def)
  from conclude_grows [OF this] show ?thesis by (auto simp: emit_def)
qed

lemma finish_body_grows:
  assumes "finish_body E f k s = Some (r, s')"
  shows "\<exists>es. trace s' = trace s @ es"
proof (cases "fr_out f = []")
  case True
  then have "finish_sink E k s = Some (r, s')" using assms by (simp add: finish_body_def flush_def)
  then show ?thesis by (rule finish_sink_grows)
next
  case False
  let ?c = "fr_out f"
  obtain x k1 where w: "k_write_final (ops E) ?c k = (x, k1)" by (cases "k_write_final (ops E) ?c k")
  show ?thesis
  proof (cases x)
    case (Inl v)
    have d: "declines s (emit (WriteCall ?c False) s)" by (rule declines_one [of _ _ "WriteCall ?c False"]) (simp_all add: emit_def)
    have "drop_sink (conclude E (Inl v) (emit (WriteCall ?c False) s)) = Some (r, s')"
      using assms w False Inl by (simp add: finish_body_def flush_def Let_def)
    then have "declines s s'" by (rule drop_sink_declines) (rule declines_trans [OF d conclude_refusal_declines])
    then show ?thesis by (auto simp: declines_def)
  next
    case (Inr u)
    then have "finish_sink E k1 (emit (WriteCall ?c True) s) = Some (r, s')"
      using assms w False by (simp add: finish_body_def flush_def Let_def)
    from finish_sink_grows [OF this] show ?thesis by (auto simp: emit_def)
  qed
qed

lemma finish_body_accepts:
  assumes "finish_body E f k s = Some (r, s')" "accepts s s' m"
  shows "\<exists>cs k1 k' e. concat cs = fr_out f \<and> k_finish (ops E) k1 = (Inr m, k') \<and>
    (cs = [] \<and> k1 = k \<or> (\<exists>rest. cs = [rest] \<and> k_write_final (ops E) rest k = (Inr (), k1))) \<and>
    trace s' = trace s @ map (\<lambda>c. WriteCall c True) cs @ [Finished (Inr m), e] \<and> answered m e \<and> stream s' = stream s"
proof (cases "fr_out f = []")
  case True
  then have "finish_sink E k s = Some (r, s')" using assms(1) by (simp add: finish_body_def flush_def)
  from finish_sink_accepts [OF this assms(2)] obtain k' e where "k_finish (ops E) k = (Inr m, k')"
    "trace s' = trace s @ [Finished (Inr m), e]" "answered m e" "stream s' = stream s" by blast
  then show ?thesis using True by (intro exI [of _ "[]"] exI [of _ k] exI [of _ k'] exI [of _ e]) simp
next
  case False
  let ?c = "fr_out f"
  obtain x k1 where w: "k_write_final (ops E) ?c k = (x, k1)" by (cases "k_write_final (ops E) ?c k")
  have d: "declines s (emit (WriteCall ?c b) s)" for b by (rule declines_one [of _ _ "WriteCall ?c b"]) (simp_all add: emit_def)
  show ?thesis
  proof (cases x)
    case (Inl v)
    then have "drop_sink (conclude E (Inl v) (emit (WriteCall ?c False) s)) = Some (r, s')"
      using assms(1) w False by (simp add: finish_body_def flush_def Let_def)
    then have "declines s s'" by (rule drop_sink_declines) (rule declines_trans [OF d conclude_refusal_declines])
    then show ?thesis using accepts_not_declines [OF assms(2)] by simp
  next
    case (Inr u)
    let ?s = "emit (WriteCall ?c True) s"
    have fs: "finish_sink E k1 ?s = Some (r, s')" using assms(1) w False Inr by (simp add: finish_body_def flush_def Let_def)
    from finish_sink_accepts [OF fs accepts_behind [OF d assms(2) finish_sink_grows [OF fs]]] obtain k' e where
      "k_finish (ops E) k1 = (Inr m, k')" "trace s' = trace ?s @ [Finished (Inr m), e]" "answered m e" "stream s' = stream ?s"
      by blast
    then show ?thesis using w Inr
      by (intro exI [of _ "[?c]"] exI [of _ k1] exI [of _ k'] exI [of _ e]) (simp add: emit_def stream_def)
  qed
qed

lemma all_written_then:
  assumes "writes_ok E ds k = Some k0"
    and "cs = [] \<and> k1 = k0 \<or> (\<exists>rest. cs = [rest] \<and> k_write_final (ops E) rest k0 = (Inr (), k1))"
  shows "all_written E (ds @ cs) k k1"
  using assms by (auto simp: all_written_def)

lemma read_body_accepts:
  assumes "read_body E k s = Some (r, s')" "accepts s s' m"
  shows "\<exists>body t cs k1 k' e. stream s = body @ t @ stream s' \<and> is_terminator t \<and> concat cs = crlf_norm body \<and>
    no_dot_lines True body \<and> all_written E cs k k1 \<and> k_finish (ops E) k1 = (Inr m, k') \<and>
    trace s' = trace s @ map (\<lambda>c. WriteCall c True) cs @ [Finished (Inr m), e] \<and> answered m e"
proof -
  obtain y s1 where b: "body_loop E framer_new k s = (y, s1)" by (cases "body_loop E framer_new k s")
  have d: "declines s s1" using body_run_declines b by (simp add: body_loop_iff)
  show ?thesis
  proof (cases "\<exists>f k0. y = Inr (BodyDone f k0)")
    case True
    then obtain f k0 where y: "y = Inr (BodyDone f k0)" by blast
    then have fb: "finish_body E f k0 s1 = Some (r, s')" using assms(1) b by (simp add: read_body_def)
    have n: "no_dot_lines (at_line_start framer_new) []" by (auto simp: no_dot_lines_def framer_new_def)
    from body_loop_delivers [OF b [unfolded y] framed_new n] obtain body t ds where dl:
      "stream s = body @ t @ stream s1" "is_terminator t" "writes_ok E ds k = Some k0"
      "trace s1 = trace s @ map (\<lambda>c. WriteCall c True) ds" "framed (concat ds) f body" "no_dot_lines True body"
      unfolding delivered_body_def by auto
    have "\<exists>es. trace s' = trace s1 @ es" using finish_body_grows [OF fb] .
    from finish_body_accepts [OF fb accepts_behind [OF d assms(2) this]] obtain cs k1 k' e where c:
      "concat cs = fr_out f" "k_finish (ops E) k1 = (Inr m, k')"
      "cs = [] \<and> k1 = k0 \<or> (\<exists>rest. cs = [rest] \<and> k_write_final (ops E) rest k0 = (Inr (), k1))"
      "trace s' = trace s1 @ map (\<lambda>c. WriteCall c True) cs @ [Finished (Inr m), e]" "answered m e" "stream s' = stream s1"
      by blast
    have "concat (ds @ cs) = crlf_norm body" using framed_whole [OF dl(5,6)] c(1) by simp
    then show ?thesis using dl c all_written_then [OF dl(3) c(3)]
      by (intro exI [of _ body] exI [of _ t] exI [of _ "ds @ cs"] exI [of _ k1] exI [of _ k'] exI [of _ e]) simp
  next
    case False
    have "declines s s'"
    proof (cases y)
      case (Inl e)
      then have "drop_sink (Some (Inl e, s1)) = Some (r, s')" using assms(1) b by (simp add: read_body_def)
      then show ?thesis by (rule drop_sink_declines) (use d in simp)
    next
      case (Inr z)
      show ?thesis
      proof (cases z)
        case BodyEof
        then have "drop_sink (ok Close s1) = Some (r, s')" using assms(1) b Inr by (simp add: read_body_def)
        then show ?thesis by (rule drop_sink_declines) (use d in \<open>simp add: ok_def\<close>)
      next
        case (BodyVerdict v st)
        then have "drop_sink (mirror E v st s1) = Some (r, s')" using assms(1) b Inr by (simp add: read_body_def)
        then show ?thesis by (rule drop_sink_declines) (rule declines_trans [OF d mirror_declines])
      qed (use False Inr in simp)
    qed
    then show ?thesis using accepts_not_declines [OF assms(2)] by simp
  qed
qed

lemma read_body_grows:
  assumes "read_body E k s = Some (r, s')"
  shows "\<exists>es. trace s' = trace s @ es"
proof -
  obtain y s1 where b: "body_loop E framer_new k s = (y, s1)" by (cases "body_loop E framer_new k s")
  have d: "declines s s1" using body_run_declines b by (simp add: body_loop_iff)
  then obtain es where es: "trace s1 = trace s @ es" by (auto simp: declines_def)
  have "\<exists>es. trace s' = trace s1 @ es"
  proof (cases "\<exists>f k0. y = Inr (BodyDone f k0)")
    case True
    then show ?thesis using assms b finish_body_grows by (auto simp: read_body_def)
  next
    case False
    then consider "drop_sink (Some (r, s1)) = Some (r, s')" | v c where "drop_sink (mirror E v c s1) = Some (r, s')"
      using assms b by (auto simp: read_body_def drop_sink_def ok_def split: sum.splits body_end.splits)
    then have "declines s1 s'"
    proof cases
      case 1
      then show ?thesis by (rule drop_sink_declines) (simp add: declines_same)
    next
      case 2
      then show ?thesis by (rule drop_sink_declines) (rule mirror_declines)
    qed
    then show ?thesis by (auto simp: declines_def)
  qed
  then show ?thesis using es by auto
qed

lemma open_message_grows:
  assumes "open_message E hs follows s = Some (r, s')"
  shows "\<exists>es. trace s' = trace s @ es"
proof -
  obtain x h where o: "h_open_body (ops E) hs (handler s) = Some (x, h)"
    using assms by (auto simp: open_message_def split: option.splits)
  show ?thesis
  proof (cases x)
    case (Inr k)
    let ?s = "emit (OpenCall hs True) (s\<lparr>handler := h\<rparr>)"
    have "finish_sink E k ?s = Some (r, s') \<or> read_body E k ?s = Some (r, s')"
      using assms o Inr by (auto simp: open_message_def Let_def split: if_splits)
    then have "\<exists>es. trace s' = trace ?s @ es"
      using finish_sink_grows [of E k ?s r s'] read_body_grows [of E k ?s r s'] by (elim disjE) simp_all
    then show ?thesis by (auto simp: emit_def)
  next
    case (Inl rej)
    let ?s = "emit (OpenCall hs False) (s\<lparr>handler := h\<rparr>)"
    obtain y s3 where dt: "discard_to_terminator E True ?s = (y, s3)" by (cases "discard_to_terminator E True ?s")
    have "s' = s3 \<or> (\<exists>c t s4. refuse_data E c t (s4\<lparr>st := WantMail\<rparr>) = Some (r, s') \<and> (s4 = s3 \<or> s4 = ?s))"
      using assms o Inl dt by (auto simp: open_message_def Let_def ok_def split: sum.splits if_splits)
    then have "\<exists>es. trace s' = trace ?s @ es"
      using discard_trace [OF dt] by (auto simp: declines_def dest!: refuse_data_declines)
    then show ?thesis by (auto simp: emit_def)
  qed
qed

lemma header_loop_trace: "header_loop E c s = (x, s') \<Longrightarrow> trace s' = trace s"
proof (induction "unread s" arbitrary: c s rule: less_induct)
  case less
  let ?m = "case remaining_capacity c of None \<Rightarrow> MAX_COMMAND_BUFFER | Some left \<Rightarrow> left + TERMINATOR_SLACK"
  obtain y s1 where nl: "next_line E ?m s = (y, s1)" by (cases "next_line E ?m s")
  note keep = next_line_keeps(1) [OF nl]
  show ?case
  proof (cases "\<exists>l c'. y = Inr (Got l) \<and> push_line l c = (None, c')")
    case True
    then obtain l c' where y: "y = Inr (Got l)" and p: "push_line l c = (None, c')" by blast
    then have "header_loop E c' s1 = (x, s')" using less.prems nl by (simp add: header_loop.simps [of E c s])
    then show ?thesis using less.hyps [OF next_line_unread(2) [OF nl y]] keep by simp
  next
    case False
    then have "s' = s1 \<or> s' = s1\<lparr>buf := []\<rparr>"
      using less.prems nl
      by (auto simp: header_loop.simps [of E c s] split: sum.splits line.splits prod.splits option.splits header_event.splits)
    then show ?thesis using keep by auto
  qed
qed

lemma open_message_accepts:
  assumes "open_message E hs follows s = Some (r, s')" "accepts s s' m"
  shows "\<exists>k h body t cs k1 k' e. h_open_body (ops E) hs (handler s) = Some (Inr k, h) \<and>
    stream s = body @ t @ stream s' \<and> (if follows then is_terminator t else body = [] \<and> t = []) \<and>
    concat cs = crlf_norm body \<and> no_dot_lines True body \<and> all_written E cs k k1 \<and>
    k_finish (ops E) k1 = (Inr m, k') \<and>
    trace s' = trace s @ OpenCall hs True # map (\<lambda>c. WriteCall c True) cs @ [Finished (Inr m), e] \<and> answered m e"
proof -
  obtain x h where o: "h_open_body (ops E) hs (handler s) = Some (x, h)"
    using assms(1) by (auto simp: open_message_def split: option.splits)
  let ?s = "\<lambda>b. emit (OpenCall hs b) (s\<lparr>handler := h\<rparr>)"
  have d: "declines s (?s b)" for b by (rule declines_one [of _ _ "OpenCall hs b"]) (simp_all add: emit_def)
  show ?thesis
  proof (cases x)
    case (Inl rej)
    have r: "declines s s'" if "refuse_data E c t (s3\<lparr>st := WantMail\<rparr>) = Some (r, s')" "declines s s3" for c t s3
      by (rule declines_trans [OF that(2)]) (rule declines_from [OF _ refuse_data_declines [OF that(1)]], simp)
    have "declines s s'"
    proof (cases follows)
      case False
      then have "refuse_data E (rej_code rej) (rej_text rej) ((?s False)\<lparr>st := WantMail\<rparr>) = Some (r, s')"
        using assms(1) o Inl by (simp add: open_message_def Let_def)
      then show ?thesis by (rule r) (rule d)
    next
      case True
      obtain y s3 where dt: "discard_to_terminator E True (?s False) = (y, s3)" by (cases "discard_to_terminator E True (?s False)")
      have s3: "declines s s3" by (rule declines_trans [OF d declines_same [OF discard_trace [OF dt]]])
      have "s' = s3 \<or> refuse_data E (rej_code rej) (rej_text rej) (s3\<lparr>st := WantMail\<rparr>) = Some (r, s')"
        using assms(1) o Inl dt True by (auto simp: open_message_def Let_def ok_def split: sum.splits if_splits)
      then show ?thesis using s3 r by blast
    qed
    then show ?thesis using accepts_not_declines [OF assms(2)] by simp
  next
    case (Inr k)
    show ?thesis
    proof (cases follows)
      case False
      then have f: "finish_sink E k (?s True) = Some (r, s')" using assms(1) o Inr by (simp add: open_message_def Let_def)
      from finish_sink_accepts [OF f accepts_behind [OF d assms(2) finish_sink_grows [OF f]]] obtain k' e where
        "k_finish (ops E) k = (Inr m, k')" "trace s' = trace (?s True) @ [Finished (Inr m), e]" "answered m e"
        "stream s' = stream (?s True)" by blast
      moreover have "no_dot_lines True []" by (auto simp: no_dot_lines_def)
      ultimately show ?thesis using o Inr False
        by (intro exI [of _ k] exI [of _ h] exI [of _ "[]"] exI [of _ "[]"] exI [of _ "[]"] exI [of _ k] exI [of _ k'] exI [of _ e])
           (simp add: all_written_def crlf_norm_def emit_def stream_def)
    next
      case True
      then have b: "read_body E k (?s True) = Some (r, s')" using assms(1) o Inr by (simp add: open_message_def Let_def)
      from read_body_accepts [OF b accepts_behind [OF d assms(2) read_body_grows [OF b]]] obtain body t cs k1 k' e where
        "stream (?s True) = body @ t @ stream s'" "is_terminator t" "concat cs = crlf_norm body" "no_dot_lines True body"
        "all_written E cs k k1" "k_finish (ops E) k1 = (Inr m, k')"
        "trace s' = trace (?s True) @ map (\<lambda>c. WriteCall c True) cs @ [Finished (Inr m), e]" "answered m e" by blast
      then show ?thesis using o Inr True
        by (intro exI [of _ k] exI [of _ h] exI [of _ body] exI [of _ t] exI [of _ cs] exI [of _ k1] exI [of _ k'] exI [of _ e])
           (simp add: emit_def stream_def)
    qed
  qed
qed

lemma read_message_grows:
  assumes "read_message E s = Some (r, s')"
  shows "\<exists>e es. trace s' = trace s @ e # es \<and> (e = Sent start_of_data \<or> e = SendFailed start_of_data)"
proof -
  let ?c = "collector_new (cfg_max_header_size (cfg E))"
  obtain x s1 where sd: "send E start_of_data s = Some (x, s1)"
    using assms by (auto simp: read_message_def start_of_data_def and_then_def split: option.splits)
  obtain y s2 where hl: "header_loop E ?c s1 = (y, s2)" by (cases "header_loop E ?c s1")
  have "\<exists>es. trace s' = trace s1 @ es"
  proof (cases "\<exists>hs follows. x = Inr () \<and> y = Inr (Block hs follows)")
    case True
    then obtain hs follows where "open_message E hs follows s2 = Some (r, s')"
      using assms sd hl by (auto simp: read_message_def start_of_data_def and_then_def)
    then show ?thesis using open_message_grows header_loop_trace [OF hl] by metis
  next
    case False
    then have "s' = s1 \<or> s' = s2 \<or> (\<exists>b. refuse_large_headers E b s2 = Some (r, s'))"
      using assms sd hl
      by (auto simp: read_message_def start_of_data_def and_then_def ok_def split: sum.splits header_end.splits)
    then have "trace s' = trace s1 \<or> declines s2 s'" using header_loop_trace [OF hl] refuse_large_declines by blast
    then show ?thesis using header_loop_trace [OF hl] by (auto simp: declines_def)
  qed
  then show ?thesis using send_event(1) [OF sd] by auto
qed

text \<open>
  The whole of it. If a message is accepted while one is read, then what the client sent behind \<open>DATA\<close> was the lines of
  a header block, a blank line (unless there is no body), the body and the terminator; the handler was given the
  header block and the sink the body, in writes that all went well; and then the sink accepted.
\<close>

lemma read_message_accepts:
  assumes "read_message E s = Some (r, s')" "accepts s s' m"
  shows "\<exists>ls sep body t k h cs k1 k' e. stream s = concat ls @ sep @ body @ t @ stream s' \<and>
    (\<forall>l \<in> set ls. full_line l \<and> header_line l) \<and> (is_empty_line sep \<or> sep = [] \<and> body = []) \<and> is_terminator t \<and>
    h_open_body (ops E) (concat (map unstuff ls)) (handler s) = Some (Inr k, h) \<and>
    concat cs = crlf_norm body \<and> no_dot_lines True body \<and> all_written E cs k k1 \<and>
    k_finish (ops E) k1 = (Inr m, k') \<and>
    trace s' = trace s @ Sent start_of_data # OpenCall (concat (map unstuff ls)) True #
      map (\<lambda>c. WriteCall c True) cs @ [Finished (Inr m), e] \<and> answered m e"
proof -
  let ?c = "collector_new (cfg_max_header_size (cfg E))"
  obtain x s1 where sd: "send E start_of_data s = Some (x, s1)"
    using assms(1) by (auto simp: read_message_def start_of_data_def and_then_def split: option.splits)
  note nd = accepts_not_declines [OF assms(2)]
  have "x = Inr ()"
  proof (cases x)
    case (Inl e)
    then have "s' = s1" using assms(1) sd by (auto simp: read_message_def start_of_data_def and_then_def split: option.splits)
    then show ?thesis using send_declines [OF sd] nd by simp
  qed simp
  then have s1: "trace s1 = trace s @ [Sent start_of_data]" "stream s1 = stream s" "handler s1 = handler s"
    using send_event [OF sd] by auto
  have d1: "declines s s1" using s1(1) by (rule declines_one) simp
  obtain y s2 where hl: "header_loop E ?c s1 = (y, s2)" by (cases "header_loop E ?c s1")
  have d2: "declines s s2" by (rule declines_trans [OF d1 declines_same [OF header_loop_trace [OF hl]]])
  show ?thesis
  proof (cases "\<exists>hs follows. y = Inr (Block hs follows)")
    case False
    have "s' = s2 \<or> (\<exists>b. refuse_large_headers E b s2 = Some (r, s'))"
      using False assms(1) sd hl \<open>x = Inr ()\<close>
      by (auto simp: read_message_def start_of_data_def and_then_def ok_def split: sum.splits header_end.splits)
    then have "declines s s'" using d2 declines_trans [OF d2 refuse_large_declines] by blast
    then show ?thesis using nd by simp
  next
    case True
    then obtain hs follows where y: "y = Inr (Block hs follows)" by blast
    have om: "open_message E hs follows s2 = Some (r, s')"
      using assms(1) sd hl y \<open>x = Inr ()\<close> by (simp add: read_message_def start_of_data_def and_then_def)
    have new: "?c = holding (cfg_max_header_size (cfg E)) []" by (simp add: collector_new_def holding_def)
    from header_loop_stream [OF hl [unfolded y new]] obtain ls e where h: "stream s1 = concat ls @ e @ stream s2"
      "\<forall>l \<in> set ls. full_line l \<and> header_line l" "hs = concat (map unstuff ls)" "trace s2 = trace s1"
      "handler s2 = handler s1" "if follows then is_empty_line e else is_terminator e" by auto
    from open_message_accepts [OF om accepts_behind [OF d2 assms(2) open_message_grows [OF om]]]
    obtain k h' body t cs k1 k' ev where o: "h_open_body (ops E) hs (handler s2) = Some (Inr k, h')"
      "stream s2 = body @ t @ stream s'" "if follows then is_terminator t else body = [] \<and> t = []"
      "concat cs = crlf_norm body" "no_dot_lines True body" "all_written E cs k k1" "k_finish (ops E) k1 = (Inr m, k')"
      "trace s' = trace s2 @ OpenCall hs True # map (\<lambda>c. WriteCall c True) cs @ [Finished (Inr m), ev]" "answered m ev"
      by blast
    show ?thesis
    proof (cases follows)
      case True
      then show ?thesis using h o s1
        by (intro exI [of _ ls] exI [of _ e] exI [of _ body] exI [of _ t] exI [of _ k] exI [of _ h'] exI [of _ cs]
            exI [of _ k1] exI [of _ k'] exI [of _ ev]) simp
    next
      case False
      then show ?thesis using h o s1
        by (intro exI [of _ ls] exI [of _ "[]"] exI [of _ "[]"] exI [of _ e] exI [of _ k] exI [of _ h'] exI [of _ cs]
            exI [of _ k1] exI [of _ k'] exI [of _ ev]) simp
    qed
  qed
qed

end
