(* ===== verification/Float64.thy ===== *)
theory Float64
  imports Complex_Main "HOL-Library.Log_Nat"
begin

text \<open>
  The \<open>f64\<close> arithmetic of the rate limiter: a non-negative double is a rational number, and an operation is
  the exact one followed by \<open>rnd\<close>, the rounding of IEEE 754 to 53 significant bits, to nearest with ties to
  even. The exponent is not bounded: the values of the limiter lie between one nanosecond in minutes and
  the largest duration in tokens, far from the ends of the range of a double.
\<close>

lemma of_nat_rat [code_unfold]: "of_nat n = rat_of_int (int n)"
  by simp

section \<open>Rounding\<close>

text \<open>To the nearest integer, ties to even.\<close>

definition half_even :: "rat \<Rightarrow> int" where
  "half_even m =
     (let f = \<lfloor>m\<rfloor>; d = m - of_int f
      in if d < 1 / 2 then f else if d > 1 / 2 then f + 1 else if even f then f else f + 1)"

lemma half_even_floor: "\<lfloor>m\<rfloor> \<le> half_even m \<and> half_even m \<le> \<lfloor>m\<rfloor> + 1"
  by (simp add: half_even_def Let_def)

lemma half_even_error: "\<bar>of_int (half_even m) - m\<bar> \<le> 1 / 2"
proof -
  have "of_int \<lfloor>m\<rfloor> \<le> m" "m < of_int \<lfloor>m\<rfloor> + 1" by linarith+
  then show ?thesis unfolding half_even_def Let_def abs_le_iff by (simp split: if_split) linarith
qed

lemma half_even_of_int [simp]: "half_even (of_int k) = k"
  by (simp add: half_even_def Let_def)

lemma half_even_mono:
  assumes "m \<le> n"
  shows "half_even m \<le> half_even n"
proof (cases "\<lfloor>m\<rfloor> = \<lfloor>n\<rfloor>")
  case True
  with assms show ?thesis by (auto simp: half_even_def Let_def)
next
  case False
  with floor_mono [OF assms] show ?thesis using half_even_floor [of m] half_even_floor [of n] by linarith
qed

text \<open>The exponent of the leading bit of a positive number.\<close>

definition expo :: "rat \<Rightarrow> int" where
  "expo x =
     (let (p, q) = quotient_of x; k = bitlen p - bitlen q
      in if 2 powi k \<le> x then k else k - 1)"

lemma powi_mono: "a \<le> b \<Longrightarrow> (2 :: rat) powi a \<le> 2 powi b"
  by (rule power_int_increasing) simp_all

lemma powi_pos: "(0 :: rat) < 2 powi a"
  by simp

lemma powi_Suc: "(2 :: rat) powi (a + 1) = 2 * 2 powi a"
  by (simp add: power_int_add)

lemma powi_add: "(2 :: rat) powi (a + b) = 2 powi a * 2 powi b"
  by (simp add: power_int_add)

lemma powi_bitlen:
  assumes "0 < (p :: int)"
  shows "2 powi (bitlen p - 1) \<le> (of_int p :: rat)" and "(of_int p :: rat) < 2 powi bitlen p"
proof -
  have b: "0 \<le> bitlen p - 1" using assms bitlen_nonneg [of p] bitlen_eq_zero_iff [of p] by linarith
  note d = bitlen_bounds [OF assms]
  have "(of_int (2 ^ nat (bitlen p - 1)) :: rat) \<le> of_int p" using d unfolding of_int_le_iff by simp
  then show "2 powi (bitlen p - 1) \<le> (of_int p :: rat)" using b by (simp add: power_int_nonneg_exp)
  have "(of_int p :: rat) < of_int (2 ^ nat (bitlen p))" using d unfolding of_int_less_iff by simp
  then show "(of_int p :: rat) < 2 powi bitlen p" using b by (simp add: power_int_nonneg_exp)
qed

lemma expo_bounds:
  assumes "0 < x"
  shows "2 powi expo x \<le> x" and "x < 2 powi (expo x + 1)"
proof -
  obtain p q where pq: "quotient_of x = (p, q)" by (cases "quotient_of x")
  have q: "0 < q" using quotient_of_denom_pos [OF pq] .
  have x: "x = of_int p / of_int q" using quotient_of_div [OF pq] .
  have p: "0 < p" using assms q x by (simp add: zero_less_divide_iff)
  note bp = powi_bitlen [OF p] and bq = powi_bitlen [OF q]
  have q': "(0 :: rat) < of_int q" using q by simp
  let ?k = "bitlen p - bitlen q"
  have "2 powi (?k - 1) * (of_int q :: rat) \<le> 2 powi (?k - 1) * 2 powi bitlen q"
    using bq(2) by (intro mult_left_mono) simp_all
  also have "\<dots> = 2 powi (bitlen p - 1)" by (simp add: powi_add [symmetric])
  finally have lo: "2 powi (?k - 1) \<le> x" using bp(1) q' by (simp add: x pos_le_divide_eq)
  have "(of_int p :: rat) < 2 powi bitlen p" by (rule bp(2))
  also have "\<dots> = 2 powi (?k + 1) * 2 powi (bitlen q - 1)" by (simp add: powi_add [symmetric])
  also have "\<dots> \<le> 2 powi (?k + 1) * of_int q" using bq(1) by (intro mult_left_mono) simp_all
  finally have hi: "x < 2 powi (?k + 1)" using q' by (simp add: x pos_divide_less_eq)
  show "2 powi expo x \<le> x" and "x < 2 powi (expo x + 1)"
    using lo hi by (auto simp: expo_def pq Let_def)
qed

definition rnd :: "rat \<Rightarrow> rat" where
  "rnd x =
     (if x \<le> 0 then 0
      else let u = 2 powi (expo x - 52) in of_int (half_even (x / u)) * u)"


section \<open>What rounding keeps\<close>

lemma rnd_0 [simp]: "rnd 0 = 0"
  by (simp add: rnd_def)

lemma rnd_error:
  assumes "0 \<le> x"
  shows "\<bar>rnd x - x\<bar> \<le> x / 2 ^ 53"
proof (cases "x = 0")
  case False
  with assms have x: "0 < x" by simp
  let ?u = "2 powi (expo x - 52) :: rat"
  have u: "0 < ?u" by simp
  have "\<bar>of_int (half_even (x / ?u)) - x / ?u\<bar> * ?u \<le> 1 / 2 * ?u"
    using half_even_error [of "x / ?u"] u by (intro mult_right_mono) simp_all
  moreover have "\<bar>of_int (half_even (x / ?u)) - x / ?u\<bar> * ?u = \<bar>rnd x - x\<bar>"
  proof -
    have "(of_int (half_even (x / ?u)) - x / ?u) * ?u = rnd x - x"
      using x u by (simp add: rnd_def Let_def left_diff_distrib)
    moreover have "\<bar>of_int (half_even (x / ?u)) - x / ?u\<bar> * ?u = \<bar>(of_int (half_even (x / ?u)) - x / ?u) * ?u\<bar>"
      using u by (simp add: abs_mult)
    ultimately show ?thesis by simp
  qed
  moreover have "1 / 2 * ?u \<le> x / 2 ^ 53"
  proof -
    have "?u = 2 powi expo x / 2 ^ 52" by (simp add: power_int_diff)
    then show ?thesis using expo_bounds(1) [OF x] by simp
  qed
  ultimately show ?thesis by simp
qed simp

lemma rnd_nonneg: "0 \<le> rnd x"
proof (cases "x \<le> 0")
  case False
  then have "0 \<le> x" by simp
  moreover from rnd_error [OF this] have "x - rnd x \<le> x / 2 ^ 53" by linarith
  moreover have "x / 2 ^ 53 \<le> x" using \<open>0 \<le> x\<close> by simp
  ultimately show ?thesis by linarith
qed (simp add: rnd_def)

lemma rnd_upper: "0 \<le> x \<Longrightarrow> rnd x \<le> x + x / 2 ^ 53"
  using rnd_error [of x] by linarith

text \<open>A number of at most 53 bits above some power of two is kept.\<close>

lemma rnd_exact:
  assumes "0 < m" "m < 2 ^ 53" and x: "x = of_int m * 2 powi e"
  shows "rnd x = x"
proof -
  have x0: "0 < x" using assms by simp
  let ?e = "expo x - 52"
  have "(of_int m :: rat) < 2 powi 53"
  proof -
    have "(of_int m :: rat) < of_int (2 ^ 53)" using assms(2) unfolding of_int_less_iff .
    then show ?thesis by simp
  qed
  then have "x < 2 powi (53 + e)" using assms(1) unfolding x powi_add by (intro mult_strict_right_mono) simp_all
  with expo_bounds(1) [OF x0] have "(2 :: rat) powi expo x < 2 powi (53 + e)" by simp
  then have "\<not> 53 + e \<le> expo x" using powi_mono [of "53 + e" "expo x"] by linarith
  then have d: "0 \<le> e - ?e" by simp
  have "x / 2 powi ?e = of_int m * 2 powi (e - ?e)"
    unfolding power_int_diff [OF disjI1, of "2 :: rat" e ?e, simplified] by (simp add: x)
  also have "\<dots> = of_int (m * 2 ^ nat (e - ?e))" using d by (simp add: power_int_nonneg_exp)
  finally have q: "x / 2 powi ?e = of_int (m * 2 ^ nat (e - ?e))" .
  have "of_int (half_even (x / 2 powi ?e)) = x / 2 powi ?e" unfolding q half_even_of_int ..
  then show ?thesis using x0 by (simp add: rnd_def Let_def)
qed

lemma rnd_of_nat: "n < 2 ^ 53 \<Longrightarrow> rnd (of_nat n) = of_nat n"
  using rnd_exact [of "int n" "of_nat n" 0] by (cases "n = 0") simp_all

lemma rnd_powi: "rnd (2 powi e) = 2 powi e"
  by (rule rnd_exact [of 1 _ e]) simp_all

lemma rnd_same_binade:
  assumes "0 < x" "x \<le> y" "expo x = expo y"
  shows "rnd x \<le> rnd y"
proof -
  have "half_even (x / 2 powi (expo y - 52)) \<le> half_even (y / 2 powi (expo y - 52))"
    using assms by (intro half_even_mono divide_right_mono) simp_all
  then show ?thesis using assms by (simp add: rnd_def Let_def mult_right_mono)
qed

lemma expo_eq:
  assumes "2 powi e \<le> x" "x < 2 powi (e + 1)"
  shows "expo x = e"
proof -
  have x: "0 < x" using assms(1) powi_pos [of e] by linarith
  note b = expo_bounds [OF x]
  have "\<not> e + 1 \<le> expo x" using powi_mono [of "e + 1" "expo x"] b(1) assms(2) by linarith
  moreover have "\<not> expo x + 1 \<le> e" using powi_mono [of "expo x + 1" e] b(2) assms(1) by linarith
  ultimately show ?thesis by simp
qed

lemma rnd_binade:
  assumes "0 < x"
  shows "2 powi expo x \<le> rnd x" and "rnd x \<le> 2 powi (expo x + 1)"
proof -
  note b = expo_bounds [OF assms]
  have "expo (2 powi expo x) = expo x" by (rule expo_eq) (simp_all add: powi_Suc)
  then show "2 powi expo x \<le> rnd x"
    using rnd_same_binade [OF powi_pos b(1)] by (simp add: rnd_powi)
  let ?u = "2 powi (expo x - 52) :: rat"
  have "x / ?u \<le> 2 powi (expo x + 1) / ?u" using b(2) by (intro divide_right_mono) simp_all
  also have "\<dots> = of_int (2 ^ 53)"
  proof -
    have "(2 :: rat) powi (expo x + 1) = 2 powi 53 * ?u" unfolding powi_add [symmetric] by (simp add: add.commute)
    then show ?thesis by simp
  qed
  finally have "half_even (x / ?u) \<le> 2 ^ 53" using half_even_mono half_even_of_int by metis
  then have "(of_int (half_even (x / ?u)) :: rat) \<le> of_int (2 ^ 53)" unfolding of_int_le_iff .
  then have "of_int (half_even (x / ?u)) * ?u \<le> of_int (2 ^ 53) * ?u" by (rule mult_right_mono) simp
  also have "\<dots> = 2 powi (expo x + 1)"
  proof -
    have "(2 :: rat) powi 53 * ?u = 2 powi (expo x + 1)" unfolding powi_add [symmetric] by (simp add: add.commute)
    then show ?thesis by simp
  qed
  finally show "rnd x \<le> 2 powi (expo x + 1)" using assms by (simp add: rnd_def Let_def)
qed

lemma rnd_mono:
  assumes "x \<le> y"
  shows "rnd x \<le> rnd y"
proof (cases "x \<le> 0")
  case True
  then show ?thesis using rnd_nonneg by (simp add: rnd_def)
next
  case False
  then have x: "0 < x" and y: "0 < y" using assms by simp_all
  have "(2 :: rat) powi expo x < 2 powi (expo y + 1)"
    using expo_bounds(1) [OF x] expo_bounds(2) [OF y] assms by linarith
  then have "expo x \<le> expo y" using powi_mono [of "expo y + 1" "expo x"] by linarith
  then consider "expo x = expo y" | "expo x + 1 \<le> expo y" by linarith
  then show ?thesis
  proof cases
    case 1
    then show ?thesis using rnd_same_binade [OF x assms] by simp
  next
    case 2
    then show ?thesis using rnd_binade(2) [OF x] rnd_binade(1) [OF y] powi_mono [OF 2] by linarith
  qed
qed

end
