(* ===== verification/Rate_Limit.thy ===== *)
theory Rate_Limit
  imports Prelude Float64 "HOL-Library.AList" "HOL-Library.Word"
begin

text \<open>
  \<open>src/src/ratelimit.rs\<close>: token buckets keyed by the username claimed at AUTH.

  An \<open>Instant\<close> is a number of nanoseconds, a \<open>Duration\<close> too; tokens are doubles, as rationals rounded after
  each operation (theory \<open>Float64\<close>). The hash map is an association list; its order stands for the order of
  iteration, which only \<open>min_by_key\<close> sees, among buckets that are equally idle. The clock is an argument, as
  it is of \<open>allow_at\<close>. The mutex is one step per operation.
\<close>

section \<open>The limiter\<close>

definition MAX_BUCKETS :: nat where
  "MAX_BUCKETS = 10000"

record bucket =
  tokens :: rat
  last_used :: nat

type_synonym buckets = "(bytes \<times> bucket) list"

fun min_by_last :: "buckets \<Rightarrow> (bytes \<times> bucket) option" where
  "min_by_last [] = None"
| "min_by_last (kb # bs) =
     (case min_by_last bs of
        None \<Rightarrow> Some kb
      | Some kb' \<Rightarrow> if last_used (snd kb) \<le> last_used (snd kb') then Some kb else Some kb')"

definition evict_idlest :: "buckets \<Rightarrow> buckets" where
  "evict_idlest bs = (case min_by_last bs of None \<Rightarrow> bs | Some kb \<Rightarrow> AList.delete (fst kb) bs)"

record rate_limiter =
  per_minute :: "32 word"
  bucket_map :: buckets

definition limiter_new :: "32 word \<Rightarrow> rate_limiter" where
  "limiter_new w = \<lparr>per_minute = w, bucket_map = []\<rparr>"

text \<open>\<open>Duration::as_secs_f64\<close>: the seconds and the nanoseconds as doubles, the latter divided, and added.\<close>

definition NANOS_PER_SEC :: nat where
  "NANOS_PER_SEC = 1000000000"

definition as_secs_f64 :: "nat \<Rightarrow> rat" where
  "as_secs_f64 d =
     rnd (rnd (of_nat (d div NANOS_PER_SEC)) + rnd (of_nat (d mod NANOS_PER_SEC) / of_nat NANOS_PER_SEC))"

definition capacity :: "32 word \<Rightarrow> rat" where
  "capacity w = of_nat (unat w)"

text \<open>The part of \<open>allow_at\<close> that works on one bucket: refill, remember the time, take a token.\<close>

definition spend :: "rat \<Rightarrow> nat \<Rightarrow> bucket \<Rightarrow> bool \<times> bucket" where
  "spend cap now b =
     (let minutes = rnd (as_secs_f64 (now - last_used b) / 60);
          t = min (rnd (tokens b + rnd (minutes * cap))) cap;
          l = max (last_used b) now
      in if t \<ge> 1 then (True, \<lparr>tokens = rnd (t - 1), last_used = l\<rparr>)
         else (False, \<lparr>tokens = t, last_used = l\<rparr>))"

definition bucket_for :: "rat \<Rightarrow> bytes \<Rightarrow> nat \<Rightarrow> buckets \<Rightarrow> bucket" where
  "bucket_for cap key now bs =
     (case map_of bs key of Some b \<Rightarrow> b | None \<Rightarrow> \<lparr>tokens = cap, last_used = now\<rparr>)"

definition allow_at :: "rate_limiter \<Rightarrow> bytes \<Rightarrow> nat \<Rightarrow> bool \<times> rate_limiter" where
  "allow_at L key now =
     (if per_minute L = 0 then (True, L)
      else let cap = capacity (per_minute L);
               bs = (if length (bucket_map L) \<ge> MAX_BUCKETS \<and> key \<notin> fst ` set (bucket_map L)
                     then evict_idlest (bucket_map L) else bucket_map L);
               (allowed, b) = spend cap now (bucket_for cap key now bs)
           in (allowed, L\<lparr>bucket_map := AList.update key b bs\<rparr>))"

definition prune :: "rate_limiter \<Rightarrow> nat \<Rightarrow> nat \<Rightarrow> rate_limiter" where
  "prune L now idle = L\<lparr>bucket_map := filter (\<lambda>kb. now - last_used (snd kb) < idle) (bucket_map L)\<rparr>"

definition bucket_count :: "rate_limiter \<Rightarrow> nat" where
  "bucket_count L = length (bucket_map L)"


section \<open>The invariant\<close>

definition bucket_ok :: "rat \<Rightarrow> bucket \<Rightarrow> bool" where
  "bucket_ok cap b \<longleftrightarrow> 0 \<le> tokens b \<and> tokens b \<le> cap"

definition limiter_inv :: "rate_limiter \<Rightarrow> bool" where
  "limiter_inv L \<longleftrightarrow>
     bucket_count L \<le> MAX_BUCKETS \<and> distinct (map fst (bucket_map L)) \<and>
     list_all (\<lambda>kb. bucket_ok (capacity (per_minute L)) (snd kb)) (bucket_map L) \<and>
     (per_minute L = 0 \<longrightarrow> bucket_map L = [])"

lemma capacity_nonneg: "0 \<le> capacity w"
  unfolding capacity_def by (rule of_nat_0_le_iff)

lemma capacity_ge_1: "w \<noteq> 0 \<Longrightarrow> 1 \<le> capacity w"
proof -
  assume "w \<noteq> 0"
  then have "0 < unat w" by (simp add: unat_gt_0)
  then have "of_nat 1 \<le> (of_nat (unat w) :: rat)" unfolding of_nat_le_iff by linarith
  then show ?thesis unfolding capacity_def by simp
qed

lemma rnd_capacity: "rnd (capacity w) = capacity w"
proof -
  have "unat w < 2 ^ LENGTH(32)" by (rule unsigned_less)
  then have "unat w < 2 ^ 53" by simp
  then show ?thesis unfolding capacity_def by (rule rnd_of_nat)
qed

lemma rnd_le_capacity: "x \<le> capacity w \<Longrightarrow> rnd x \<le> capacity w"
  using rnd_mono [of x "capacity w"] by (simp add: rnd_capacity)

lemma spend_ok: "bucket_ok (capacity w) (snd (spend (capacity w) now b))"
proof -
  let ?t = "min (rnd (tokens b + rnd (rnd (as_secs_f64 (now - last_used b) / 60) * capacity w))) (capacity w)"
  have "0 \<le> ?t" using rnd_nonneg capacity_nonneg by simp
  moreover have "rnd (?t - 1) \<le> capacity w" by (rule rnd_le_capacity) simp
  ultimately show ?thesis by (simp add: spend_def bucket_ok_def Let_def rnd_nonneg)
qed

lemma min_by_last_None: "min_by_last bs = None \<longleftrightarrow> bs = []"
  by (cases bs) (simp_all split: option.split)

lemma min_by_last_mem: "min_by_last bs = Some kb \<Longrightarrow> kb \<in> set bs"
  by (induction bs arbitrary: kb) (simp_all split: option.splits if_splits)

lemma min_by_last_least: "min_by_last bs = Some kb \<Longrightarrow> kb' \<in> set bs \<Longrightarrow> last_used (snd kb) \<le> last_used (snd kb')"
proof (induction bs arbitrary: kb)
  case (Cons x bs)
  show ?case
  proof (cases "min_by_last bs")
    case None
    then show ?thesis using Cons.prems by (simp add: min_by_last_None)
  next
    case (Some y)
    note least = Cons.IH [OF Some]
    show ?thesis
    proof (cases "last_used (snd x) \<le> last_used (snd y)")
      case True
      then have kb: "kb = x" using Cons.prems(1) Some by simp
      show ?thesis using Cons.prems(2) least True unfolding kb by fastforce
    next
      case False
      then have kb: "kb = y" using Cons.prems(1) Some by simp
      show ?thesis using Cons.prems(2) least False unfolding kb by fastforce
    qed
  qed
qed simp

lemma length_delete_mem:
  assumes "k \<in> fst ` set bs"
  shows "length (AList.delete k bs) < length bs"
proof -
  from assms obtain x where x: "x \<in> set bs" "\<not> fst x \<noteq> k" by auto
  have "length (filter (\<lambda>(k', _). k \<noteq> k') bs) < length bs"
    by (rule length_filter_less [of x]) (use x in \<open>auto split: prod.split\<close>)
  then show ?thesis by (simp add: AList.delete_eq)
qed

lemma evict_length: "bs \<noteq> [] \<Longrightarrow> length (evict_idlest bs) < length bs"
proof -
  assume "bs \<noteq> []"
  then obtain kb where kb: "min_by_last bs = Some kb" using min_by_last_None [of bs] by (cases "min_by_last bs") auto
  have "fst kb \<in> fst ` set bs" using min_by_last_mem [OF kb] by (rule imageI)
  then show ?thesis using length_delete_mem by (simp add: evict_idlest_def kb)
qed

lemma evict_subset: "set (evict_idlest bs) \<subseteq> set bs"
  by (auto simp: evict_idlest_def AList.delete_eq split: option.split)

lemma evict_distinct: "distinct (map fst bs) \<Longrightarrow> distinct (map fst (evict_idlest bs))"
  by (simp add: evict_idlest_def AList.distinct_delete split: option.split)

lemma length_update:
  "length (AList.update k v bs) = (if k \<in> fst ` set bs then length bs else Suc (length bs))"
  by (induction bs) auto

lemma set_update: "kb \<in> set (AList.update k v bs) \<Longrightarrow> kb = (k, v) \<or> kb \<in> set bs"
  by (induction bs) (auto split: if_splits)

lemma allow_at_inv:
  assumes "limiter_inv L"
  shows "limiter_inv (snd (allow_at L key now))"
proof (cases "per_minute L = 0")
  case False
  let ?cap = "capacity (per_minute L)"
  define bs where "bs = (if length (bucket_map L) \<ge> MAX_BUCKETS \<and> key \<notin> fst ` set (bucket_map L)
                     then evict_idlest (bucket_map L) else bucket_map L)"
  define b where "b = snd (spend ?cap now (bucket_for ?cap key now bs))"
  have L': "snd (allow_at L key now) = L\<lparr>bucket_map := AList.update key b bs\<rparr>"
    using False by (simp add: allow_at_def Let_def bs_def b_def split: prod.split)
  have len: "length (bucket_map L) \<le> MAX_BUCKETS" using assms by (simp add: limiter_inv_def bucket_count_def)
  have sub: "set bs \<subseteq> set (bucket_map L)" using evict_subset by (auto simp: bs_def)
  have dist: "distinct (map fst bs)" using assms evict_distinct by (simp add: bs_def limiter_inv_def)
  have "length (AList.update key b bs) \<le> MAX_BUCKETS"
  proof (cases "length (bucket_map L) \<ge> MAX_BUCKETS \<and> key \<notin> fst ` set (bucket_map L)")
    case True
    then have "bucket_map L \<noteq> []" by (auto simp: MAX_BUCKETS_def)
    from evict_length [OF this] True len show ?thesis by (simp add: bs_def length_update)
  next
    case False
    then show ?thesis using len by (auto simp: bs_def length_update)
  qed
  moreover have "list_all (\<lambda>kb. bucket_ok ?cap (snd kb)) (AList.update key b bs)"
    using set_update [of _ key b bs] sub assms spend_ok by (fastforce simp: list_all_iff limiter_inv_def b_def)
  ultimately show ?thesis
    using False dist by (simp add: limiter_inv_def L' bucket_count_def AList.distinct_update)
qed (simp add: allow_at_def assms)

lemma prune_inv:
  assumes "limiter_inv L"
  shows "limiter_inv (prune L now idle)"
proof -
  let ?P = "\<lambda>kb. now - last_used (snd kb) < idle"
  have "length (filter ?P (bucket_map L)) \<le> MAX_BUCKETS"
    using assms length_filter_le [of ?P "bucket_map L"] unfolding limiter_inv_def bucket_count_def by linarith
  then show ?thesis
    using assms by (simp add: limiter_inv_def prune_def bucket_count_def list_all_iff distinct_map_filter)
qed

lemma limiter_new_inv: "limiter_inv (limiter_new w)"
  by (simp add: limiter_inv_def limiter_new_def bucket_count_def)

text \<open>The operations of a limiter over its life.\<close>

datatype limiter_op = Allow bytes nat | Prune nat nat

fun limiter_step :: "limiter_op \<Rightarrow> rate_limiter \<Rightarrow> rate_limiter" where
  "limiter_step (Allow key now) L = snd (allow_at L key now)"
| "limiter_step (Prune now idle) L = prune L now idle"

lemma limiter_steps_inv: "limiter_inv L \<Longrightarrow> limiter_inv (fold limiter_step xs L)"
proof (induction xs arbitrary: L)
  case (Cons x xs)
  then show ?case by (cases x) (simp_all add: allow_at_inv prune_inv)
qed simp

text \<open>
  C21. Whatever the calls, at whatever times, the map of the limiter never holds more than \<open>MAX_BUCKETS\<close>
  buckets, never two for one key, and every bucket holds between zero tokens and the capacity, with the
  doubles rounded as they are; with the limit off no bucket is ever made.
\<close>

theorem limiter_bounded: "limiter_inv (fold limiter_step xs (limiter_new w))"
  by (rule limiter_steps_inv) (rule limiter_new_inv)


section \<open>One bucket\<close>

text \<open>The time between two instants in minutes, exactly.\<close>

definition minutes_of :: "nat \<Rightarrow> rat" where
  "minutes_of d = of_nat d / (60 * 10 ^ 9)"

lemma minutes_of_nonneg: "0 \<le> minutes_of d"
  by (simp add: minutes_of_def)

lemma minutes_of_add: "minutes_of (a + b) = minutes_of a + minutes_of b"
  by (simp add: minutes_of_def add_divide_distrib)

definition eps :: rat where
  "eps = 1 / 2 ^ 53"

lemma rnd_eps: "0 \<le> x \<Longrightarrow> rnd x \<le> x * (1 + eps)"
  using rnd_upper [of x] by (simp add: eps_def distrib_left)

lemma rnd_eps_le: "0 \<le> x \<Longrightarrow> x \<le> y \<Longrightarrow> rnd x \<le> y * (1 + eps)"
  using rnd_eps [of y] rnd_mono [of x y] by linarith

lemma secs_split: "of_nat (d div NANOS_PER_SEC) + of_nat (d mod NANOS_PER_SEC) / of_nat NANOS_PER_SEC =
    (of_nat d / of_nat NANOS_PER_SEC :: rat)"
proof -
  have "(of_nat d :: rat) = of_nat (d div NANOS_PER_SEC * NANOS_PER_SEC + d mod NANOS_PER_SEC)" by simp
  also have "\<dots> = of_nat (d div NANOS_PER_SEC) * of_nat NANOS_PER_SEC + of_nat (d mod NANOS_PER_SEC)"
    by (simp only: of_nat_add of_nat_mult)
  finally show ?thesis by (simp add: add_divide_distrib NANOS_PER_SEC_def)
qed

lemma as_secs_nonneg: "0 \<le> as_secs_f64 d"
  by (simp add: as_secs_f64_def rnd_nonneg)

lemma as_secs_upper: "as_secs_f64 d \<le> of_nat d / of_nat NANOS_PER_SEC * (1 + eps) * (1 + eps)"
proof -
  let ?s = "of_nat (d div NANOS_PER_SEC) :: rat"
  let ?n = "of_nat (d mod NANOS_PER_SEC) / of_nat NANOS_PER_SEC :: rat"
  have "rnd ?s + rnd ?n \<le> ?s * (1 + eps) + ?n * (1 + eps)"
    by (intro add_mono rnd_eps) simp_all
  also have "\<dots> = (?s + ?n) * (1 + eps)" by (simp add: distrib_right)
  finally have "rnd ?s + rnd ?n \<le> of_nat d / of_nat NANOS_PER_SEC * (1 + eps)" unfolding secs_split .
  then show ?thesis unfolding as_secs_f64_def using rnd_nonneg by (intro rnd_eps_le) simp_all
qed

text \<open>The refill of a bucket: what was to come in, but for the rounding of four operations.\<close>

definition refill :: "rat \<Rightarrow> nat \<Rightarrow> rat" where
  "refill cap d = rnd (rnd (as_secs_f64 d / 60) * cap)"

lemma eps_4: "(1 + eps) * (1 + eps) * (1 + eps) * (1 + eps) \<le> 1 + 1 / 2 ^ 50"
  by (simp add: eps_def)

lemma refill_upper:
  assumes "0 \<le> cap"
  shows "refill cap d \<le> minutes_of d * cap * (1 + 1 / 2 ^ 50)"
proof -
  have "as_secs_f64 d / 60 \<le> minutes_of d * (1 + eps) * (1 + eps)"
    using as_secs_upper [of d] by (simp add: minutes_of_def NANOS_PER_SEC_def)
  then have "rnd (as_secs_f64 d / 60) \<le> minutes_of d * (1 + eps) * (1 + eps) * (1 + eps)"
    using as_secs_nonneg by (intro rnd_eps_le) simp_all
  then have "rnd (as_secs_f64 d / 60) * cap \<le> minutes_of d * (1 + eps) * (1 + eps) * (1 + eps) * cap"
    using assms by (rule mult_right_mono)
  then have "refill cap d \<le> minutes_of d * (1 + eps) * (1 + eps) * (1 + eps) * cap * (1 + eps)"
    unfolding refill_def using rnd_nonneg assms by (intro rnd_eps_le) simp_all
  also have "\<dots> = minutes_of d * cap * ((1 + eps) * (1 + eps) * (1 + eps) * (1 + eps))" by (simp add: ac_simps)
  also have "\<dots> \<le> minutes_of d * cap * (1 + 1 / 2 ^ 50)"
    using minutes_of_nonneg assms eps_4 by (intro mult_left_mono) simp_all
  finally show ?thesis .
qed

lemma spend_eq:
  "spend cap now b =
     (let t = min (rnd (tokens b + refill cap (now - last_used b))) cap; l = max (last_used b) now
      in if t \<ge> 1 then (True, \<lparr>tokens = rnd (t - 1), last_used = l\<rparr>)
         else (False, \<lparr>tokens = t, last_used = l\<rparr>))"
  by (simp add: spend_def refill_def Let_def)

lemma spend_last: "last_used (snd (spend cap now b)) = max (last_used b) now"
  by (simp add: spend_def Let_def)

text \<open>One call pays for the token it takes out of what the bucket had and what came in since.\<close>

lemma spend_pays:
  assumes "bucket_ok cap b" "0 \<le> cap"
  shows "tokens (snd (spend cap now b)) + of_bool (fst (spend cap now b)) \<le>
    tokens b + minutes_of (now - last_used b) * cap * (1 + 1 / 2 ^ 50) + cap / 2 ^ 52"
proof -
  let ?r = "refill cap (now - last_used b)"
  define t where "t = min (rnd (tokens b + ?r)) cap"
  have tb: "0 \<le> tokens b" using assms(1) by (simp add: bucket_ok_def)
  have r0: "0 \<le> ?r" by (simp add: refill_def rnd_nonneg)
  have t: "t \<le> tokens b + ?r + cap / 2 ^ 53"
  proof (cases "tokens b + ?r \<le> cap")
    case True
    have "rnd (tokens b + ?r) \<le> tokens b + ?r + (tokens b + ?r) / 2 ^ 53" using tb r0 by (intro rnd_upper) simp
    moreover have "(tokens b + ?r) / 2 ^ 53 \<le> cap / 2 ^ 53" using True by (intro divide_right_mono) simp_all
    moreover have "t \<le> rnd (tokens b + ?r)" by (simp add: t_def)
    ultimately show ?thesis by linarith
  next
    case False
    moreover have "0 \<le> cap / 2 ^ 53" using assms(2) by simp
    ultimately have "cap \<le> tokens b + ?r + cap / 2 ^ 53" by linarith
    then show ?thesis by (simp add: t_def min_def)
  qed
  have u: "rnd (t - 1) \<le> t - 1 + cap / 2 ^ 53" if "t \<ge> 1"
  proof -
    have "rnd (t - 1) \<le> t - 1 + (t - 1) / 2 ^ 53" using that by (intro rnd_upper) simp
    moreover have "(t - 1) / 2 ^ 53 \<le> cap / 2 ^ 53"
      by (intro divide_right_mono) (simp_all add: t_def min_def)
    ultimately show ?thesis by linarith
  qed
  have e: "cap / 2 ^ 53 + cap / 2 ^ 53 = cap / 2 ^ 52" "0 \<le> cap / 2 ^ 53" using assms(2) by simp_all
  have "tokens (snd (spend cap now b)) + of_bool (fst (spend cap now b)) \<le> t + cap / 2 ^ 53"
  proof (cases "t \<ge> 1")
    case True
    then have "spend cap now b = (True, \<lparr>tokens = rnd (t - 1), last_used = max (last_used b) now\<rparr>)"
      by (simp add: spend_eq Let_def t_def)
    then show ?thesis using u [OF True] by simp
  next
    case False
    then have "spend cap now b = (False, \<lparr>tokens = t, last_used = max (last_used b) now\<rparr>)"
      by (simp add: spend_eq Let_def t_def)
    then show ?thesis using e(2) by simp
  qed
  then show ?thesis using t e refill_upper [OF assms(2), of "now - last_used b"] by linarith
qed

fun spends :: "rat \<Rightarrow> bucket \<Rightarrow> nat list \<Rightarrow> bool list \<times> bucket" where
  "spends cap b [] = ([], b)"
| "spends cap b (t # ts) =
     (let (allowed, b1) = spend cap t b; (rest, b2) = spends cap b1 ts in (allowed # rest, b2))"

definition count_allowed :: "bool list \<Rightarrow> nat" where
  "count_allowed bs = length (filter (\<lambda>x. x) bs)"

lemma spends_pay:
  assumes "bucket_ok (capacity w) b"
  shows "tokens (snd (spends (capacity w) b ts)) + of_nat (count_allowed (fst (spends (capacity w) b ts))) \<le>
      tokens b + minutes_of (last_used (snd (spends (capacity w) b ts)) - last_used b) * capacity w * (1 + 1 / 2 ^ 50)
      + of_nat (length ts) * (capacity w / 2 ^ 52) \<and>
    last_used b \<le> last_used (snd (spends (capacity w) b ts))"
  using assms
proof (induction ts arbitrary: b)
  case Nil
  then show ?case by (simp add: count_allowed_def minutes_of_def)
next
  case (Cons t ts)
  let ?c = "capacity w"
  obtain a b1 where s: "spend ?c t b = (a, b1)" by (cases "spend ?c t b")
  obtain r b2 where rs: "spends ?c b1 ts = (r, b2)" by (cases "spends ?c b1 ts")
  have ok: "bucket_ok ?c b1" using spend_ok [of w t b] s by simp
  note ih = Cons.IH [OF ok, unfolded rs]
  have l: "last_used b1 = max (last_used b) t" using spend_last [of ?c t b] s by simp
  have p: "tokens b1 + of_bool a \<le> tokens b + minutes_of (last_used b1 - last_used b) * ?c * (1 + 1 / 2 ^ 50) + ?c / 2 ^ 52"
  proof -
    have "t - last_used b = last_used b1 - last_used b" using l by simp
    then show ?thesis using spend_pays [OF Cons.prems capacity_nonneg, of t] unfolding s fst_conv snd_conv by simp
  qed
  have "last_used b2 - last_used b = (last_used b1 - last_used b) + (last_used b2 - last_used b1)"
    using ih l by simp
  then have m: "minutes_of (last_used b2 - last_used b) * ?c * (1 + 1 / 2 ^ 50) =
      minutes_of (last_used b1 - last_used b) * ?c * (1 + 1 / 2 ^ 50) +
      minutes_of (last_used b2 - last_used b1) * ?c * (1 + 1 / 2 ^ 50)"
    by (simp add: minutes_of_add distrib_right)
  have n: "of_nat (count_allowed (a # r)) = (of_bool a :: rat) + of_nat (count_allowed r)"
    by (simp add: count_allowed_def)
  have k: "of_nat (length (t # ts)) * (?c / 2 ^ 52) = ?c / 2 ^ 52 + of_nat (length ts) * (?c / 2 ^ 52)"
    by (simp add: distrib_right)
  have f: "fst (spends ?c b (t # ts)) = a # r" "snd (spends ?c b (t # ts)) = b2"
    by (simp_all add: s rs)
  show ?case unfolding f n k m using ih p l by (simp only: fst_conv snd_conv) linarith
qed


section \<open>Many keys\<close>

text \<open>A sequence of calls on the whole limiter, each answer with its key.\<close>

fun calls :: "rate_limiter \<Rightarrow> (bytes \<times> nat) list \<Rightarrow> (bytes \<times> bool) list" where
  "calls L [] = []"
| "calls L ((key, now) # cs) =
     (let (allowed, L1) = allow_at L key now in (key, allowed) # calls L1 cs)"

definition of_key :: "bytes \<Rightarrow> (bytes \<times> 'a) list \<Rightarrow> 'a list" where
  "of_key k xs = map snd (filter (\<lambda>x. fst x = k) xs)"

lemma of_key_simps [simp]:
  "of_key k [] = []" "of_key k (x # xs) = (if fst x = k then snd x # of_key k xs else of_key k xs)"
  by (simp_all add: of_key_def)

text \<open>What the calls of one key would be answered by a bucket of its own.\<close>

definition alone :: "rat \<Rightarrow> bytes \<Rightarrow> buckets \<Rightarrow> nat list \<Rightarrow> bool list" where
  "alone cap k bs ts = (case ts of [] \<Rightarrow> [] | t # _ \<Rightarrow> fst (spends cap (bucket_for cap k t bs) ts))"

lemma allow_at_no_evict:
  assumes "per_minute L \<noteq> 0" and "card (insert key (fst ` set (bucket_map L))) \<le> MAX_BUCKETS"
    and "distinct (map fst (bucket_map L))"
  shows "allow_at L key now =
    (let (a, b) = spend (capacity (per_minute L)) now (bucket_for (capacity (per_minute L)) key now (bucket_map L))
     in (a, L\<lparr>bucket_map := AList.update key b (bucket_map L)\<rparr>))"
proof -
  have "card (fst ` set (bucket_map L)) = length (bucket_map L)"
    using distinct_card [OF assms(3)] by simp
  then have "\<not> (length (bucket_map L) \<ge> MAX_BUCKETS \<and> key \<notin> fst ` set (bucket_map L))"
    using assms(2) by (cases "key \<in> fst ` set (bucket_map L)") (simp_all add: card_insert_if)
  then show ?thesis unfolding allow_at_def Let_def using assms(1) by (simp only: if_False)
qed

lemma bucket_for_update:
  "bucket_for cap k t (AList.update key b bs) = (if key = k then b else bucket_for cap k t bs)"
  by (simp add: bucket_for_def AList.update_conv')

lemma calls_alone:
  assumes "per_minute L \<noteq> 0" and "card (fst ` set (bucket_map L) \<union> fst ` set cs) \<le> MAX_BUCKETS"
    and "distinct (map fst (bucket_map L))"
  shows "of_key k (calls L cs) = alone (capacity (per_minute L)) k (bucket_map L) (of_key k cs)"
  using assms
proof (induction cs arbitrary: L)
  case Nil
  then show ?case by (simp add: alone_def)
next
  case (Cons c cs)
  let ?c = "capacity (per_minute L)"
  obtain key now where c: "c = (key, now)" by (cases c)
  obtain a b where s: "spend ?c now (bucket_for ?c key now (bucket_map L)) = (a, b)"
    by (cases "spend ?c now (bucket_for ?c key now (bucket_map L))")
  let ?L = "L\<lparr>bucket_map := AList.update key b (bucket_map L)\<rparr>"
  have "card (insert key (fst ` set (bucket_map L))) \<le> card (fst ` set (bucket_map L) \<union> fst ` set (c # cs))"
    by (rule card_mono) (auto simp: c)
  then have al: "allow_at L key now = (a, ?L)"
    using allow_at_no_evict [OF Cons.prems(1) _ Cons.prems(3), of key now] Cons.prems(2) s by simp
  have keys: "fst ` set (bucket_map ?L) = insert key (fst ` set (bucket_map L))"
    by (simp add: AList.dom_update)
  have ih: "of_key k (calls ?L cs) = alone ?c k (bucket_map ?L) (of_key k cs)"
    using Cons.IH [of ?L] Cons.prems keys by (simp add: c AList.distinct_update)
  show ?case
  proof (cases "key = k")
    case True
    have "alone ?c k (bucket_map ?L) ts = fst (spends ?c b ts)" for ts
      using True by (cases ts) (simp_all add: alone_def bucket_for_update del: spends.simps(2))
    with ih have r: "of_key k (calls ?L cs) = fst (spends ?c b (of_key k cs))" by simp
    have "of_key k (calls L (c # cs)) = a # of_key k (calls ?L cs)"
      unfolding c calls.simps al Let_def using True by simp
    moreover have "alone ?c k (bucket_map L) (of_key k (c # cs)) = a # fst (spends ?c b (of_key k cs))"
      using True s by (simp add: c alone_def split_beta)
    ultimately show ?thesis using r by simp
  next
    case False
    have "alone ?c k (bucket_map ?L) ts = alone ?c k (bucket_map L) ts" for ts
      using False by (cases ts) (simp_all add: alone_def bucket_for_update del: spends.simps(2))
    with ih False show ?thesis by (simp add: c al)
  qed
qed

text \<open>
  C22. The keys do not disturb each other: as long as no more than \<open>MAX_BUCKETS\<close> keys are in play, the answers
  a key gets, between any calls of other keys, are those of a bucket of its own that starts full.
\<close>

theorem limiter_refines_buckets:
  assumes "w \<noteq> 0" and "card (fst ` set cs) \<le> MAX_BUCKETS"
  shows "of_key k (calls (limiter_new w) cs) = alone (capacity w) k [] (of_key k cs)"
  using calls_alone [of "limiter_new w" cs k] assms by (simp add: limiter_new_def)

theorem limiter_refines_buckets_witness:
  "of_key ''a'' (calls (limiter_new 1) [(''b'', 0), (''a'', 0), (''b'', 1)]) = [True] \<and>
   alone (capacity 1) ''a'' [] [0] = [True]"
proof -
  have h: "(1 :: 32 word) \<noteq> 0" by simp
  have c: "card (fst ` set [(''b'', 0 :: nat), (''a'', 0), (''b'', 1)]) \<le> MAX_BUCKETS" by code_simp
  have "capacity 1 = 1" by (simp add: capacity_def)
  moreover have "alone 1 ''a'' [] [0] = [True]" by code_simp
  ultimately have a: "alone (capacity 1) ''a'' [] [0] = [True]" by (simp only:)
  show ?thesis using limiter_refines_buckets [OF h c, of "''a''"] a by simp
qed


section \<open>A quiet key\<close>

lemma as_secs_mono: "60 * NANOS_PER_SEC \<le> d \<Longrightarrow> 60 \<le> as_secs_f64 d"
proof -
  assume "60 * NANOS_PER_SEC \<le> d"
  then have "60 \<le> d div NANOS_PER_SEC" by (simp add: NANOS_PER_SEC_def)
  then have "rnd (of_nat 60) \<le> rnd (of_nat (d div NANOS_PER_SEC))" by (intro rnd_mono) (simp only: of_nat_le_iff)
  moreover have r: "rnd (of_nat 60) = of_nat 60" by (rule rnd_of_nat) simp
  ultimately have "of_nat 60 \<le> rnd (of_nat (d div NANOS_PER_SEC)) +
      rnd (of_nat (d mod NANOS_PER_SEC) / of_nat NANOS_PER_SEC)"
    using rnd_nonneg [of "of_nat (d mod NANOS_PER_SEC) / of_nat NANOS_PER_SEC"] by linarith
  from rnd_mono [OF this] show ?thesis unfolding as_secs_f64_def r by simp
qed

lemma refill_minute:
  assumes "60 * NANOS_PER_SEC \<le> d"
  shows "capacity w \<le> refill (capacity w) d"
proof -
  have "1 \<le> as_secs_f64 d / 60" using as_secs_mono [OF assms] by simp
  from rnd_mono [OF this] have "1 \<le> rnd (as_secs_f64 d / 60)" using rnd_of_nat [of 1] by simp
  then have "1 * capacity w \<le> rnd (as_secs_f64 d / 60) * capacity w" by (rule mult_right_mono) (rule capacity_nonneg)
  from rnd_mono [OF this] show ?thesis by (simp add: refill_def rnd_capacity)
qed

lemma spend_full:
  assumes "0 \<le> tokens b" "60 * NANOS_PER_SEC \<le> now - last_used b"
  shows "spend (capacity w) now b = spend (capacity w) now \<lparr>tokens = capacity w, last_used = now\<rparr>"
proof -
  have full: "min (rnd (tk + r)) (capacity w) = capacity w" if "0 \<le> tk" "capacity w \<le> tk + r" for tk r
    using rnd_mono [OF that(2)] by (simp add: rnd_capacity min_def)
  have "capacity w \<le> tokens b + refill (capacity w) (now - last_used b)"
    using refill_minute [OF assms(2), of w] assms(1) by linarith
  moreover have "capacity w \<le> capacity w + refill (capacity w) (now - now)"
    by (simp add: refill_def rnd_nonneg)
  moreover have "max (last_used b) now = now" using assms(2) by (simp add: NANOS_PER_SEC_def)
  ultimately show ?thesis
    using full [OF assms(1)] full [OF capacity_nonneg] by (simp add: spend_eq Let_def)
qed

lemma spend_fresh: "w \<noteq> 0 \<Longrightarrow> fst (spend (capacity w) now \<lparr>tokens = capacity w, last_used = now\<rparr>)"
  using capacity_ge_1 [of w] rnd_mono [of "capacity w" "capacity w + refill (capacity w) 0"]
  by (simp add: spend_eq Let_def rnd_capacity refill_def rnd_nonneg min_def)

text \<open>
  C23. Forgetting is harmless: when \<open>prune\<close> drops the buckets that have been idle for a minute or longer (the
  program asks for more), the answer to the next call of any key at that time or later is the one it
  would have had, for a dropped bucket would have been full again; and so is the bucket it leaves.
\<close>

theorem prune_harmless:
  assumes "limiter_inv L" and "per_minute L \<noteq> 0" and "bucket_count L < MAX_BUCKETS"
    and "60 * NANOS_PER_SEC \<le> idle" and "pruned \<le> now"
  shows "fst (allow_at (prune L pruned idle) key now) = fst (allow_at L key now) \<and>
    map_of (bucket_map (snd (allow_at (prune L pruned idle) key now))) key =
    map_of (bucket_map (snd (allow_at L key now))) key"
proof -
  let ?c = "capacity (per_minute L)" and ?bs = "bucket_map L"
  let ?ps = "filter (\<lambda>kb. pruned - last_used (snd kb) < idle) ?bs"
  have d: "distinct (map fst ?bs)" using assms(1) by (simp add: limiter_inv_def)
  have l: "\<not> MAX_BUCKETS \<le> length ?bs" "\<not> MAX_BUCKETS \<le> length ?ps"
    using assms(3) length_filter_le [of "\<lambda>kb. pruned - last_used (snd kb) < idle" ?bs]
    unfolding bucket_count_def by linarith+
  have "spend ?c now (bucket_for ?c key now ?ps) = spend ?c now (bucket_for ?c key now ?bs)"
  proof (cases "map_of ?bs key")
    case None
    then have "map_of ?ps key = None" by (auto simp: map_of_eq_None_iff)
    with None show ?thesis by (simp add: bucket_for_def)
  next
    case (Some b)
    show ?thesis
    proof (cases "pruned - last_used b < idle")
      case True
      then have "(key, b) \<in> set ?ps" using Some by (simp add: map_of_SomeD)
      then have "map_of ?ps key = Some b" using d by (intro map_of_is_SomeI) (simp_all add: distinct_map_filter)
      with Some show ?thesis by (simp add: bucket_for_def)
    next
      case False
      have "map_of ?ps key = None"
      proof -
        have "b' = b" if "(key, b') \<in> set ?bs" for b' using map_of_is_SomeI [OF d that] Some by simp
        then show ?thesis using False by (auto simp: map_of_eq_None_iff)
      qed
      moreover have "0 \<le> tokens b"
        using assms(1) map_of_SomeD [OF Some] by (auto simp: limiter_inv_def list_all_iff bucket_ok_def)
      moreover have "60 * NANOS_PER_SEC \<le> now - last_used b" using False assms(4,5) by linarith
      ultimately show ?thesis using Some spend_full by (simp add: bucket_for_def)
    qed
  qed
  then show ?thesis
    using assms(2) l by (simp add: allow_at_def prune_def Let_def split_beta AList.update_conv')
qed

theorem prune_harmless_witness:
  "fst (allow_at (prune (snd (allow_at (limiter_new 1) ''a'' 0)) 60000000000 60000000000) ''a'' 60000000000)"
proof -
  let ?L = "snd (allow_at (limiter_new 1) ''a'' 0)"
  have h: "per_minute ?L \<noteq> 0" "bucket_count ?L < MAX_BUCKETS" "60 * NANOS_PER_SEC \<le> 60000000000"
    "(60000000000 :: nat) \<le> 60000000000" by code_simp+
  have "fst (allow_at ?L ''a'' 60000000000)" by code_simp
  then show ?thesis using prune_harmless [OF allow_at_inv [OF limiter_new_inv] h] by simp
qed


section \<open>The rate\<close>

text \<open>
  What a bucket allows between two instants, whatever it held before and however long it had been idle: at most
  its capacity at once, and on top what comes in meanwhile.
\<close>

lemma spends_ok: "bucket_ok (capacity w) b \<Longrightarrow> bucket_ok (capacity w) (snd (spends (capacity w) b ts))"
  by (induction ts arbitrary: b) (simp_all add: split_beta Let_def spend_ok)

lemma spends_last:
  "last_used b \<le> l \<Longrightarrow> \<forall>t \<in> set ts. t \<le> l \<Longrightarrow> last_used (snd (spends c b ts)) \<le> l"
proof (induction ts arbitrary: b)
  case (Cons t ts)
  have "last_used (snd (spend c t b)) \<le> l" using Cons.prems by (simp add: spend_last)
  then show ?case using Cons by (simp add: split_beta Let_def)
qed simp

lemma spend_capped: "tokens (snd (spend (capacity w) now b)) + of_bool (fst (spend (capacity w) now b)) \<le>
    capacity w + capacity w / 2 ^ 52"
proof -
  let ?c = "capacity w"
  define t where "t = min (rnd (tokens b + refill ?c (now - last_used b))) ?c"
  have c: "0 \<le> ?c" "t \<le> ?c" by (simp_all add: capacity_nonneg t_def)
  show ?thesis
  proof (cases "t \<ge> 1")
    case True
    then have s: "spend ?c now b = (True, \<lparr>tokens = rnd (t - 1), last_used = max (last_used b) now\<rparr>)"
      by (simp add: spend_eq Let_def t_def)
    have "rnd (t - 1) \<le> t - 1 + (t - 1) / 2 ^ 53" using True by (intro rnd_upper) simp
    moreover have "(t - 1) / 2 ^ 53 \<le> ?c / 2 ^ 52" using c by (intro frac_le) simp_all
    ultimately have "rnd (t - 1) + 1 \<le> ?c + ?c / 2 ^ 52" using c by linarith
    then show ?thesis unfolding s by simp
  next
    case False
    then have s: "spend ?c now b = (False, \<lparr>tokens = t, last_used = max (last_used b) now\<rparr>)"
      by (simp add: spend_eq Let_def t_def)
    show ?thesis using c unfolding s by simp
  qed
qed

lemma spends_bound:
  assumes "\<forall>t \<in> set ts. first \<le> t \<and> t \<le> final"
  shows "of_nat (count_allowed (fst (spends (capacity w) b ts))) \<le>
    capacity w + minutes_of (final - first) * capacity w * (1 + 1 / 2 ^ 50) + of_nat (length ts) * (capacity w / 2 ^ 52)"
proof (cases ts)
  case Nil
  have "0 \<le> minutes_of (final - first) * capacity w * (1 + 1 / 2 ^ 50)"
    using minutes_of_nonneg capacity_nonneg by simp
  then show ?thesis using Nil capacity_nonneg [of w] by (simp add: count_allowed_def)
next
  case (Cons t us)
  let ?c = "capacity w"
  obtain a b1 where s: "spend ?c t b = (a, b1)" by (cases "spend ?c t b")
  obtain r b2 where rs: "spends ?c b1 us = (r, b2)" by (cases "spends ?c b1 us")
  have ok: "bucket_ok ?c b1" using spend_ok [of w t b] s by simp
  have l1: "first \<le> last_used b1" "last_used b1 = max (last_used b) t"
    using spend_last [of ?c t b] s assms Cons by (simp_all add: le_max_iff_disj)
  have "last_used b2 \<le> max (last_used b1) final"
    using spends_last [of b1 "max (last_used b1) final" us ?c] assms Cons rs by (simp add: le_max_iff_disj)
  then have "last_used b2 - last_used b1 \<le> final - first" using l1(1) by linarith
  then have m: "minutes_of (last_used b2 - last_used b1) * ?c * (1 + 1 / 2 ^ 50) \<le>
      minutes_of (final - first) * ?c * (1 + 1 / 2 ^ 50)"
    using capacity_nonneg [of w] unfolding minutes_of_def
    by (intro mult_right_mono divide_right_mono) (simp_all only: of_nat_le_iff, simp_all)
  have "0 \<le> tokens b2" using spends_ok [OF ok, of us] rs by (simp add: bucket_ok_def)
  moreover have "tokens b1 + of_bool a \<le> ?c + ?c / 2 ^ 52" using spend_capped [of w t b] s by simp
  moreover have n: "of_nat (count_allowed (a # r)) = (of_bool a :: rat) + of_nat (count_allowed r)"
    by (simp add: count_allowed_def)
  moreover have k: "of_nat (length (t # us)) * (?c / 2 ^ 52) = ?c / 2 ^ 52 + of_nat (length us) * (?c / 2 ^ 52)"
    by (simp add: distrib_right)
  moreover have f: "fst (spends ?c b (t # us)) = a # r" by (simp add: s rs)
  ultimately show ?thesis using spends_pay [OF ok, of us] m unfolding Cons f n k rs by (simp only: fst_conv snd_conv) linarith
qed

text \<open>The answers of a limiter over a part of its life, with the prunings of the timer in between.\<close>

fun answers :: "rate_limiter \<Rightarrow> limiter_op list \<Rightarrow> (bytes \<times> bool) list" where
  "answers L [] = []"
| "answers L (Allow key now # xs) = (let (allowed, L1) = allow_at L key now in (key, allowed) # answers L1 xs)"
| "answers L (Prune now idle # xs) = answers (prune L now idle) xs"

fun calls_of :: "limiter_op list \<Rightarrow> (bytes \<times> nat) list" where
  "calls_of [] = []"
| "calls_of (Allow key now # xs) = (key, now) # calls_of xs"
| "calls_of (Prune now idle # xs) = calls_of xs"

text \<open>
  A call behind a pruning is not dated earlier than a minute after the last use of what it dropped. That is so when the
  clock does not go back and the pruning asks for an idle minute at least, and also when the calls are
  out of order by less than what it asks for on top.
\<close>

fun orderly :: "limiter_op list \<Rightarrow> bool" where
  "orderly [] \<longleftrightarrow> True"
| "orderly (Allow key now # xs) \<longleftrightarrow> orderly xs"
| "orderly (Prune p idle # xs) \<longleftrightarrow> 0 < idle \<and> (\<forall>c \<in> set (calls_of xs). p + 60 * NANOS_PER_SEC \<le> snd c + idle) \<and> orderly xs"

definition keys_of :: "rate_limiter \<Rightarrow> bytes set" where
  "keys_of L = fst ` set (bucket_map L)"

text \<open>A bucket that was pruned, and what it would be now: full at every later call.\<close>

definition forgotten :: "limiter_op list \<Rightarrow> bucket option \<Rightarrow> bucket option \<Rightarrow> bool" where
  "forgotten xs o1 o2 \<longleftrightarrow> o1 = o2 \<or>
     o1 = None \<and> (\<exists>b. o2 = Some b \<and> 0 \<le> tokens b \<and> (\<forall>c \<in> set (calls_of xs). last_used b + 60 * NANOS_PER_SEC \<le> snd c))"

definition full_at :: "rat \<Rightarrow> nat \<Rightarrow> bucket option \<Rightarrow> bucket" where
  "full_at cap now x = (case x of Some b \<Rightarrow> b | None \<Rightarrow> \<lparr>tokens = cap, last_used = now\<rparr>)"

definition spends_from :: "rat \<Rightarrow> bucket option \<Rightarrow> nat list \<Rightarrow> bool list" where
  "spends_from cap x ts = (case ts of [] \<Rightarrow> [] | t # _ \<Rightarrow> fst (spends cap (full_at cap t x) ts))"

lemma bucket_for_full: "bucket_for cap k now bs = full_at cap now (map_of bs k)"
  by (simp add: bucket_for_def full_at_def)

lemma forgotten_spend:
  assumes "forgotten xs o1 o2" "(k, now) \<in> set (calls_of xs)"
  shows "spend (capacity w) now (full_at (capacity w) now o1) = spend (capacity w) now (full_at (capacity w) now o2)"
proof (cases "o1 = o2")
  case False
  then obtain b where b: "o1 = None" "o2 = Some b" "0 \<le> tokens b" "last_used b + 60 * NANOS_PER_SEC \<le> now"
    using assms by (auto simp: forgotten_def)
  then show ?thesis using spend_full [of b now w] by (simp add: full_at_def)
qed simp

lemma forgotten_tl: "forgotten (x # xs) o1 o2 \<Longrightarrow> forgotten xs o1 o2"
  by (cases x) (auto simp: forgotten_def)

lemma map_of_filter_distinct:
  "distinct (map fst bs) \<Longrightarrow> map_of (filter (\<lambda>kb. P (snd kb)) bs) k =
     (case map_of bs k of Some b \<Rightarrow> if P b then Some b else None | None \<Rightarrow> None)"
proof (induction bs)
  case (Cons kb bs)
  have "map_of bs (fst kb) = None" using Cons.prems by (simp add: map_of_eq_None_iff)
  with Cons show ?case by (cases kb) auto
qed simp

lemma answers_alone:
  assumes "per_minute L \<noteq> 0" "limiter_inv L" "card (keys_of L \<union> fst ` set (calls_of xs)) \<le> MAX_BUCKETS"
    and "orderly xs" "forgotten xs (map_of (bucket_map L) k) x"
  shows "of_key k (answers L xs) = spends_from (capacity (per_minute L)) x (of_key k (calls_of xs))"
  using assms
proof (induction xs arbitrary: L x)
  case Nil
  then show ?case by (simp add: spends_from_def)
next
  case (Cons op xs)
  let ?c = "capacity (per_minute L)"
  have d: "distinct (map fst (bucket_map L))" using Cons.prems(2) by (simp add: limiter_inv_def)
  show ?case
  proof (cases op)
    case (Prune p idle)
    let ?L = "prune L p idle"
    have "card (keys_of ?L \<union> fst ` set (calls_of xs)) \<le> card (keys_of L \<union> fst ` set (calls_of (op # xs)))"
      by (rule card_mono) (auto simp: keys_of_def prune_def Prune)
    moreover have "forgotten xs (map_of (bucket_map ?L) k) x"
    proof -
      have m: "map_of (bucket_map ?L) k = (case map_of (bucket_map L) k of
          Some b \<Rightarrow> if p - last_used b < idle then Some b else None | None \<Rightarrow> None)"
        using map_of_filter_distinct [OF d, of "\<lambda>b. p - last_used b < idle" k] by (simp add: prune_def)
      have f: "forgotten xs (map_of (bucket_map L) k) x" using Cons.prems(5) forgotten_tl by blast
      show ?thesis
      proof (cases "map_of (bucket_map ?L) k = map_of (bucket_map L) k")
        case True
        with f show ?thesis by simp
      next
        case False
        then obtain b where b: "map_of (bucket_map L) k = Some b" "\<not> p - last_used b < idle" "map_of (bucket_map ?L) k = None"
          unfolding m by (auto split: option.splits if_splits)
        have "last_used b + 60 * NANOS_PER_SEC \<le> snd c" if "c \<in> set (calls_of xs)" for c
        proof -
          have "p + 60 * NANOS_PER_SEC \<le> snd c + idle" "0 < idle" using that Cons.prems(4) by (auto simp: Prune)
          then show ?thesis using b(2) by linarith
        qed
        moreover have "0 \<le> tokens b"
          using Cons.prems(2) map_of_SomeD [OF b(1)] by (auto simp: limiter_inv_def list_all_iff bucket_ok_def)
        moreover have "x = Some b" using f b(1) by (simp add: forgotten_def)
        ultimately show ?thesis using b(3) by (auto simp: forgotten_def)
      qed
    qed
    ultimately have "of_key k (answers ?L xs) = spends_from (capacity (per_minute ?L)) x (of_key k (calls_of xs))"
      using Cons.prems prune_inv by (intro Cons.IH) (auto simp: prune_def Prune)
    then show ?thesis by (simp add: Prune prune_def)
  next
    case (Allow key now)
    obtain a b where s: "spend ?c now (bucket_for ?c key now (bucket_map L)) = (a, b)"
      by (cases "spend ?c now (bucket_for ?c key now (bucket_map L))")
    let ?L = "L\<lparr>bucket_map := AList.update key b (bucket_map L)\<rparr>"
    have "card (insert key (keys_of L)) \<le> card (keys_of L \<union> fst ` set (calls_of (op # xs)))"
      by (rule card_mono) (auto simp: keys_of_def Allow)
    then have al: "allow_at L key now = (a, ?L)"
      using allow_at_no_evict [OF Cons.prems(1) _ d, of key now] Cons.prems(3) s by (simp add: keys_of_def)
    have inv: "limiter_inv ?L" using allow_at_inv [OF Cons.prems(2), of key now] al by simp
    have keys: "keys_of ?L = insert key (keys_of L)" by (simp add: keys_of_def AList.dom_update)
    have ih: "of_key k (answers ?L xs) = spends_from ?c y (of_key k (calls_of xs))"
      if "forgotten xs (map_of (bucket_map ?L) k) y" for y
      using Cons.IH [OF _ inv _ _ that] Cons.prems keys by (simp add: Allow)
    show ?thesis
    proof (cases "key = k")
      case True
      have s2: "spend ?c now (full_at ?c now x) = (a, b)"
        using forgotten_spend [OF Cons.prems(5), of k now "per_minute L"] s True by (simp add: Allow bucket_for_full)
      have "of_key k (answers ?L xs) = spends_from ?c (Some b) (of_key k (calls_of xs))"
        using True by (intro ih) (simp add: forgotten_def AList.update_conv')
      then show ?thesis using True s2 al
        by (cases "of_key k (calls_of xs)") (simp_all add: Allow spends_from_def split_beta full_at_def)
    next
      case False
      have "of_key k (answers ?L xs) = spends_from ?c x (of_key k (calls_of xs))"
        using False forgotten_tl [OF Cons.prems(5)] by (intro ih) (simp add: AList.update_conv')
      then show ?thesis using False al by (simp add: Allow)
    qed
  qed
qed

text \<open>
  C11. The limit is a limit. Take any limiter the program can have, after any calls, prunings and evictions, and
  what happens to it between two instants: calls of any keys and prunings of idle buckets. As long as the keys it
  remembers and the keys that call are no more than \<open>MAX_BUCKETS\<close> together, so that none is evicted, a key is
  allowed at most its capacity at once and, on top, \<open>per_minute\<close> messages a minute, however long it had been
  idle before. The rounding of the doubles adds less than one part in \<open>2^50\<close> to the rate
  and one part in \<open>2^52\<close> of the capacity for each call.
\<close>

theorem limiter_rate:
  assumes "limiter_inv L" and "per_minute L \<noteq> 0"
    and "card (keys_of L \<union> fst ` set (calls_of xs)) \<le> MAX_BUCKETS" and "orderly xs"
    and "\<forall>c \<in> set (calls_of xs). first \<le> snd c \<and> snd c \<le> final"
  shows "of_nat (count_allowed (of_key k (answers L xs))) \<le>
    capacity (per_minute L) + minutes_of (final - first) * capacity (per_minute L) * (1 + 1 / 2 ^ 50) +
    of_nat (length (of_key k (calls_of xs))) * (capacity (per_minute L) / 2 ^ 52)"
proof -
  let ?c = "capacity (per_minute L)" and ?ts = "of_key k (calls_of xs)"
  have t: "\<forall>t \<in> set ?ts. first \<le> t \<and> t \<le> final" using assms(5) by (auto simp: of_key_def)
  have "of_key k (answers L xs) = spends_from ?c (map_of (bucket_map L) k) ?ts"
    using answers_alone [OF assms(2,1,3,4)] by (simp add: forgotten_def)
  moreover have "of_nat (count_allowed (spends_from ?c x ?ts)) \<le>
      ?c + minutes_of (final - first) * ?c * (1 + 1 / 2 ^ 50) + of_nat (length ?ts) * (?c / 2 ^ 52)" for x
    using spends_bound [OF t, of "per_minute L"] spends_bound [of "[]" first final "per_minute L" "full_at ?c 0 x"]
    by (cases ?ts) (simp_all add: spends_from_def)
  ultimately show ?thesis by simp
qed

text \<open>A key that used its limit, was idle for an hour and comes back: three calls at once, and a pruning before them.\<close>

theorem limiter_rate_witness:
  "\<exists>L. L = fold limiter_step [Allow ''a'' 0, Allow ''a'' 0, Allow ''b'' 3600000000000] (limiter_new 2) \<and>
     bucket_count L = 2 \<and>
     count_allowed (of_key ''a'' (answers L
       [Prune 3600000000000 1800000000000, Allow ''a'' 3600000000000, Allow ''a'' 3600000000000, Allow ''a'' 3600000000000])) \<le> 2"
proof -
  let ?T = "3600000000000 :: nat" let ?L = "fold limiter_step [Allow ''a'' 0, Allow ''a'' 0, Allow ''b'' ?T] (limiter_new 2)"
  let ?xs = "[Prune ?T 1800000000000, Allow ''a'' ?T, Allow ''a'' ?T, Allow ''a'' ?T]"
  have i: "limiter_inv ?L" by (rule limiter_steps_inv) (rule limiter_new_inv)
  have w: "per_minute ?L = 2" by code_simp
  have w0: "per_minute ?L \<noteq> 0" unfolding w by simp
  have c: "card (keys_of ?L \<union> fst ` set (calls_of ?xs)) \<le> MAX_BUCKETS" by code_simp
  have o: "orderly ?xs" by code_simp
  have t: "\<forall>c \<in> set (calls_of ?xs). ?T \<le> snd c \<and> snd c \<le> ?T" by code_simp
  have b: "bucket_count ?L = 2" by code_simp
  have cap: "capacity 2 = 2" by (simp add: capacity_def)
  have l: "length (of_key ''a'' (calls_of ?xs)) = 3" by code_simp
  have "(of_nat (count_allowed (of_key ''a'' (answers ?L ?xs))) :: rat) < 3"
    using limiter_rate [OF i w0 c o t, of "''a''"] unfolding w cap l by (simp add: minutes_of_def)
  then have "count_allowed (of_key ''a'' (answers ?L ?xs)) \<le> 2" by linarith
  then show ?thesis using b by (intro exI [of _ ?L] conjI refl)
qed

end
