(* ===== verification/Relay_Safety.thy ===== *)
theory Relay_Safety
  imports Relay Command
begin

text \<open>
  What holds of the upstream side: no upstream can make it panic, whatever it sends; the codes it hands
  on are refusals the client can be sent; where TLS is required nothing but the preamble of \<open>STARTTLS\<close>
  goes out in the clear; a command line carries nothing but its command; and the bytes on the wire are
  those handed in.
\<close>

section \<open>Codes\<close>

lemma client_code_refusal: "refusal_code (client_code e)"
  by (cases e) (auto simp: client_code_def refusal_code_def)

lemma replied_refuses: "refuses (replied code text)"
  by (simp add: replied_def refuses_def refusal_code_def)

lemma client_code_into_relay_error: "refuses v \<Longrightarrow> client_code (into_relay_error c v) = (case v of Dropped \<Rightarrow> 451 | Replied n _ \<Rightarrow> n)"
  by (cases v) (auto simp: into_relay_error_def client_code_def refuses_def refusal_code_def)


section \<open>Replies of the upstream\<close>

lemma read_line_up_valid: "read_line_up t b evs = (Inr line, b', evs') \<Longrightarrow> utf8_valid line"
  by (auto simp: read_line_up_def split: prod.splits sum.splits if_splits)

lemma nat_of_digits_less:
  "list_all is_ascii_digit ds \<Longrightarrow> nat_of_digits ds < 10 ^ length ds"
proof (induction ds rule: rev_induct)
  case Nil
  show ?case by (simp add: nat_of_digits_def)
next
  case (snoc d ds)
  have d: "digit_val d < 10" using snoc.prems by (auto simp: digit_val_def byte_defs)
  have "nat_of_digits (ds @ [d]) = 10 * nat_of_digits ds + digit_val d" by (simp add: nat_of_digits_def)
  with snoc d show ?case by simp
qed

lemma reply_lines_up_facts:
  assumes "reply_lines_up t raw texts b evs = (Inr r, b', evs')" "utf8_valid raw"
  shows "utf8_valid (ur_raw r) \<and> ur_code r < 1000 \<and> length (ur_raw r) \<le> MAX_REPLY_TOTAL"
  using assms
proof (induction t raw texts b evs rule: reply_lines_up.induct)
  case (1 t raw texts b evs)
  obtain x b1 evs1 where rl: "read_line_up t b evs = (x, b1, evs1)" by (cases "read_line_up t b evs")
  obtain line where x: "x = Inr line"
    using "1.prems"(1) rl by (cases x) (auto simp: reply_lines_up.simps [of t raw])
  let ?tr = "trim_end_matches (\<lambda>c. c = CR \<or> c = LF) line"
  note p = "1.prems"(1) [unfolded reply_lines_up.simps [of t raw] rl x, simplified]
  have ne: "line \<noteq> []" and lim: "\<not> length (raw @ line) > MAX_REPLY_TOTAL"
    and cut: "\<not> (last line \<noteq> LF \<and> length line \<ge> MAX_UPSTREAM_REPLY_LINE)"
    and dig: "\<not> (length ?tr < 3 \<or> \<not> list_all is_ascii_digit (take 3 ?tr))"
    using p by (auto simp: Let_def split: if_splits)
  have valid: "utf8_valid (raw @ line)" using "1.prems"(2) read_line_up_valid rl x utf8_valid_append by blast
  have code: "nat_of_digits (take 3 ?tr) < 1000" using nat_of_digits_less [of "take 3 ?tr"] dig by simp
  show ?case
  proof (cases "length ?tr = 3 \<or> ?tr ! 3 = SP")
    case True
    then have "ur_raw r = raw @ line" "ur_code r = nat_of_digits (take 3 ?tr)"
      using p ne lim cut dig by (auto simp: Let_def split: if_splits)
    with valid code lim show ?thesis by simp
  next
    case False
    let ?ts = "texts @ [case str_from ?tr 4 of Some s \<Rightarrow> s | None \<Rightarrow> []]"
    have "reply_lines_up t (raw @ line) ?ts b1 evs1 = (Inr r, b', evs')"
      using p ne lim cut dig False by (simp add: Let_def split: if_splits)
    then show ?thesis
      using "1.IH" [OF rl [symmetric] x refl ne cut lim refl dig refl refl False] valid by blast
  qed
qed

lemma read_reply_facts:
  "read_reply u = (Inr r, u') \<Longrightarrow>
     utf8_valid (ur_raw r) \<and> ur_code r < 1000 \<and> length (ur_raw r) \<le> MAX_REPLY_TOTAL"
  using reply_lines_up_facts by (auto simp: read_reply_def split: prod.splits)

lemma up_command_reply:
  assumes "up_command l c u = (Inr r, u')"
  shows "utf8_valid (ur_raw r) \<and> ur_code r div 100 = c"
  using assms read_reply_facts
  by (auto simp: up_command_def require_class_def split: prod.splits sum.splits if_splits)

lemma no_panic_extensions:
  "up_command l c u = (Inr r, u') \<Longrightarrow> parse_extensions (ur_raw r) \<noteq> None"
  using up_command_reply parse_extensions_valid by blast

definition returns :: "'a option \<Rightarrow> bool" where
  "returns m \<longleftrightarrow> m \<noteq> None"

lemma returns_simps [simp]: "returns (Some x)" "returns (ok a u)" "returns (up_result r)"
  by (simp_all add: returns_def ok_def up_result_def)

lemma returns_and_then:
  assumes "returns m" "\<And>a u. m = Some (Inr a, u) \<Longrightarrow> returns (k a u)"
  shows "returns (and_then m k)"
  using assms by (auto simp: returns_def and_then_def split: prod.split sum.split)

lemma returns_if: "returns x \<Longrightarrow> returns y \<Longrightarrow> returns (if b then x else y)"
  by simp

lemma returns_extensions:
  assumes "up_command l c u = (Inr r, u')"
  shows "returns (case parse_extensions (ur_raw r) of None \<Rightarrow> None | Some e \<Rightarrow> ok e v)"
  using no_panic_extensions [OF assms] by (auto simp: returns_def ok_def)

lemma returns_hello: "returns (hello u)"
proof -
  obtain x u1 where c: "up_command (''EHLO '' @ HELLO) 2 u = (x, u1)" by (cases "up_command (''EHLO '' @ HELLO) 2 u")
  show ?thesis
  proof (cases x)
    case (Inl e)
    with c show ?thesis
      by (cases e) (auto simp: hello_def intro!: returns_if returns_and_then)
  next
    case (Inr r)
    with c returns_extensions [of "''EHLO '' @ HELLO" 2 u r u1 u1] show ?thesis by (simp add: hello_def)
  qed
qed

lemma up_result_Inr: "up_result r = Some (Inr a, u) \<Longrightarrow> r = (Inr a, u)"
  by (simp add: up_result_def)

lemma returns_start_tls: "returns (start_tls t u)"
  unfolding start_tls_def
proof (intro returns_and_then)
  fix r v and w :: upstream
  assume "up_result (up_command (''EHLO '' @ HELLO) 2 w) = Some (Inr r, v)"
  from returns_extensions [OF up_result_Inr [OF this]]
  show "returns (case parse_extensions (ur_raw r) of None \<Rightarrow> None | Some e \<Rightarrow> ok e v)" .
qed simp_all

lemma returns_open_up: "returns (open_up t u)"
  unfolding open_up_def
  by (intro returns_and_then returns_if returns_hello)
     (simp_all add: returns_start_tls split: upstream_tls_mode.split)

text \<open>
  No upstream can make the relay panic while it is being greeted: whatever bytes it answers with, in
  whatever pieces, connecting ends in a session or in an error. What the extension parser is given is
  always a valid string, since the reply reader has checked it.
\<close>

lemma returns_connect: "returns (connect c d)"
proof (cases "dial c d")
  case (Inl e)
  then show ?thesis by (simp add: connect_def)
next
  case (Inr u)
  have "returns (greet (tls c) u)"
    unfolding greet_def by (intro returns_and_then returns_open_up) simp
  then obtain x u1 where "greet (tls c) u = Some (x, u1)" by (auto simp: returns_def)
  with Inr show ?thesis by (cases x) (simp_all add: connect_def)
qed


section \<open>What goes out\<close>

definition sent_bytes :: "upstream \<Rightarrow> bytes" where
  "sent_bytes u = concat (map snd (usent u))"

text \<open>A step that keeps the channel: it only adds to what was sent, under the same TLS state.\<close>

definition extends :: "upstream \<Rightarrow> upstream \<Rightarrow> bool" where
  "extends u u' \<longleftrightarrow>
     up_tls u' = up_tls u \<and> (\<exists>ps. usent u' = usent u @ ps \<and> (\<forall>p \<in> set ps. fst p = up_tls u))"

lemma extends_refl [simp]: "extends u u"
  by (simp add: extends_def)

lemma extends_trans: "extends u v \<Longrightarrow> extends v w \<Longrightarrow> extends u w"
  by (auto simp: extends_def)

lemma extends_fields [simp]:
  "extends u (v\<lparr>rbuf := b, revs := e\<rparr>) = extends u v" "extends u (v\<lparr>races := x\<rparr>) = extends u v"
  "extends u (v\<lparr>last_written := l\<rparr>) = extends u v" "extends u (v\<lparr>wouts := ws\<rparr>) = extends u v"
  "extends u (v\<lparr>rbuf := b\<rparr>) = extends u v" "extends u (v\<lparr>caps := c\<rparr>) = extends u v" "extends u (v\<lparr>revs := e\<rparr>) = extends u v"
  "extends (u\<lparr>races := x\<rparr>) v = extends u v" "extends (u\<lparr>last_written := l\<rparr>) v = extends u v"
  by (simp_all add: extends_def)

lemma extends_put [simp]: "extends u (put bs u)"
  by (simp add: extends_def put_def)

lemma sent_bytes_put [simp]: "sent_bytes (put bs u) = sent_bytes u @ bs"
  by (simp add: sent_bytes_def put_def)

lemma sent_bytes_fields [simp]:
  "sent_bytes (u\<lparr>rbuf := b, revs := e\<rparr>) = sent_bytes u" "sent_bytes (u\<lparr>races := x\<rparr>) = sent_bytes u"
  "sent_bytes (u\<lparr>last_written := l\<rparr>) = sent_bytes u" "sent_bytes (u\<lparr>wouts := ws\<rparr>) = sent_bytes u"
  "sent_bytes (u\<lparr>rbuf := b\<rparr>) = sent_bytes u" "sent_bytes (u\<lparr>revs := e\<rparr>) = sent_bytes u" "sent_bytes (u\<lparr>caps := c\<rparr>) = sent_bytes u"
  by (simp_all add: sent_bytes_def)

lemma write_step_extends: "write_step bs u = (r, u') \<Longrightarrow> extends u u'"
  using extends_put [of u]
  by (auto simp: write_step_def extends_def put_def split: list.splits write_outcome.splits)

lemma write_step_sent: "write_step bs u = (Inr x, u') \<Longrightarrow> sent_bytes u' = sent_bytes u @ bs"
  by (auto simp: write_step_def split: list.splits write_outcome.splits)

lemma write_all_chunks_extends: "write_all_chunks cs u = (r, u') \<Longrightarrow> extends u u'"
proof (induction cs arbitrary: u)
  case (Cons c cs)
  then show ?case
    by (auto split: prod.splits sum.splits dest!: write_step_extends intro: extends_trans)
qed simp

lemma write_all_chunks_sent:
  "write_all_chunks cs u = (Inr x, u') \<Longrightarrow> sent_bytes u' = sent_bytes u @ concat cs"
proof (induction cs arbitrary: u)
  case (Cons c cs)
  then show ?case by (auto split: prod.splits sum.splits dest!: write_step_sent)
qed simp

lemma concat_chunks: "n > 0 \<Longrightarrow> concat (chunks n s) = s"
proof (induction n s rule: chunks.induct)
  case (1 n s)
  then show ?case by (subst chunks.simps) simp
qed

lemma WRITE_CHUNK_pos [simp]: "0 < WRITE_CHUNK"
  by (simp add: WRITE_CHUNK_def)

lemma write_chunks_extends: "write_chunks p u = (r, u') \<Longrightarrow> extends u u'"
  by (auto simp: write_chunks_def dest: write_all_chunks_extends)

lemma write_chunks_sent: "write_chunks p u = (Inr x, u') \<Longrightarrow> sent_bytes u' = sent_bytes u @ p"
  by (auto simp: write_chunks_def concat_chunks dest: write_all_chunks_sent)

lemma read_reply_extends: "read_reply u = (r, u') \<Longrightarrow> extends u u' \<and> sent_bytes u' = sent_bytes u \<and> caps u' = caps u"
  by (auto simp: read_reply_def split: prod.splits)

lemma up_command_extends: "up_command l c u = (r, u') \<Longrightarrow> extends u u'"
  by (auto simp: up_command_def send_command_def split: prod.splits sum.splits
      dest!: write_chunks_extends read_reply_extends intro: extends_trans)

lemma up_command_sent:
  "up_command l c u = (Inr r, u') \<Longrightarrow> sent_bytes u' = sent_bytes u @ l @ CRLF"
  by (auto simp: up_command_def send_command_def split: prod.splits sum.splits
      dest!: write_chunks_sent read_reply_extends)

lemma chunks_short: "p \<noteq> [] \<Longrightarrow> length p \<le> n \<Longrightarrow> chunks n p = [p]"
  by (subst chunks.simps) (cases p; simp add: chunks.simps [of n "[]"])

text \<open>A command that fails was sent in part; one that is rejected was sent, for it was answered.\<close>

lemma write_chunks_part:
  assumes "write_chunks p u = (r, u')" "p \<noteq> []" "length p \<le> WRITE_CHUNK"
  shows "\<exists>n. sent_bytes u' = sent_bytes u @ take n p"
proof -
  have "\<exists>n. sent_bytes u @ p = sent_bytes u @ take n p" by (rule exI [of _ "length p"]) simp
  then have "\<exists>n. sent_bytes (snd (write_step p u)) = sent_bytes u @ take n p"
    by (auto simp: write_step_def split: list.split write_outcome.split)
  then show ?thesis using assms(1)
    by (auto simp: write_chunks_def chunks_short [OF assms(2,3)] split: prod.splits sum.splits)
qed

lemma up_command_part:
  assumes "up_command l c u = (r, u')" "length l + 2 \<le> WRITE_CHUNK"
  shows "\<exists>n. sent_bytes u' = sent_bytes u @ take n (l @ CRLF)"
proof -
  obtain x u1 where w: "write_chunks (l @ CRLF) u = (x, u1)" by (cases "write_chunks (l @ CRLF) u")
  have "sent_bytes u' = sent_bytes u1"
    using assms(1) w by (auto simp: up_command_def send_command_def split: prod.splits sum.splits dest!: read_reply_extends)
  then show ?thesis using write_chunks_part [OF w] assms(2) by simp
qed

lemma reply_lines_up_rejected: "reply_lines_up t raw texts b evs \<noteq> (Inl (Rejected c x), b', evs')"
proof (induction t raw texts b evs rule: reply_lines_up.induct)
  case (1 t raw texts b evs)
  have l: "read_line_up t b evs \<noteq> (Inl (Rejected c x), b', evs')"
  proof -
    have "read_until_lf left tm acc b evs \<noteq> (Inl (Rejected c x), b', evs')" for left tm acc b evs
    proof (induction left tm acc b evs rule: read_until_lf.induct)
      case (1 left tm acc b evs)
      then show ?case
        by (subst read_until_lf.simps) (auto split: prod.splits sum.splits option.splits)
    qed
    then show ?thesis by (auto simp: read_line_up_def split: prod.splits sum.splits)
  qed
  with 1 show ?case
    by (subst reply_lines_up.simps) (auto simp: Let_def invalid_data_def split: prod.splits sum.splits)
qed

lemma up_command_rejected:
  assumes "up_command l c u = (Inl (Rejected code x), u')"
  shows "sent_bytes u' = sent_bytes u @ l @ CRLF"
proof -
  obtain y u1 where w: "write_chunks (l @ CRLF) u = (y, u1)" by (cases "write_chunks (l @ CRLF) u")
  have "y \<noteq> Inl (Rejected code x)"
  proof -
    have "write_all_chunks cs v \<noteq> (Inl (Rejected code x), v')" for cs v v'
      by (induction cs arbitrary: v)
         (auto simp: write_step_def split: prod.splits sum.splits list.splits write_outcome.splits)
    then show ?thesis using w by (auto simp: write_chunks_def)
  qed
  with assms w obtain z where z: "y = Inr z" by (cases y) (auto simp: up_command_def send_command_def)
  then have "sent_bytes u' = sent_bytes u1"
    using assms w by (auto simp: up_command_def send_command_def split: prod.splits sum.splits dest!: read_reply_extends)
  then show ?thesis using write_chunks_sent w z by simp
qed

lemma quit_up_extends: "extends u (quit_up u)"
  using up_command_extends [of "''QUIT''" 2 u] by (cases "up_command ''QUIT'' 2 u") (auto simp: quit_up_def)

lemma rcpt_loop_extends: "rcpt_loop rs u = (r, u') \<Longrightarrow> extends u u'"
proof (induction rs arbitrary: u)
  case (Cons r rs)
  then show ?case by (auto split: prod.splits sum.splits dest!: up_command_extends intro: extends_trans)
qed simp

lemma open_transaction_extends: "open_transaction e u = (r, u') \<Longrightarrow> extends u u'"
  by (auto simp: open_transaction_def split: prod.splits sum.splits
      dest!: up_command_extends rcpt_loop_extends intro: extends_trans)

lemma fill_buf_extends: "fill_buf u = (r, u') \<Longrightarrow> extends u u' \<and> sent_bytes u' = sent_bytes u"
  by (auto simp: fill_buf_def split: if_splits list.splits read_event.splits)

lemma extends_put_races: "extends (put bs (u\<lparr>races := x\<rparr>)) v \<Longrightarrow> extends u v"
  using extends_put [of "u\<lparr>races := x\<rparr>" bs] extends_trans by fastforce

lemma write_pieces_extends: "write_pieces ps u = (r, u') \<Longrightarrow> extends u u'"
proof (induction ps arbitrary: u)
  case (Cons p ps)
  then show ?case
    by (auto simp: Let_def split: prod.splits sum.splits option.splits
        dest!: write_step_extends read_reply_extends fill_buf_extends
        intro: extends_trans extends_put_races)
qed simp

lemma write_pieces_sent: "write_pieces ps u = (Inr x, u') \<Longrightarrow> sent_bytes u' = sent_bytes u @ concat ps"
proof (induction ps arbitrary: u)
  case (Cons p ps)
  then show ?case
    by (auto simp: Let_def split: prod.splits sum.splits option.splits dest!: write_step_sent)
qed simp

lemma write_pieces_refuses: "write_pieces ps u = (Inl v, u') \<Longrightarrow> refuses v"
proof (induction ps arbitrary: u)
  case (Cons p ps)
  then show ?case
    by (auto simp: Let_def replied_refuses refuses_def split: prod.splits sum.splits option.splits)
       (auto simp: replied_refuses [unfolded refuses_def])
qed simp

lemma up_write_extends: "up_write c u = (r, u') \<Longrightarrow> extends u u'"
  by (auto simp: up_write_def split: if_splits dest: write_pieces_extends)

lemma up_write_refuses: "up_write c u = (Inl v, u') \<Longrightarrow> refuses v"
  by (auto simp: up_write_def split: if_splits dest: write_pieces_refuses)

lemma up_write_sent: "up_write c u = (Inr x, u') \<Longrightarrow> sent_bytes u' = sent_bytes u @ c"
  by (auto simp: up_write_def concat_chunks split: if_splits dest: write_pieces_sent)

lemma finish_up_refuses: "finish_up u = (Inl v, u') \<Longrightarrow> refuses v"
  by (auto simp: finish_up_def split: prod.splits sum.splits if_splits simp: replied_refuses)
     (simp_all add: refuses_def)


section \<open>TLS\<close>

text \<open>What went out in the clear.\<close>

definition plain_bytes :: "upstream \<Rightarrow> bytes" where
  "plain_bytes u = concat (map snd (filter (\<lambda>p. \<not> fst p) (usent u)))"

lemma extends_plain:
  assumes "extends u u'" "sent_bytes u' = sent_bytes u @ x"
  shows "plain_bytes u' = plain_bytes u @ (if up_tls u then [] else x)"
proof -
  obtain ps where ps: "usent u' = usent u @ ps" "\<forall>p \<in> set ps. fst p = up_tls u"
    using assms(1) unfolding extends_def by blast
  have "x = concat (map snd ps)" using assms(2) ps(1) by (simp add: sent_bytes_def)
  moreover have "filter (\<lambda>p. \<not> fst p) ps = (if up_tls u then [] else ps)"
    using ps(2) by (auto simp: filter_empty_conv filter_id_conv)
  ultimately show ?thesis using ps(1) by (simp add: plain_bytes_def)
qed

lemma extends_plain_tls: "extends u u' \<Longrightarrow> up_tls u \<Longrightarrow> plain_bytes u' = plain_bytes u \<and> up_tls u'"
  by (auto simp: extends_def plain_bytes_def filter_empty_conv)

lemma up_command_plain:
  assumes "up_command l c u = (Inr r, u')"
  shows "plain_bytes u' = plain_bytes u @ (if up_tls u then [] else l @ CRLF)" "up_tls u' = up_tls u"
  using extends_plain [OF up_command_extends up_command_sent] up_command_extends assms
  by (auto simp: extends_def)

lemma upgrade_fresh:
  "upgrade t u = (Inr x, u') \<Longrightarrow>
     rbuf u = [] \<and> up_tls u' \<and> plain_bytes u' = plain_bytes u \<and> rbuf u' = [] \<and> utls u = UpTlsOk (revs u')"
  by (auto simp: upgrade_def handshake_def plain_bytes_def split: if_splits upstream_handshake.splits)

lemma and_then_Inr:
  assumes "and_then m k = Some (Inr a, s)"
  obtains b s1 where "m = Some (Inr b, s1)" "k b s1 = Some (Inr a, s)"
  using assms by (auto simp: and_then_def split: option.splits sum.splits)

lemma hello_contains:
  assumes "hello u = Some (Inr e, u1)" "contains e k"
  obtains r where "up_command (''EHLO '' @ HELLO) 2 u = (Inr r, u1)"
proof -
  obtain x v where c: "up_command (''EHLO '' @ HELLO) 2 u = (x, v)" by (cases "up_command (''EHLO '' @ HELLO) 2 u")
  show thesis
  proof (cases x)
    case (Inr r)
    with assms(1) c have "v = u1" by (auto simp: hello_def ok_def split: option.splits)
    with c Inr that show thesis by blast
  next
    case (Inl y)
    with assms(1) c have "e = Map.empty"
      by (auto simp: hello_def ok_def split: relay_error.splits if_splits elim!: and_then_Inr)
    with assms(2) show thesis by (simp add: contains_def)
  qed
qed

lemma start_tls_plain:
  assumes "start_tls t u = Some (Inr e, u')"
  shows "up_tls u' \<and> plain_bytes u' = plain_bytes u @ (if up_tls u then [] else ''STARTTLS'' @ CRLF)"
proof -
  obtain r1 u1 x u2 r2 where c: "up_command ''STARTTLS'' 2 u = (Inr r1, u1)" "upgrade t u1 = (Inr x, u2)"
    "up_command (''EHLO '' @ HELLO) 2 u2 = (Inr r2, u')"
    using assms unfolding start_tls_def
    by (elim and_then_Inr) (auto dest!: up_result_Inr simp: ok_def split: option.splits)
  show ?thesis
    using up_command_plain [OF c(1)] upgrade_fresh [OF c(2)] up_command_plain [OF c(3)] by simp
qed

lemma read_reply_plain: "read_reply u = (r, u') \<Longrightarrow> plain_bytes u' = plain_bytes u \<and> up_tls u' = up_tls u"
  by (auto simp: read_reply_def plain_bytes_def split: prod.splits)

lemma open_up_required:
  assumes "open_up t u = Some (Inr e, u')" "mode t = Required" "\<not> up_tls u"
  shows "up_tls u' \<and> plain_bytes u' = plain_bytes u @ ''EHLO '' @ HELLO @ CRLF @ ''STARTTLS'' @ CRLF"
proof -
  obtain g u1 exts u2 where g: "read_reply u = (Inr g, u1)" and h: "hello u1 = Some (Inr exts, u2)"
    and st: "contains exts ''STARTTLS''" "start_tls t u2 = Some (Inr e, u')"
    using assms(1,2) unfolding open_up_def
    by (elim and_then_Inr) (auto dest!: up_result_Inr elim!: and_then_Inr split: if_splits)
  obtain r where r: "up_command (''EHLO '' @ HELLO) 2 u1 = (Inr r, u2)" by (rule hello_contains [OF h st(1)])
  show ?thesis
    using read_reply_plain [OF g] up_command_plain [OF r] start_tls_plain [OF st(2)] assms(3) by simp
qed

text \<open>What a session does with a connection once it is greeted, in any order and any number.\<close>

inductive drives :: "upstream \<Rightarrow> upstream \<Rightarrow> bool" where
  drives_refl: "drives u u"
| drives_transaction: "drives u v \<Longrightarrow> open_transaction e v = (r, w) \<Longrightarrow> drives u w"
| drives_write: "drives u v \<Longrightarrow> up_write c v = (x, w) \<Longrightarrow> drives u w"
| drives_finish: "drives u v \<Longrightarrow> finish_up v = (y, w) \<Longrightarrow> drives u w"

lemma finish_up_extends: "finish_up u = (r, u') \<Longrightarrow> extends u u'"
  using quit_up_extends
  by (auto simp: finish_up_def split: prod.splits sum.splits if_splits
      dest!: write_chunks_extends read_reply_extends intro: extends_trans)

lemma drives_extends: "drives u w \<Longrightarrow> extends u w"
  by (induction rule: drives.induct)
     (auto dest: open_transaction_extends up_write_extends finish_up_extends intro: extends_trans)

lemma connect_open:
  assumes "connect c d = Some (Inr u)"
  obtains u0 e u1 where "dial c d = Inr u0" "open_up (tls c) u0 = Some (Inr e, u1)" "u = u1\<lparr>caps := caps_of e\<rparr>"
  using assms unfolding connect_def greet_def
  by (auto simp: ok_def split: sum.splits option.splits prod.splits elim!: and_then_Inr)

lemma dial_plain:
  assumes "dial c d = Inr u"
  shows "plain_bytes u = [] \<and> (mode (tls c) = Implicit \<longleftrightarrow> up_tls u)"
  using assms
  by (auto simp: dial_def Let_def handshake_def plain_bytes_def
      split: dial_outcome.splits if_splits sum.splits prod.splits upstream_handshake.splits)

text \<open>The greeting where TLS is required, also when it fails.\<close>

definition HELLO_LINE :: bytes where
  "HELLO_LINE = ''EHLO '' @ HELLO @ CRLF"

lemma plain_part:
  assumes "up_command l c u = (r, u')" "length l + 2 \<le> WRITE_CHUNK" "\<not> up_tls u"
  shows "\<not> up_tls u' \<and> (\<exists>n. plain_bytes u' = plain_bytes u @ take n (l @ CRLF))"
  using up_command_part [OF assms(1,2)] extends_plain [OF up_command_extends [OF assms(1)]] assms(3)
    up_command_extends [OF assms(1)] by (auto simp: extends_def)

lemma take_append_full: "\<exists>m. xs @ take n ys = take m (xs @ ys)"
  by (rule exI [of _ "length xs + n"]) simp

lemma take_prefix: "\<exists>m. take n xs = take m (xs @ ys)"
  by (rule exI [of _ "min n (length xs)"]) (simp add: min_def)

lemma hello_part:
  assumes "hello u = Some (x, u')" "\<not> up_tls u" "plain_bytes u = []"
  shows "\<not> up_tls u' \<and> (case x of
      Inr e \<Rightarrow> plain_bytes u' = HELLO_LINE \<or> e = Map.empty \<and> plain_bytes u' = HELLO_LINE @ ''HELO '' @ HELLO @ CRLF
    | Inl _ \<Rightarrow> \<exists>n. plain_bytes u' = take n (HELLO_LINE @ ''HELO '' @ HELLO @ CRLF))"
proof -
  obtain y u1 where c: "up_command (''EHLO '' @ HELLO) 2 u = (y, u1)" by (cases "up_command (''EHLO '' @ HELLO) 2 u")
  have l: "length (''EHLO '' @ HELLO) + 2 \<le> WRITE_CHUNK" "length (''HELO '' @ HELLO) + 2 \<le> WRITE_CHUNK" by code_simp+
  from plain_part [OF c l(1) assms(2)] obtain n where n: "\<not> up_tls u1" "plain_bytes u1 = take n HELLO_LINE"
    by (auto simp: assms(3) HELLO_LINE_def)
  note t = take_prefix [of n HELLO_LINE "''HELO '' @ HELLO @ CRLF"]
  show ?thesis
  proof (cases y)
    case (Inr r)
    have "plain_bytes u1 = HELLO_LINE" using up_command_plain(1) [OF c [unfolded Inr]] assms(2,3) by (simp add: HELLO_LINE_def)
    then show ?thesis using assms(1) c Inr n by (auto simp: hello_def ok_def split: option.splits)
  next
    case (Inl e)
    show ?thesis
    proof (cases "\<exists>code t. e = Rejected code t \<and> code div 100 = 5")
      case False
      then have "x = Inl e" "u' = u1" using assms(1) c Inl by (auto simp: hello_def split: relay_error.splits if_splits)
      then show ?thesis using n(1) t unfolding n(2) [symmetric] by simp
    next
      case True
      then obtain code tx where e: "e = Rejected code tx" "code div 100 = 5" by blast
      have h: "plain_bytes u1 = HELLO_LINE"
        using extends_plain [OF up_command_extends [OF c] , of "(''EHLO '' @ HELLO) @ CRLF"]
          up_command_rejected [OF c [unfolded Inl e(1)]] assms(2,3) by (simp add: HELLO_LINE_def)
      obtain z u2 where d: "up_command (''HELO '' @ HELLO) 2 u1 = (z, u2)" by (cases "up_command (''HELO '' @ HELLO) 2 u1")
      from plain_part [OF d l(2) n(1)] obtain m where
        m: "\<not> up_tls u2" "plain_bytes u2 = HELLO_LINE @ take m (''HELO '' @ HELLO @ CRLF)" by (auto simp: h)
      show ?thesis
      proof (cases z)
        case (Inl e2)
        then have "x = Inl e2" "u' = u2" using assms(1) c d \<open>y = Inl e\<close> e by (simp_all add: hello_def and_then_def up_result_def)
        then show ?thesis using m(1) take_append_full [of HELLO_LINE m "''HELO '' @ HELLO @ CRLF"]
          unfolding m(2) [symmetric] by simp
      next
        case (Inr r2)
        then have "x = Inr Map.empty" "u' = u2"
          using assms(1) c d \<open>y = Inl e\<close> e by (simp_all add: hello_def and_then_def up_result_def ok_def)
        then show ?thesis using m(1) up_command_plain(1) [OF d [unfolded Inr]] n(1) h by simp
      qed
    qed
  qed
qed

lemma start_tls_part:
  assumes "start_tls t u = Some (x, u')" "\<not> up_tls u"
  shows "(\<exists>n. plain_bytes u' = plain_bytes u @ take n (''STARTTLS'' @ CRLF)) \<and>
    (\<not> isl x \<longrightarrow> up_tls u' \<and> plain_bytes u' = plain_bytes u @ ''STARTTLS'' @ CRLF)"
proof -
  obtain y u1 where c: "up_command ''STARTTLS'' 2 u = (y, u1)" by (cases "up_command ''STARTTLS'' 2 u")
  have l: "length ''STARTTLS'' + 2 \<le> WRITE_CHUNK" by code_simp
  from plain_part [OF c l assms(2)] obtain n where n: "plain_bytes u1 = plain_bytes u @ take n (''STARTTLS'' @ CRLF)" by auto
  have "\<exists>n. plain_bytes u' = plain_bytes u @ take n (''STARTTLS'' @ CRLF)"
  proof (cases y)
    case (Inl e)
    then have "u' = u1" using assms(1) c by (simp add: start_tls_def and_then_def up_result_def)
    with n show ?thesis by blast
  next
    case (Inr r)
    obtain z u2 where g: "upgrade t u1 = (z, u2)" by (cases "upgrade t u1")
    show ?thesis
    proof (cases z)
      case (Inl e)
      then have "u' = u2" using assms(1) c g Inr by (simp add: start_tls_def and_then_def up_result_def)
      moreover have "plain_bytes u2 = plain_bytes u1"
        using g by (auto simp: upgrade_def handshake_def plain_bytes_def split: if_splits upstream_handshake.splits)
      ultimately show ?thesis using n by auto
    next
      case (Inr a)
      note f = upgrade_fresh [OF g [unfolded Inr]]
      obtain v u3 where h: "up_command (''EHLO '' @ HELLO) 2 u2 = (v, u3)" by (cases "up_command (''EHLO '' @ HELLO) 2 u2")
      have "u' = u3" using assms(1) c g h \<open>y = Inr r\<close> Inr
        by (cases v) (auto simp: start_tls_def and_then_def up_result_def ok_def split: option.splits)
      then have "plain_bytes u' = plain_bytes u1" using extends_plain_tls [OF up_command_extends [OF h]] f by simp
      with n show ?thesis by auto
    qed
  qed
  moreover have "\<not> isl x \<Longrightarrow> up_tls u' \<and> plain_bytes u' = plain_bytes u @ ''STARTTLS'' @ CRLF"
    using start_tls_plain [of t u _ u'] assms by (cases x) auto
  ultimately show ?thesis by blast
qed

lemma greet_part:
  assumes "greet t u = Some (x, v)" "mode t = Required" "\<not> up_tls u" "plain_bytes u = []"
  shows "(\<exists>n. plain_bytes v = take n (HELLO_LINE @ ''STARTTLS'' @ CRLF)) \<or>
    isl x \<and> (\<exists>n. plain_bytes v = take n (HELLO_LINE @ ''HELO '' @ HELLO @ CRLF))"
    (is "(\<exists>n. _ = take n ?A) \<or> _ \<and> (\<exists>n. _ = take n ?B)")
proof -
  obtain y u1 where r: "read_reply u = (y, u1)" by (cases "read_reply u")
  have u1: "plain_bytes u1 = []" "\<not> up_tls u1" using read_reply_plain [OF r] assms(3,4) by simp_all
  have z: "plain_bytes v = [] \<Longrightarrow> ?thesis" by (intro disjI1 exI [of _ 0]) simp
  show ?thesis
  proof (cases "\<exists>g. y = Inr g \<and> ur_code g div 100 = 2")
    case False
    then have "v = u1" using assms(1) r
      by (cases y) (auto simp: greet_def open_up_def and_then_def up_result_def)
    then show ?thesis using u1 z by simp
  next
    case True
    obtain a u2 where h: "hello u1 = Some (a, u2)" using returns_hello [of u1] by (auto simp: returns_def)
    note p = hello_part [OF h u1(2,1)]
    have g: "greet t u = (case a of Inl e \<Rightarrow> Some (Inl e, u2) | Inr exts \<Rightarrow>
        and_then (if \<not> contains exts ''STARTTLS'' then Some (Inl NoStartTls, u2) else start_tls t u2)
          (\<lambda>exts u1. ok () (u1\<lparr>caps := caps_of exts\<rparr>)))"
      using True r h assms(2) by (auto simp: greet_def open_up_def and_then_def up_result_def split: sum.split)
    show ?thesis
    proof (cases a)
      case (Inl e)
      then have "x = Inl e" "v = u2" using g assms(1) by simp_all
      then show ?thesis using p Inl by (intro disjI2) simp
    next
      case (Inr exts)
      show ?thesis
      proof (cases "contains exts ''STARTTLS''")
        case False
        then have "x = Inl NoStartTls" "v = u2" using g assms(1) Inr by (simp_all add: and_then_def)
        moreover have "\<exists>n. plain_bytes u2 = take n ?B"
          using p Inr by (auto intro: exI [of _ "length HELLO_LINE"] exI [of _ "length ?B"])
        ultimately show ?thesis by simp
      next
        case True
        then have pl: "plain_bytes u2 = HELLO_LINE" "\<not> up_tls u2" using p Inr by (auto simp: contains_def)
        obtain b u3 where s: "start_tls t u2 = Some (b, u3)" using returns_start_tls [of t u2] by (auto simp: returns_def)
        have "plain_bytes v = plain_bytes u3" using g assms(1) Inr True s
          by (cases b) (auto simp: and_then_def ok_def plain_bytes_def)
        then show ?thesis 
          using conjunct1 [OF start_tls_part [OF s pl(2)]] take_append_full [of HELLO_LINE _ "''STARTTLS'' @ CRLF"]
          unfolding pl(1) by metis
      qed
    qed
  qed
qed

text \<open>
  C12. Where TLS is required, nothing but the greeting goes out in the clear on a connection, whether that comes
  about or not: it is the \<open>EHLO\<close> and the \<open>STARTTLS\<close> lines or a part of them, or, when it fails, the \<open>EHLO\<close> and
  the \<open>HELO\<close> lines or a part, for the code tries \<open>HELO\<close> before it finds that there is no \<open>STARTTLS\<close>. When it succeeds, both
  lines went out, and the envelope, the header block, the body and everything else the session sends on the
  connection are inside TLS, whatever the upstream answers and whatever the session is driven to do.
\<close>

theorem relay_tls_required:
  assumes "dial c d = Inr u0" and "mode (tls c) = Required" and "greet (tls c) u0 = Some (x, u)"
  shows "connect c d = Some (case x of Inl e \<Rightarrow> Inl e | Inr _ \<Rightarrow> Inr u) \<and>
    ((\<exists>n. plain_bytes u = take n (HELLO_LINE @ ''STARTTLS'' @ CRLF)) \<or>
      isl x \<and> (\<exists>n. plain_bytes u = take n (HELLO_LINE @ ''HELO '' @ HELLO @ CRLF))) \<and>
    (x = Inr () \<longrightarrow> (\<forall>w. drives u w \<longrightarrow> up_tls w \<and> plain_bytes w = HELLO_LINE @ ''STARTTLS'' @ CRLF))"
proof (intro conjI impI allI)
  have p: "plain_bytes u0 = []" "\<not> up_tls u0" using dial_plain [OF assms(1)] assms(2) by auto
  show "connect c d = Some (case x of Inl e \<Rightarrow> Inl e | Inr _ \<Rightarrow> Inr u)"
    using assms by (simp add: connect_def split: sum.split)
  show "(\<exists>n. plain_bytes u = take n (HELLO_LINE @ ''STARTTLS'' @ CRLF)) \<or>
      isl x \<and> (\<exists>n. plain_bytes u = take n (HELLO_LINE @ ''HELO '' @ HELLO @ CRLF))"
    by (rule greet_part [OF assms(3,2) p(2,1)])
  fix w assume x: "x = Inr ()" and w: "drives u w"
  obtain e u1 where o: "open_up (tls c) u0 = Some (Inr e, u1)" "u = u1\<lparr>caps := caps_of e\<rparr>"
    using assms(3) x by (auto simp: greet_def ok_def elim!: and_then_Inr)
  have "up_tls u" "plain_bytes u = HELLO_LINE @ ''STARTTLS'' @ CRLF"
    using open_up_required [OF o(1) assms(2) p(2)] p(1) o(2) by (simp_all add: plain_bytes_def HELLO_LINE_def)
  with extends_plain_tls [OF drives_extends [OF w]]
  show "up_tls w" "plain_bytes w = HELLO_LINE @ ''STARTTLS'' @ CRLF" by simp_all
qed

text \<open>An upstream to try things on: it greets, offers \<open>STARTTLS\<close> in the clear and \<open>SIZE\<close> behind it, then takes a message.\<close>

definition sample_upstream :: upstream where
  "sample_upstream =
     \<lparr>rbuf = [],
      revs = [Arrives 1 (''220 hi'' @ CRLF), Arrives 1 (''250-x'' @ CRLF @ ''250 STARTTLS'' @ CRLF),
              Arrives 1 (''220 go'' @ CRLF)],
      wouts = [], races = [],
      utls = UpTlsOk [Arrives 1 (''250 SIZE 1000'' @ CRLF), Arrives 1 (''250 ok'' @ CRLF),
                      Arrives 1 (''250 ok'' @ CRLF), Arrives 1 (''354 go'' @ CRLF),
                      Arrives 1 (''250 queued'' @ CRLF), Arrives 1 (''221 bye'' @ CRLF)],
      up_tls = False, usent = [], up_timeout = 0,
      caps = \<lparr>cap_dsn = False, cap_size = None, cap_size_announced = False\<rparr>, last_written = None\<rparr>"

definition sample_relay_config :: relay_config where
  "sample_relay_config =
     \<lparr>host = ''mail'', port = 25, relay_timeout = 60000,
      tls = \<lparr>mode = Required, has_client_config = True\<rparr>, tls_server_name = None\<rparr>"

text \<open>The same upstream, but it does not know \<open>EHLO\<close>.\<close>

definition plain_upstream :: upstream where
  "plain_upstream = sample_upstream\<lparr>revs := [Arrives 1 (''220 hi'' @ CRLF), Arrives 1 (''500 what'' @ CRLF), Arrives 1 (''250 x'' @ CRLF)]\<rparr>"

theorem relay_tls_required_witness:
  "(\<exists>u0 u w. dial sample_relay_config (Connected sample_upstream) = Inr u0 \<and>
      greet (tls sample_relay_config) u0 = Some (Inr (), u) \<and> drives u w \<and> sent_bytes w = sent_bytes u @ ''hello'' \<and>
      up_tls w \<and> plain_bytes w = HELLO_LINE @ ''STARTTLS'' @ CRLF) \<and>
   (\<exists>u0 u n. dial sample_relay_config (Connected plain_upstream) = Inr u0 \<and>
      greet (tls sample_relay_config) u0 = Some (Inl NoStartTls, u) \<and>
      (plain_bytes u = take n (HELLO_LINE @ ''STARTTLS'' @ CRLF) \<or> plain_bytes u = take n (HELLO_LINE @ ''HELO '' @ HELLO @ CRLF)))"
proof
  have m: "mode (tls sample_relay_config) = Required" by (simp add: sample_relay_config_def)
  have ex: "(case dial sample_relay_config (Connected sample_upstream) of
      Inr u0 \<Rightarrow> map_option (\<lambda>(r, u). isl r \<or> isl (fst (up_write ''hello'' u))) (greet (tls sample_relay_config) u0)
    | Inl _ \<Rightarrow> None) = Some False" by code_simp
  then obtain u0 r u where u0: "dial sample_relay_config (Connected sample_upstream) = Inr u0"
    and g: "greet (tls sample_relay_config) u0 = Some (r, u)" and r: "\<not> isl r" "\<not> isl (fst (up_write ''hello'' u))"
    by (auto split: sum.splits)
  have u: "dial sample_relay_config (Connected sample_upstream) = Inr u0"
    "greet (tls sample_relay_config) u0 = Some (Inr (), u)" using u0 g r(1) by (cases r; simp)+
  have w: "fst (up_write ''hello'' u) = Inr ()" using r(2) by (cases "fst (up_write ''hello'' u)") simp_all
  define w' where "w' = snd (up_write ''hello'' u)"
  have wr: "up_write ''hello'' u = (Inr (), w')" using w by (simp add: w'_def prod_eq_iff)
  have d: "drives u w'" using drives_write [OF drives_refl wr] .
  show "\<exists>u0 u w. dial sample_relay_config (Connected sample_upstream) = Inr u0 \<and>
      greet (tls sample_relay_config) u0 = Some (Inr (), u) \<and> drives u w \<and> sent_bytes w = sent_bytes u @ ''hello'' \<and>
      up_tls w \<and> plain_bytes w = HELLO_LINE @ ''STARTTLS'' @ CRLF"
    using relay_tls_required [OF u(1) m u(2)] u d up_write_sent [OF wr] by blast
  have "(case dial sample_relay_config (Connected plain_upstream) of
      Inr u0 \<Rightarrow> map_option fst (greet (tls sample_relay_config) u0) | Inl _ \<Rightarrow> None) = Some (Inl NoStartTls)" by code_simp
  then obtain v0 v where v: "dial sample_relay_config (Connected plain_upstream) = Inr v0"
    "greet (tls sample_relay_config) v0 = Some (Inl NoStartTls, v)"
    by (auto split: sum.splits)
  show "\<exists>u0 u n. dial sample_relay_config (Connected plain_upstream) = Inr u0 \<and>
      greet (tls sample_relay_config) u0 = Some (Inl NoStartTls, u) \<and>
      (plain_bytes u = take n (HELLO_LINE @ ''STARTTLS'' @ CRLF) \<or> plain_bytes u = take n (HELLO_LINE @ ''HELO '' @ HELLO @ CRLF))"
    using relay_tls_required [OF v(1) m v(2)] v by blast
qed


section \<open>Command lines\<close>

definition size_params :: "param list \<Rightarrow> bool \<Rightarrow> param list" where
  "size_params ps announced =
     (case find (\<lambda>p. eq_ignore_ascii_case (par_keyword p) ''SIZE'') ps of
        None \<Rightarrow> []
      | Some p \<Rightarrow>
          (case par_value p of
             None \<Rightarrow> []
           | Some n \<Rightarrow> if announced then [\<lparr>par_keyword = ''SIZE'', par_value = Some n\<rparr>] else []))"

lemma size_suffix_params: "size_suffix ps b = params_suffix (size_params ps b)"
  by (auto simp: size_suffix_def size_params_def params_suffix_def param_text_def split: option.split)

lemma dsn_suffix_params:
  "dsn_suffix ps keep b = params_suffix (if b then filter (\<lambda>p. keep (par_keyword p)) ps else [])"
proof -
  have "concat (map (\<lambda>p. case par_value p of Some v \<Rightarrow> SP # par_keyword p @ CHR ''='' # v
        | None \<Rightarrow> SP # par_keyword p) qs) = params_suffix qs" for qs
    unfolding params_suffix_def param_text_def
    by (rule arg_cong [of _ _ concat]) (auto split: option.split)
  then show ?thesis by (simp add: dsn_suffix_def Let_def params_suffix_def)
qed

lemma params_suffix_append: "params_suffix ps @ params_suffix qs = params_suffix (ps @ qs)"
  by (simp add: params_suffix_def)

lemma wf_size_param:
  assumes "wf_param p" and "par_value p = Some n"
  shows "wf_param \<lparr>par_keyword = ''SIZE'', par_value = Some n\<rparr>"
proof -
  have "is_keyword_start (hd ''SIZE'')" "list_all is_keyword_char ''SIZE''"
    by (simp_all add: byte_defs)
  then show ?thesis using assms unfolding wf_param_def by simp
qed

lemma find_wf: "list_all wf_param ps \<Longrightarrow> find P ps = Some p \<Longrightarrow> wf_param p"
  by (induction ps) (simp_all split: if_splits)

lemma wf_size_params:
  assumes "list_all wf_param ps"
  shows "list_all wf_param (size_params ps b)"
  unfolding size_params_def using find_wf [OF assms] wf_size_param by (simp split: option.split) blast

lemma wf_filter: "list_all wf_param ps \<Longrightarrow> list_all wf_param (if b then filter P ps else [])"
  by (auto simp: list_all_iff)

lemma keyword_char_range: "is_keyword_char b \<Longrightarrow> in_range 0x20 0x7E b"
  by (auto simp: byte_defs)

lemma value_char_range: "is_value_char b \<Longrightarrow> in_range 0x20 0x7E b"
  by (simp add: byte_defs)

lemma param_text_range:
  assumes "wf_param p" and "b \<in> set (param_text p)"
  shows "in_range 0x20 0x7E b"
proof -
  consider "is_keyword_char b" | "b = CHR ''=''" | "is_value_char b"
    using assms by (cases "par_value p") (auto simp: param_text_def wf_param_def list_all_iff)
  then show ?thesis
    using keyword_char_range value_char_range by cases (simp_all add: in_range_def)
qed

lemma params_suffix_ascii:
  "list_all wf_param ps \<Longrightarrow> \<forall>b \<in> set (params_suffix ps). in_range 0x20 0x7E b"
proof (induction ps)
  case (Cons p ps)
  have "in_range 0x20 0x7E SP" by (simp add: in_range_def)
  moreover have "params_suffix (p # ps) = SP # param_text p @ params_suffix ps" by (simp add: params_suffix_def)
  ultimately show ?case using Cons param_text_range [of p] by (simp add: ball_Un)
qed (simp add: params_suffix_def)

lemma relayable_char_range: "relayable_char b \<Longrightarrow> in_range 0x20 0x7E b \<and> b \<noteq> CHR ''>''"
  by (simp add: relayable_char_def in_range_def)

lemma relayable_ascii: "list_all relayable_char a \<Longrightarrow> \<forall>b \<in> set a. in_range 0x20 0x7E b \<and> b \<noteq> CHR ''>''"
  unfolding list_all_iff using relayable_char_range by blast

lemma in_range_line: "in_range 0x20 0x7E b \<Longrightarrow> is_ascii b \<and> b \<noteq> CR \<and> b \<noteq> LF"
  by (auto simp: byte_defs)

lemma path_line:
  assumes "list_all relayable_char a" "list_all wf_param ps" "\<forall>b \<in> set kw. in_range 0x20 0x7E b"
    and "a = [] \<longrightarrow> ae"
  defines "t \<equiv> kw @ ''<'' @ a @ ''>'' @ params_suffix ps"
  shows "\<forall>b \<in> set t. in_range 0x20 0x7E b" and "path_args kw ae t a ps"
proof -
  have br: "in_range 0x20 0x7E (CHR ''<'')" "in_range 0x20 0x7E (CHR ''>'')" by (simp_all add: byte_defs)
  show "\<forall>b \<in> set t. in_range 0x20 0x7E b"
    using relayable_ascii [OF assms(1)] params_suffix_ascii [OF assms(2)] assms(3) br by (simp add: t_def ball_Un)
  have "params_suffix ps = [] \<and> ps = [] \<or>
      (\<exists>u. params_suffix ps = SP # u \<and> split_ascii_whitespace u = map param_text ps)"
  proof (cases ps)
    case (Cons p qs)
    have "params_suffix ps = SP # param_text p @ params_suffix qs" by (simp add: Cons params_suffix_def)
    moreover have "split_ascii_whitespace (param_text p @ params_suffix qs) = map param_text ps"
      using assms(2) split_ascii_whitespace_suffix [of "param_text p" qs] param_text_no_ws param_text_not_Nil
      by (auto simp: Cons)
    ultimately show ?thesis by blast
  qed (simp add: params_suffix_def)
  moreover have "CHR ''>'' \<notin> set a" using relayable_ascii [OF assms(1)] by metis
  moreover have "ws_only []" by (simp add: ws_only_def)
  moreover have "t = kw @ [] @ ''<'' @ a @ ''>'' @ params_suffix ps" by (simp add: t_def)
  ultimately show "path_args kw ae t a ps"
    unfolding path_args_def using assms(2,4) eq_ignore_ascii_case_refl [of kw] by metis
qed

lemma line_parts_path:
  assumes "\<forall>b \<in> set t. in_range 0x20 0x7E b" "v \<noteq> []" "list_all is_ascii_alphabetic v"
  shows "line_parts (v @ SP # t @ CRLF) v (Some t)"
  using assms in_range_line utf8_valid_ascii [of t] by (auto simp: line_parts_def)

text \<open>
  C13. The \<open>MAIL\<close> and \<open>RCPT\<close> lines that go to the upstream carry one command each and nothing else: for an address
  that passed \<open>assert_relayable\<close> and parameters as the parser gives them, the line read by this project's own
  parser is that address with the parameters that were to be relayed. An address of the API cannot
  smuggle a second command or a parameter into the session.
\<close>

theorem relayed_lines_parse:
  assumes "assert_relayable (env_from e) = Inr ()" and "list_all wf_param (env_mail_params e)"
    and "assert_relayable (rc_address r) = Inr ()" and "list_all wf_param (rc_parameters r)"
    and "rc_address r \<noteq> []"
  shows "parse_command (mail_line c e @ CRLF) = Some (Inr (Mail (env_from e)
           ((if cap_dsn c then filter (\<lambda>p. is_mail_dsn_keyword (par_keyword p)) (env_mail_params e) else []) @
            size_params (env_mail_params e) (cap_size_announced c)))) \<and>
         parse_command (rcpt_line c r @ CRLF) = Some (Inr (Rcpt (rc_address r)
           (if cap_dsn c then filter (\<lambda>p. is_rcpt_dsn_keyword (par_keyword p)) (rc_parameters r) else [])))"
    (is "parse_command _ = Some (Inr (Mail _ ?mp)) \<and> parse_command _ = Some (Inr (Rcpt _ ?rp))")
proof
  have f: "list_all relayable_char (env_from e)" "list_all relayable_char (rc_address r)"
    using assms(1,3) by (auto simp: assert_relayable_def split: if_splits)
  have kw: "\<forall>b \<in> set ''FROM:''. in_range 0x20 0x7E b" "\<forall>b \<in> set ''TO:''. in_range 0x20 0x7E b"
    by (simp_all add: byte_defs)
  have al: "list_all is_ascii_alphabetic ''MAIL''" "list_all is_ascii_alphabetic ''RCPT''"
    by (simp_all add: byte_defs)
  have mp: "list_all wf_param ?mp" using wf_filter wf_size_params assms(2) by simp
  let ?t = "''FROM:'' @ ''<'' @ env_from e @ ''>'' @ params_suffix ?mp"
  have l: "mail_line c e @ CRLF = ''MAIL'' @ SP # ?t @ CRLF"
    by (simp add: mail_line_def dsn_suffix_params size_suffix_params params_suffix_append [symmetric])
  note p = path_line [OF f(1) mp kw(1), of True]
  have lp: "line_parts (''MAIL'' @ SP # ?t @ CRLF) ''MAIL'' (Some ?t)"
    using p(1) al(1) by (intro line_parts_path) auto
  have "parse_path (Some ?t) ''FROM:'' True = Some (Inr (env_from e, ?mp))"
    using parse_path_iff [of ?t "''FROM:''"] line_parts_valid [OF lp] p(2) by (simp add: is_ascii_def)
  then show "parse_command (mail_line c e @ CRLF) = Some (Inr (Mail (env_from e) ?mp))"
    unfolding l using parse_command_parts [OF lp] command_of_mail verb_upper(1) [of "Mail (env_from e) ?mp"] by simp
  have rp: "list_all wf_param ?rp" using wf_filter assms(4) by simp
  let ?s = "''TO:'' @ ''<'' @ rc_address r @ ''>'' @ params_suffix ?rp"
  have l2: "rcpt_line c r @ CRLF = ''RCPT'' @ SP # ?s @ CRLF"
    by (simp add: rcpt_line_def dsn_suffix_params)
  note q = path_line [OF f(2) rp kw(2), of False]
  have lp2: "line_parts (''RCPT'' @ SP # ?s @ CRLF) ''RCPT'' (Some ?s)"
    using q(1) assms(5) al(2) by (intro line_parts_path) auto
  have "parse_path (Some ?s) ''TO:'' False = Some (Inr (rc_address r, ?rp))"
    using parse_path_iff [of ?s "''TO:''"] line_parts_valid [OF lp2] q(2) assms(5) by (simp add: is_ascii_def)
  then show "parse_command (rcpt_line c r @ CRLF) = Some (Inr (Rcpt (rc_address r) ?rp))"
    unfolding l2 using parse_command_parts [OF lp2] command_of_rcpt verb_upper(1) [of "Rcpt (rc_address r) ?rp"] by simp
qed

theorem relayed_lines_parse_witness:
  "parse_command (mail_line \<lparr>cap_dsn = True, cap_size = None, cap_size_announced = True\<rparr>
      \<lparr>env_from = ''a@x'', env_mail_params = [\<lparr>par_keyword = ''RET'', par_value = Some ''HDRS''\<rparr>],
       env_recipients = []\<rparr> @ CRLF) =
     Some (Inr (Mail ''a@x'' [\<lparr>par_keyword = ''RET'', par_value = Some ''HDRS''\<rparr>]))"
proof -
  let ?p = "\<lparr>par_keyword = ''RET'', par_value = Some ''HDRS''\<rparr> :: param"
  let ?e = "\<lparr>env_from = ''a@x'', env_mail_params = [?p], env_recipients = []\<rparr> :: envelope"
  let ?c = "\<lparr>cap_dsn = True, cap_size = None, cap_size_announced = True\<rparr> :: upstream_caps"
  let ?r = "\<lparr>rc_address = ''b@y'', rc_parameters = []\<rparr> :: recipient"
  have h: "assert_relayable (env_from ?e) = Inr ()" "list_all wf_param (env_mail_params ?e)"
    "assert_relayable (rc_address ?r) = Inr ()" "list_all wf_param (rc_parameters ?r)" "rc_address ?r \<noteq> []"
    by code_simp+
  have "filter (\<lambda>p. is_mail_dsn_keyword (par_keyword p)) [?p] @ size_params [?p] True = [?p]" by code_simp
  then show ?thesis using relayed_lines_parse [OF h, of ?c] by simp
qed

end
