(* ===== verification/Proxy.thy ===== *)
theory Proxy
  imports Headers Rate_Limit Handler_Interface Relay_Safety
begin

text \<open>
  The rest of \<open>src/src/proxy.rs\<close>: the application behind the server. A handler collects the envelope, asks
  the API, opens the upstream transaction and writes the headers; the sink it hands back takes the body.

  The outside is data again: the HTTP exchanges, the connections to the upstream and the clock readings
  a handler will see are lists in its state, and so is what other sessions do to the state they share
  (\<open>ProxyFactory\<close> behind its \<open>Arc\<close>s) before each of its accesses to it: one lock or one atomic. \<open>asked\<close> keeps the requests that went to
  the API. The client address only labels log lines, which are left out, with the debug dumps of
  \<open>report_refusal\<close>.
\<close>

section \<open>The shared state\<close>

record proxy_config =
  api :: api_env
  relay :: relay_config
  messages_per_minute :: "32 word"
  os_text :: "error_kind \<Rightarrow> bytes"

record shared =
  upstream_dsn :: bool
  upstream_dsn_known :: bool
  upstream_size :: nat
  limiter :: rate_limiter

definition factory_new :: "proxy_config \<Rightarrow> shared" where
  "factory_new C =
     \<lparr>upstream_dsn = False, upstream_dsn_known = False, upstream_size = 0,
      limiter = limiter_new (messages_per_minute C)\<rparr>"

definition prune_rate_limits :: "nat \<Rightarrow> nat \<Rightarrow> shared \<Rightarrow> shared" where
  "prune_rate_limits now idle S = S\<lparr>limiter := prune (limiter S) now idle\<rparr>"

definition rate_limit_buckets :: "shared \<Rightarrow> nat" where
  "rate_limit_buckets S = bucket_count (limiter S)"

definition upstream_size_limit :: "shared \<Rightarrow> nat option" where
  "upstream_size_limit S = (if upstream_size S = 0 then None else Some (upstream_size S))"

text \<open>
  What a task does to it in one go: one question to the limiter or one pruning under its lock, or one swap of
  an atomic. The runtime has several threads, so the tasks take turns between these, not between whole calls.
\<close>

datatype shared_op = Asks bytes nat | Prunes nat nat | LearnsDsn bool | LearnsKnown | LearnsSize nat

fun shared_step :: "shared_op \<Rightarrow> shared \<Rightarrow> shared" where
  "shared_step (Asks user now) S = S\<lparr>limiter := snd (allow_at (limiter S) user now)\<rparr>"
| "shared_step (Prunes now idle) S = prune_rate_limits now idle S"
| "shared_step (LearnsDsn b) S = S\<lparr>upstream_dsn := b\<rparr>"
| "shared_step LearnsKnown S = S\<lparr>upstream_dsn_known := True\<rparr>"
| "shared_step (LearnsSize n) S = S\<lparr>upstream_size := n\<rparr>"

text \<open>
  The state as one task has it: with what the other tasks will do to it, in portions, one for each of its own
  accesses. \<open>interfere\<close> lets them have their turn.
\<close>

type_synonym shared_view = "shared \<times> shared_op list list"

fun interfere :: "shared_view \<Rightarrow> shared_view" where
  "interfere (S, []) = (S, [])"
| "interfere (S, xs # rest) = (fold shared_step xs S, rest)"

text \<open>The three swaps; what they return only decides whether the answer is logged.\<close>

definition note_upstream_caps :: "upstream_caps \<Rightarrow> shared_view \<Rightarrow> shared_view" where
  "note_upstream_caps c v =
     (let (S1, xs1) = interfere v;
          (S2, xs2) = interfere (S1\<lparr>upstream_dsn := cap_dsn c\<rparr>, xs1);
          (S3, xs3) = interfere (S2\<lparr>upstream_dsn_known := True\<rparr>, xs2);
          size = (case cap_size c of Some n \<Rightarrow> n | None \<Rightarrow> 0)
      in (S3\<lparr>upstream_size := size\<rparr>, xs3))"

definition probe_upstream :: "proxy_config \<Rightarrow> dial_outcome \<Rightarrow> shared_view \<Rightarrow> shared_view option" where
  "probe_upstream C d v =
     (case probe (relay C) d of
        None \<Rightarrow> None
      | Some (Inl e) \<Rightarrow> Some v
      | Some (Inr c) \<Rightarrow> Some (note_upstream_caps c v))"


section \<open>The handler\<close>

record transaction =
  tr_from :: bytes
  tr_mail_params :: "param list"
  tr_recipients :: "recipient list"
  tr_headers :: "raw_header list"

definition transaction_default :: transaction where
  "transaction_default = \<lparr>tr_from = [], tr_mail_params = [], tr_recipients = [], tr_headers = []\<rparr>"

record world =
  exchanges :: "exchange list"
  dials :: "dial_outcome list"
  clock :: "nat list"
  others :: "shared_op list list"

record proxy_handler =
  factory :: shared
  username :: "bytes option"
  password :: "bytes option"
  tr :: transaction
  outside :: world
  asked :: "check_request list"

definition create :: "shared \<Rightarrow> world \<Rightarrow> proxy_handler" where
  "create S w =
     \<lparr>factory = S, username = None, password = None, tr = transaction_default, outside = w, asked = []\<rparr>"

record proxy_sink =
  sk_upstream :: upstream
  sk_request :: check_request
  sk_outcome :: check_response

text \<open>The handler's accesses to the shared state. With \<open>sync\<close> the other tasks run before an operation of it.\<close>

definition on_shared :: "(shared_view \<Rightarrow> shared_view) \<Rightarrow> proxy_handler \<Rightarrow> proxy_handler" where
  "on_shared f h =
     (let (S, xs) = f (factory h, others (outside h))
      in h\<lparr>factory := S, outside := (outside h)\<lparr>others := xs\<rparr>\<rparr>)"

definition sync :: "proxy_handler \<Rightarrow> proxy_handler" where
  "sync h = on_shared interfere h"

definition unwrap_or_default :: "bytes option \<Rightarrow> bytes" where
  "unwrap_or_default x = (case x of Some t \<Rightarrow> t | None \<Rightarrow> [])"

definition relay_error_to_rejection :: "proxy_config \<Rightarrow> relay_error \<Rightarrow> rejection" where
  "relay_error_to_rejection C e = \<lparr>rej_code = client_code e, rej_text = relay_error_text (os_text C) e\<rparr>"

definition AUTH_SERVICE_FAILED :: bytes where
  "AUTH_SERVICE_FAILED = ''authentication service failed''"

definition auth_service_failed :: rejection where
  "auth_service_failed = \<lparr>rej_code = 550, rej_text = AUTH_SERVICE_FAILED\<rparr>"

definition auth_service_unavailable :: rejection where
  "auth_service_unavailable = \<lparr>rej_code = 451, rej_text = AUTH_SERVICE_FAILED\<rparr>"

definition check_request_of :: "proxy_handler \<Rightarrow> check_request" where
  "check_request_of h =
     \<lparr>cr_username = unwrap_or_default (username h), cr_password = unwrap_or_default (password h),
      cr_from = tr_from (tr h), cr_to = map rc_address (tr_recipients (tr h)),
      cr_headers = map to_request (tr_headers (tr h)), cr_mail_parameters = tr_mail_params (tr h),
      cr_rcpt_parameters = tr_recipients (tr h)\<rparr>"

definition proxy_reset :: "proxy_handler \<Rightarrow> proxy_handler" where
  "proxy_reset h = h\<lparr>tr := transaction_default\<rparr>"

definition proxy_auth :: "bytes \<Rightarrow> bytes \<Rightarrow> bytes \<Rightarrow> proxy_handler \<Rightarrow> (bytes + unit) \<times> proxy_handler" where
  "proxy_auth authzid authcid pass h = (Inr (), h\<lparr>username := Some authcid, password := Some pass\<rparr>)"

definition next_clock :: "world \<Rightarrow> nat \<times> world" where
  "next_clock w = (case clock w of [] \<Rightarrow> (0, w) | t # ts \<Rightarrow> (t, w\<lparr>clock := ts\<rparr>))"

definition next_exchange :: "world \<Rightarrow> exchange \<times> world" where
  "next_exchange w = (case exchanges w of [] \<Rightarrow> (NoResponse [], w) | x # xs \<Rightarrow> (x, w\<lparr>exchanges := xs\<rparr>))"

definition next_dial :: "world \<Rightarrow> dial_outcome \<times> world" where
  "next_dial w = (case dials w of [] \<Rightarrow> (ConnectTimeout, w) | d # ds \<Rightarrow> (d, w\<lparr>dials := ds\<rparr>))"

definition proxy_mail :: "bytes \<Rightarrow> param list \<Rightarrow> proxy_handler \<Rightarrow> (rejection + unit) \<times> proxy_handler" where
  "proxy_mail from params h =
     (let user = unwrap_or_default (username h);
          (now, w) = next_clock (outside h);
          (allowed, l) = allow_at (limiter (factory h)) user now;
          h1 = h\<lparr>factory := (factory h)\<lparr>limiter := l\<rparr>, outside := w\<rparr>
      in if \<not> allowed then (Inl rate_limited, h1)
         else let h2 = proxy_reset h1
              in (Inr (), h2\<lparr>tr := (tr h2)\<lparr>tr_from := from, tr_mail_params := params\<rparr>\<rparr>))"

definition proxy_rcpt :: "bytes \<Rightarrow> param list \<Rightarrow> proxy_handler \<Rightarrow> (rejection + unit) \<times> proxy_handler" where
  "proxy_rcpt to params h =
     (Inr (), h\<lparr>tr := (tr h)\<lparr>tr_recipients :=
        tr_recipients (tr h) @ [\<lparr>rc_address = to, rc_parameters = params\<rparr>]\<rparr>\<rparr>)"

fun first_address_error :: "recipient list \<Rightarrow> relay_error + unit" where
  "first_address_error [] = Inr ()"
| "first_address_error (r # rs) =
     (case assert_relayable (rc_address r) of Inl e \<Rightarrow> Inl e | Inr _ \<Rightarrow> first_address_error rs)"

definition envelope_sender :: "check_response \<Rightarrow> proxy_handler \<Rightarrow> bytes" where
  "envelope_sender outcome h =
     (case rsp_from outcome of
        Some f \<Rightarrow> if f \<noteq> [] then f else tr_from (tr h)
      | None \<Rightarrow> tr_from (tr h))"

text \<open>
  The second half of \<open>open_body\<close>, once the API has allowed the message: the checks, the transaction and the
  headers. \<open>upstream\<close> is what the connect gave, which ran beside the API call.
\<close>

definition relay_headers ::
  "proxy_config \<Rightarrow> check_request \<Rightarrow> check_response \<Rightarrow> relay_error + upstream \<Rightarrow> proxy_handler \<Rightarrow>
   (rejection + proxy_sink) \<times> proxy_handler" where
  "relay_headers C request outcome up h =
     (let merged = merge_headers (tr_headers (tr h)) (rsp_headers outcome);
          from = envelope_sender outcome h;
          refuse = (\<lambda>e. Inl (relay_error_to_rejection C e))
      in case assert_header_relayable merged of
           Inl _ \<Rightarrow> (Inl auth_service_failed, h)
         | Inr _ \<Rightarrow>
         (case assert_relayable from of
            Inl e \<Rightarrow> (refuse e, h)
          | Inr _ \<Rightarrow>
          (case first_address_error (tr_recipients (tr h)) of
             Inl e \<Rightarrow> (refuse e, h)
           | Inr _ \<Rightarrow>
           (case up of
              Inl e \<Rightarrow> (refuse e, h)
            | Inr u \<Rightarrow>
                (let h1 = on_shared (note_upstream_caps (caps u)) h
                 in case open_transaction \<lparr>env_from = from, env_mail_params = tr_mail_params (tr h),
                             env_recipients = tr_recipients (tr h)\<rparr> u of
                      (Inl e, _) \<Rightarrow> (refuse e, h1)
                    | (Inr _, u1) \<Rightarrow>
                        (case up_write (header_block merged) u1 of
                           (Inl v, _) \<Rightarrow> (refuse (into_relay_error ''DATA'' v), h1)
                         | (Inr _, u2) \<Rightarrow>
                             (Inr \<lparr>sk_upstream = u2, sk_request = request, sk_outcome = outcome\<rparr>, h1)))))))"

definition open_body ::
  "proxy_config \<Rightarrow> bytes \<Rightarrow> proxy_handler \<Rightarrow> ((rejection + proxy_sink) \<times> proxy_handler) option" where
  "open_body C hs h =
     (let h1 = h\<lparr>tr := (tr h)\<lparr>tr_headers := parse_headers hs\<rparr>\<rparr>;
          request = check_request_of h1;
          (x, w1) = next_exchange (outside h1);
          (d, w2) = next_dial w1;
          h2 = h1\<lparr>outside := w2, asked := asked h1 @ [request]\<rparr>
      in case connect (relay C) d of
           None \<Rightarrow> None
         | Some up \<Rightarrow>
             Some (case check (api C) x of
                     Inl e \<Rightarrow> (Inl auth_service_unavailable, h2)
                   | Inr outcome \<Rightarrow>
                       if \<not> allow outcome
                       then (Inl \<lparr>rej_code = 550, rej_text = unwrap_or_default (reason outcome)\<rparr>, h2)
                       else relay_headers C request outcome up h2))"

definition write_stage :: "bytes \<Rightarrow> proxy_sink \<Rightarrow> (upstream_verdict + unit) \<times> proxy_sink" where
  "write_stage chunk k =
     (let (r, u) = up_write chunk (sk_upstream k) in (r, k\<lparr>sk_upstream := u\<rparr>))"

definition sink_finish :: "proxy_sink \<Rightarrow> (upstream_verdict + bytes) \<times> proxy_sink" where
  "sink_finish k = (let (r, u) = finish_up (sk_upstream k) in (r, k\<lparr>sk_upstream := u\<rparr>))"

definition dsn_available :: "proxy_handler \<Rightarrow> bool" where
  "dsn_available h = upstream_dsn (factory h)"

definition size_limit :: "proxy_handler \<Rightarrow> nat option" where
  "size_limit h = upstream_size_limit (factory h)"

text \<open>
  The two traits, implemented. The other tasks have their turn before each operation, and before each access of
  the one operation that has several.
\<close>

definition proxy_ops :: "proxy_config \<Rightarrow> (proxy_handler, proxy_sink) handler_ops" where
  "proxy_ops C =
     \<lparr>h_auth = (\<lambda>z c p h. proxy_auth z c p (sync h)), h_mail = (\<lambda>a ps h. proxy_mail a ps (sync h)),
      h_rcpt = (\<lambda>a ps h. proxy_rcpt a ps (sync h)), h_open_body = (\<lambda>hs h. open_body C hs (sync h)),
      h_reset = (\<lambda>h. proxy_reset (sync h)), 
      h_dsn_available = (\<lambda>h. (dsn_available (sync h), sync h)), h_size_limit = (\<lambda>h. (size_limit (sync h), sync h)),
      k_write = write_stage, k_write_final = write_stage, k_finish = sink_finish\<rparr>"


section \<open>The contract\<close>

definition proxy_inv :: "proxy_handler \<Rightarrow> bool" where
  "proxy_inv h \<longleftrightarrow> limiter_inv (limiter (factory h))"

definition sink_inv :: "proxy_sink \<Rightarrow> bool" where
  "sink_inv k \<longleftrightarrow> allow (sk_outcome k)"

lemma shared_step_inv: "limiter_inv (limiter S) \<Longrightarrow> limiter_inv (limiter (shared_step x S))"
  by (cases x) (simp_all add: allow_at_inv prune_inv prune_rate_limits_def)

lemma shared_steps_inv: "limiter_inv (limiter S) \<Longrightarrow> limiter_inv (limiter (fold shared_step xs S))"
  by (induction xs arbitrary: S) (simp_all add: shared_step_inv)

lemma interfere_inv: "limiter_inv (limiter S) \<Longrightarrow> limiter_inv (limiter (fst (interfere (S, xs))))"
  by (cases xs) (simp_all add: shared_steps_inv)

lemma note_caps_inv:
  assumes "limiter_inv (limiter S)"
  shows "limiter_inv (limiter (fst (note_upstream_caps c (S, xs))))"
proof -
  obtain S1 xs1 where 1: "interfere (S, xs) = (S1, xs1)" by (cases "interfere (S, xs)")
  obtain S2 xs2 where 2: "interfere (S1\<lparr>upstream_dsn := cap_dsn c\<rparr>, xs1) = (S2, xs2)"
    by (cases "interfere (S1\<lparr>upstream_dsn := cap_dsn c\<rparr>, xs1)")
  obtain S3 xs3 where 3: "interfere (S2\<lparr>upstream_dsn_known := True\<rparr>, xs2) = (S3, xs3)"
    by (cases "interfere (S2\<lparr>upstream_dsn_known := True\<rparr>, xs2)")
  have "limiter_inv (limiter S1)" using interfere_inv [OF assms, of xs] 1 by simp
  then have "limiter_inv (limiter S2)" using interfere_inv [of "S1\<lparr>upstream_dsn := cap_dsn c\<rparr>" xs1] 2 by simp
  then have "limiter_inv (limiter S3)" using interfere_inv [of "S2\<lparr>upstream_dsn_known := True\<rparr>" xs2] 3 by simp
  then show ?thesis by (simp add: note_upstream_caps_def 1 2 3)
qed

lemma on_shared_fields [simp]:
  "tr (on_shared f h) = tr h" "asked (on_shared f h) = asked h" "username (on_shared f h) = username h"
  "password (on_shared f h) = password h" "factory (on_shared f h) = fst (f (factory h, others (outside h)))"
  "others (outside (on_shared f h)) = snd (f (factory h, others (outside h)))"
  "exchanges (outside (on_shared f h)) = exchanges (outside h)" "dials (outside (on_shared f h)) = dials (outside h)"
  by (simp_all add: on_shared_def split_beta)

lemma sync_keeps [simp]: "tr (sync h) = tr h" "asked (sync h) = asked h"
  by (simp_all add: sync_def)

lemma envelope_sender_sync [simp]: "envelope_sender r (sync h) = envelope_sender r h"
  by (simp add: envelope_sender_def split: option.split)

lemma on_shared_inv:
  assumes "\<And>S xs. limiter_inv (limiter S) \<Longrightarrow> limiter_inv (limiter (fst (f (S, xs))))" "proxy_inv h"
  shows "proxy_inv (on_shared f h)"
  using assms by (simp add: proxy_inv_def)

lemma sync_inv: "proxy_inv h \<Longrightarrow> proxy_inv (sync h)"
  unfolding sync_def by (rule on_shared_inv) (simp_all add: interfere_inv)

lemma create_inv: "limiter_inv (limiter S) \<Longrightarrow> proxy_inv (create S w)"
  by (simp add: proxy_inv_def create_def)

lemma factory_inv: "limiter_inv (limiter (fold shared_step xs (factory_new C)))"
  by (rule shared_steps_inv) (simp add: factory_new_def limiter_new_inv)

lemma mail_limiter_inv: "proxy_inv h \<Longrightarrow> proxy_inv (snd (proxy_mail a ps h))"
  using allow_at_inv [of "limiter (factory h)"]
  by (simp add: proxy_mail_def proxy_inv_def proxy_reset_def Let_def split_beta)

text \<open>What it does to the handler: nothing, or the capabilities of the upstream it reached are noted.\<close>

lemma relay_headers_state:
  "snd (relay_headers C q r up h) = h \<or> (\<exists>c. snd (relay_headers C q r up h) = on_shared (note_upstream_caps c) h)"
  by (simp add: relay_headers_def Let_def split: sum.split prod.split) blast

lemma relay_headers_inv: "proxy_inv h \<Longrightarrow> proxy_inv (snd (relay_headers C q r up h))"
  using relay_headers_state [of C q r up h] on_shared_inv [of "note_upstream_caps _" h, OF note_caps_inv] by auto

lemma relay_headers_asked: "asked (snd (relay_headers C q r up h)) = asked h"
  using relay_headers_state [of C q r up h] by auto

lemma relay_headers_code: "relay_headers C q r up h = (Inl rej, h') \<Longrightarrow> refusal_code (rej_code rej)"
  by (auto simp: relay_headers_def Let_def relay_error_to_rejection_def client_code_refusal
      auth_service_failed_def split: sum.splits prod.splits) (simp_all add: refusal_code_def)

lemma relay_headers_sink: "relay_headers C q r up h = (Inr k, h') \<Longrightarrow> sk_outcome k = r \<and> sk_request k = q"
  by (auto simp: relay_headers_def Let_def split: sum.splits prod.splits)

text \<open>What \<open>open_body\<close> comes down to: the four ways out.\<close>

lemma open_body_cases:
  obtains (down) h' where "open_body C hs h = Some (Inl auth_service_unavailable, h')" "factory h' = factory h"
  | (denied) h' and r :: check_response where "open_body C hs h = Some (Inl \<lparr>rej_code = 550, rej_text = unwrap_or_default (reason r)\<rparr>, h')"
      "factory h' = factory h" "\<not> allow r"
  | (relayed) h1 d up and r :: check_response where
      "open_body C hs h = Some (relay_headers C (check_request_of h1) r up (h1\<lparr>asked := asked h @ [check_request_of h1]\<rparr>))"
      "factory h1 = factory h" "username h1 = username h" "password h1 = password h"
      "tr h1 = (tr h)\<lparr>tr_headers := parse_headers hs\<rparr>" "asked h1 = asked h"
      "connect (relay C) d = Some up" "check (api C) (fst (next_exchange (outside h))) = Inr r" "allow r"
proof -
  obtain x w1 where x: "next_exchange (outside h) = (x, w1)" by (cases "next_exchange (outside h)")
  obtain d w2 where d: "next_dial w1 = (d, w2)" by (cases "next_dial w1")
  obtain up where up: "connect (relay C) d = Some up" using returns_connect [of "relay C" d] by (auto simp: returns_def)
  let ?h1 = "h\<lparr>tr := (tr h)\<lparr>tr_headers := parse_headers hs\<rparr>, outside := w2\<rparr>"
  let ?h2 = "?h1\<lparr>asked := asked h @ [check_request_of ?h1]\<rparr>"
  have q: "check_request_of ?h1 = check_request_of (h\<lparr>tr := (tr h)\<lparr>tr_headers := parse_headers hs\<rparr>\<rparr>)"
    by (simp add: check_request_of_def)
  show thesis
  proof (cases "check (api C) x")
    case (Inl e)
    then show thesis using x d up q by (intro down [of ?h2]) (simp_all add: open_body_def Let_def)
  next
    case (Inr r)
    show thesis
    proof (cases "allow r")
      case False
      then show thesis using x d up Inr q by (intro denied [of r ?h2]) (simp_all add: open_body_def Let_def)
    next
      case True
      then show thesis using x d up Inr q
        by (intro relayed [of ?h1 r up d]) (simp_all add: open_body_def Let_def)
    qed
  qed
qed

lemma open_body_inv: "proxy_inv h \<Longrightarrow> open_body C hs h = Some (q, h') \<Longrightarrow> proxy_inv h'"
proof (cases C hs h rule: open_body_cases)
  case (relayed h1 d up r)
  assume "proxy_inv h" "open_body C hs h = Some (q, h')"
  then show ?thesis
    using relayed(1,2) relay_headers_inv [of "h1\<lparr>asked := asked h @ [check_request_of h1]\<rparr>" C "check_request_of h1" r up]
    by (simp add: proxy_inv_def)
qed (simp_all add: proxy_inv_def)

lemma open_body_code: "open_body C hs h = Some (Inl rej, h') \<Longrightarrow> refusal_code (rej_code rej)"
  by (cases C hs h rule: open_body_cases)
     (auto simp: auth_service_unavailable_def refusal_code_def [of 451] refusal_code_def [of 550] dest: relay_headers_code)

lemma open_body_sink: "open_body C hs h = Some (Inr k, h') \<Longrightarrow> sink_inv k"
  by (cases C hs h rule: open_body_cases) (auto simp: sink_inv_def dest: relay_headers_sink)

lemma open_body_no_panic: "open_body C hs h \<noteq> None"
  by (cases C hs h rule: open_body_cases) auto

lemma proxy_inv_fields [simp]:
  "proxy_inv (h\<lparr>tr := t\<rparr>) = proxy_inv h" "proxy_inv (h\<lparr>username := u, password := p\<rparr>) = proxy_inv h"
  by (simp_all add: proxy_inv_def)

lemma proxy_mail_code: "proxy_mail a ps h = (Inl r, h') \<Longrightarrow> refusal_code (rej_code r)"
  by (auto simp: proxy_mail_def Let_def split: prod.splits if_splits)

interpretation proxy: handler_contract "proxy_ops C" proxy_inv sink_inv for C
proof unfold_locales
  fix h hs q h' assume "proxy_inv h" "h_open_body (proxy_ops C) hs h = Some (q, h')"
  then show "proxy_inv h'" using open_body_inv [OF sync_inv] by (simp add: proxy_ops_def)
next
  fix h hs r h' assume "h_open_body (proxy_ops C) hs h = Some (Inl r, h')"
  then show "refusal_code (rej_code r)" using open_body_code by (simp add: proxy_ops_def)
next
  fix h hs k h' assume "h_open_body (proxy_ops C) hs h = Some (Inr k, h')"
  then show "sink_inv k" using open_body_sink by (simp add: proxy_ops_def)
qed (auto simp: proxy_ops_def sync_inv open_body_no_panic mail_limiter_inv write_stage_def sink_finish_def
    sink_inv_def proxy_rcpt_def proxy_auth_def proxy_reset_def
    dest: up_write_refuses finish_up_refuses proxy_mail_code split: prod.splits)


section \<open>What the upstream gets\<close>

lemma put_caps [simp]: "caps (put bs u) = caps u"
  by (simp add: put_def)

lemma write_step_caps: "write_step bs u = (r, u') \<Longrightarrow> caps u' = caps u"
  by (auto simp: write_step_def split: list.splits write_outcome.splits)

lemma write_chunks_caps: "write_chunks p u = (r, u') \<Longrightarrow> caps u' = caps u"
proof -
  have "write_all_chunks cs u = (r, u') \<Longrightarrow> caps u' = caps u" for cs
    by (induction cs arbitrary: u) (auto split: prod.splits sum.splits dest!: write_step_caps)
  then show "write_chunks p u = (r, u') \<Longrightarrow> caps u' = caps u" by (simp add: write_chunks_def)
qed

lemma up_command_caps: "up_command l c u = (r, u') \<Longrightarrow> caps u' = caps u"
  by (auto simp: up_command_def send_command_def split: prod.splits sum.splits
      dest!: write_chunks_caps read_reply_extends)

lemma rcpt_loop_sent:
  "rcpt_loop rs u = (Inr x, u') \<Longrightarrow>
   sent_bytes u' = sent_bytes u @ concat (map (\<lambda>r. rcpt_line (caps u) r @ CRLF) rs)"
proof (induction rs arbitrary: u)
  case (Cons r rs)
  then obtain y u1 where c: "up_command (rcpt_line (caps u) r) 2 u = (Inr y, u1)" "rcpt_loop rs u1 = (Inr x, u')"
    by (auto split: prod.splits sum.splits)
  show ?case using Cons.IH [OF c(2)] up_command_sent [OF c(1)] up_command_caps [OF c(1)] by simp
qed simp

text \<open>The commands of a transaction, as they go out.\<close>

definition transaction_text :: "upstream_caps \<Rightarrow> envelope \<Rightarrow> bytes" where
  "transaction_text c e =
     mail_line c e @ CRLF @ concat (map (\<lambda>r. rcpt_line c r @ CRLF) (env_recipients e)) @ ''DATA'' @ CRLF"

lemma open_transaction_sent:
  assumes "open_transaction e u = (Inr x, u')"
  shows "sent_bytes u' = sent_bytes u @ transaction_text (caps u) e"
proof -
  from assms obtain a u1 b u2 c where o: "up_command (mail_line (caps u) e) 2 u = (Inr a, u1)"
    "rcpt_loop (env_recipients e) u1 = (Inr b, u2)" "up_command ''DATA'' 3 u2 = (Inr c, u')"
    unfolding open_transaction_def by (auto split: prod.splits sum.splits)
  show ?thesis
    using up_command_sent [OF o(1)] rcpt_loop_sent [OF o(2)] up_command_sent [OF o(3)] up_command_caps [OF o(1)]
    by (simp add: transaction_text_def)
qed

lemma first_address_error_iff:
  "first_address_error rs = Inr () \<longleftrightarrow> (\<forall>r \<in> set rs. assert_relayable (rc_address r) = Inr ())"
  by (induction rs) (auto split: sum.split)

lemma relay_headers_sends:
  assumes "relay_headers C q r up h = (Inr k, h')"
  shows "\<exists>u e merged.
    up = Inr u \<and> merged = merge_headers (tr_headers (tr h)) (rsp_headers r) \<and>
    e = \<lparr>env_from = envelope_sender r h, env_mail_params = tr_mail_params (tr h), env_recipients = tr_recipients (tr h)\<rparr> \<and>
    assert_header_relayable merged = Inr () \<and>
    (\<forall>a \<in> set (env_from e # map rc_address (env_recipients e)). assert_relayable a = Inr ()) \<and>
    sent_bytes (sk_upstream k) = sent_bytes u @ transaction_text (caps u) e @ header_block merged"
proof -
  let ?m = "merge_headers (tr_headers (tr h)) (rsp_headers r)" and ?e = "\<lparr>env_from = envelope_sender r h,
    env_mail_params = tr_mail_params (tr h), env_recipients = tr_recipients (tr h)\<rparr>"
  from assms obtain x y z u a u1 b u2 where o: "assert_header_relayable ?m = Inr x"
    "assert_relayable (envelope_sender r h) = Inr y" "first_address_error (tr_recipients (tr h)) = Inr z"
    "up = Inr u" "open_transaction ?e u = (Inr a, u1)" "up_write (header_block ?m) u1 = (Inr b, u2)"
    "k = \<lparr>sk_upstream = u2, sk_request = q, sk_outcome = r\<rparr>"
    unfolding relay_headers_def Let_def by (auto split: sum.splits prod.splits)
  have "sent_bytes u2 = sent_bytes u @ transaction_text (caps u) ?e @ header_block ?m"
    using open_transaction_sent [OF o(5)] up_write_sent [OF o(6)] by simp
  then show ?thesis using o first_address_error_iff [of "tr_recipients (tr h)"] by simp
qed

text \<open>
  C3. A message is relayed only when the API, asked about just this message with the credentials of the
  session, answered with success and allowed it. Then the upstream has been sent, in this order and with
  nothing else in between, \<open>MAIL\<close>, one \<open>RCPT\<close> for each recipient, \<open>DATA\<close> and the merged headers, all of which
  passed the checks against injected commands and headers.
\<close>

theorem relayed_only_if_allowed:
  assumes "open_body C hs h = Some (Inr k, h')"
  shows "\<exists>u d e merged.
    check (api C) (fst (next_exchange (outside h))) = Inr (sk_outcome k) \<and> allow (sk_outcome k) \<and>
    asked h' = asked h @ [sk_request k] \<and>
    sk_request k = check_request_of (h\<lparr>tr := (tr h)\<lparr>tr_headers := parse_headers hs\<rparr>\<rparr>) \<and>
    connect (relay C) d = Some (Inr u) \<and>
    merged = merge_headers (parse_headers hs) (rsp_headers (sk_outcome k)) \<and>
    e = \<lparr>env_from = envelope_sender (sk_outcome k) h, env_mail_params = tr_mail_params (tr h),
         env_recipients = tr_recipients (tr h)\<rparr> \<and>
    assert_header_relayable merged = Inr () \<and>
    (\<forall>a \<in> set (env_from e # map rc_address (env_recipients e)). assert_relayable a = Inr ()) \<and>
    sent_bytes (sk_upstream k) = sent_bytes u @ transaction_text (caps u) e @ header_block merged"
proof (cases C hs h rule: open_body_cases)
  case (relayed h1 d up r)
  let ?h = "h1\<lparr>asked := asked h @ [check_request_of h1]\<rparr>"
  have rh: "relay_headers C (check_request_of h1) r up ?h = (Inr k, h')" using relayed(1) assms by simp
  have q: "check_request_of h1 = check_request_of (h\<lparr>tr := (tr h)\<lparr>tr_headers := parse_headers hs\<rparr>\<rparr>)"
    using relayed by (simp add: check_request_of_def)
  have f: "envelope_sender r ?h = envelope_sender r h" using relayed by (simp add: envelope_sender_def split: option.split)
  have a: "asked h' = asked ?h" using relay_headers_asked [of C "check_request_of h1" r up ?h] rh by simp
  note k = relay_headers_sink [OF rh]
  from relay_headers_sends [OF rh] obtain u where "up = Inr u"
    "assert_header_relayable (merge_headers (parse_headers hs) (rsp_headers r)) = Inr ()"
    "\<forall>a \<in> set (envelope_sender r h # map rc_address (tr_recipients (tr h))). assert_relayable a = Inr ()"
    "sent_bytes (sk_upstream k) = sent_bytes u @ transaction_text (caps u) \<lparr>env_from = envelope_sender r h,
       env_mail_params = tr_mail_params (tr h), env_recipients = tr_recipients (tr h)\<rparr> @
       header_block (merge_headers (parse_headers hs) (rsp_headers r))"
    using relayed f by auto
  then show ?thesis using k q a relayed by auto
qed (use assms in simp_all)

definition sample_api :: api_env where
  "sample_api =
     \<lparr>from_json = (\<lambda>t. if t = ''ok'' then Inr \<lparr>allow = True, reason = None,
          rsp_headers = [\<lparr>rs_name = ''X-Id'', rs_value = Some ''7''\<rparr>], rsp_from = None, auth_id = None\<rparr>
        else Inl ''bad''),
      canonical_reason = (\<lambda>_. None)\<rparr>"

definition sample_config :: proxy_config where
  "sample_config =
     \<lparr>api = sample_api, relay = sample_relay_config, messages_per_minute = 0, os_text = (\<lambda>_. ''os'')\<rparr>"

definition sample_world :: world where
  "sample_world =
     \<lparr>exchanges = [Response 200 (Inr ''ok'')], dials = [Connected sample_upstream], clock = [], others = []\<rparr>"

definition sample_handler :: proxy_handler where
  "sample_handler =
     (create (factory_new sample_config) sample_world)\<lparr>tr := \<lparr>tr_from = ''a@x'', tr_mail_params = [],
        tr_recipients = [\<lparr>rc_address = ''b@y'', rc_parameters = []\<rparr>], tr_headers = []\<rparr>\<rparr>"

theorem relayed_only_if_allowed_witness:
  "\<exists>k h'. open_body sample_config (''A: b'' @ CRLF) sample_handler = Some (Inr k, h') \<and> allow (sk_outcome k)"
proof -
  have "case open_body sample_config (''A: b'' @ CRLF) sample_handler of
      Some (Inr _, _) \<Rightarrow> True | _ \<Rightarrow> False" by code_simp
  then obtain k h' where k: "open_body sample_config (''A: b'' @ CRLF) sample_handler = Some (Inr k, h')"
    by (auto split: option.splits sum.splits)
  show ?thesis using relayed_only_if_allowed [OF k] k by blast
qed

end
