(* ===== verification/Relayed_Message.thy ===== *)
theory Relayed_Message
  imports Accepted_Message Proxy
begin

text \<open>
  A message from end to end: what the client sends between \<open>DATA\<close> and its terminator, through the read loops
  of the session, the framer and the sink, to the bytes the upstream is sent and the answer it gave. What holds for
  every handler is in the theory \<open>Accepted_Message\<close>; here it is put together with the proxy's.
\<close>

section \<open>The proxy's sink\<close>

definition proxy_env ::
  "server_config \<Rightarrow> proxy_config \<Rightarrow> (bytes \<Rightarrow> bytes option) \<Rightarrow> (proxy_handler, proxy_sink) env" where
  "proxy_env c C decode = \<lparr>cfg = c, ops = proxy_ops C, b64 = decode\<rparr>"

lemma proxy_env_simps [simp]:
  "cfg (proxy_env c C d) = c" "ops (proxy_env c C d) = proxy_ops C" "b64 (proxy_env c C d) = d"
  by (simp_all add: proxy_env_def)

lemma write_step_last: "write_step bs u = (r, u') \<Longrightarrow> last_written u' = last_written u"
  by (auto simp: write_step_def put_def split: list.splits write_outcome.splits)

lemma read_reply_last: "read_reply u = (r, u') \<Longrightarrow> last_written u' = last_written u"
  by (auto simp: read_reply_def split: prod.splits)

lemma write_pieces_last: "write_pieces ps u = (Inr x, u') \<Longrightarrow> last_written u' = last_written u"
proof (induction ps arbitrary: u)
  case (Cons p ps)
  then show ?case
    by (auto simp: Let_def split: prod.splits sum.splits option.splits dest!: write_step_last)
qed simp

text \<open>The last byte the sink remembers is the last byte that went out.\<close>

definition remembers :: "upstream \<Rightarrow> bool" where
  "remembers u \<longleftrightarrow> sent_bytes u \<noteq> [] \<and> last_written u = Some (last (sent_bytes u))"

lemma up_write_last:
  assumes "up_write c u = (Inr x, u')"
  shows "last_written u' = (if c = [] then last_written u else Some (last c))"
  using assms by (auto simp: up_write_def dest: write_pieces_last split: if_splits)

lemma up_write_remembers: "up_write c u = (Inr x, u') \<Longrightarrow> c \<noteq> [] \<or> remembers u \<Longrightarrow> remembers u'"
  using up_write_last [of c u x u'] up_write_sent [of c u x u'] by (auto simp: remembers_def)

lemma write_stage_Inr:
  assumes "write_stage c k = (Inr x, k')"
  shows "sent_bytes (sk_upstream k') = sent_bytes (sk_upstream k) @ c"
    and "remembers (sk_upstream k) \<Longrightarrow> remembers (sk_upstream k')"
proof -
  obtain u where u: "up_write c (sk_upstream k) = (Inr x, u)" "sk_upstream k' = u"
    using assms by (auto simp: write_stage_def split: prod.splits)
  show "sent_bytes (sk_upstream k') = sent_bytes (sk_upstream k) @ c" using up_write_sent [OF u(1)] u(2) by simp
  show "remembers (sk_upstream k) \<Longrightarrow> remembers (sk_upstream k')" using up_write_remembers [OF u(1)] u(2) by simp
qed

lemma writes_ok_sink:
  assumes "writes_ok (proxy_env c C d) cs k = Some k'" "remembers (sk_upstream k)"
  shows "sent_bytes (sk_upstream k') = sent_bytes (sk_upstream k) @ concat cs \<and> remembers (sk_upstream k')"
  using assms
proof (induction cs arbitrary: k)
  case (Cons p cs)
  then obtain x k1 where w: "write_stage p k = (Inr x, k1)" "writes_ok (proxy_env c C d) cs k1 = Some k'"
    by (auto simp: proxy_ops_def split: prod.splits sum.splits)
  show ?case using Cons.IH [OF w(2) write_stage_Inr(2) [OF w(1) Cons.prems(2)]] write_stage_Inr(1) [OF w(1)] by simp
qed simp

lemma quit_up_sent: "\<exists>n. sent_bytes (quit_up u) = sent_bytes u @ take n (''QUIT'' @ CRLF)"
proof -
  obtain r u' where c: "up_command ''QUIT'' 2 u = (r, u')" by (cases "up_command ''QUIT'' 2 u")
  from up_command_part [OF c] show ?thesis by (simp add: quit_up_def c WRITE_CHUNK_def)
qed

lemma finish_up_sent:
  assumes "finish_up u = (Inr m, u')" "last_written u = Some LF"
  shows "\<exists>n. sent_bytes u' = sent_bytes u @ DOT # CRLF @ take n (''QUIT'' @ CRLF)"
proof -
  from assms obtain x u1 r u2 where f: "write_chunks (DOT # CRLF) u = (Inr x, u1)" "read_reply u1 = (Inr r, u2)"
    "u' = quit_up u2" by (auto simp: finish_up_def tail_bytes_def split: prod.splits sum.splits if_splits)
  show ?thesis using write_chunks_sent [OF f(1)] read_reply_extends [OF f(2)] quit_up_sent [of u2] f(3) by simp
qed


section \<open>The message\<close>

text \<open>What a sink that was opened stands behind: the headers are out, and they were checked.\<close>

lemma header_block_nonempty: "header_block hs \<noteq> []"
proof -
  have "dot_stuff s \<noteq> []" if "s \<noteq> []" for s using that by (cases s) (simp_all add: dot_stuff_def)
  moreover have "crlf_norm (concat (map header_text hs) @ CRLF) \<noteq> []"
    by (simp add: crlf_norm_def crlf_from_append)
  ultimately show ?thesis unfolding header_block_def normalize_breaks_crlf_norm by blast
qed

lemma relay_headers_open:
  assumes "relay_headers C q r up h = (Inr k, h')"
  shows "remembers (sk_upstream k)"
proof -
  from assms obtain u1 b u2 where "up_write (header_block (merge_headers (tr_headers (tr h)) (rsp_headers r))) u1 = (Inr b, u2)"
    "sk_upstream k = u2"
    unfolding relay_headers_def Let_def by (auto split: sum.splits prod.splits)
  then show ?thesis using up_write_remembers header_block_nonempty by metis
qed

lemma open_body_sends:
  assumes "open_body C hs h = Some (Inr k, h')"
  obtains u d where "connect (relay C) d = Some (Inr u)"
    "assert_header_relayable (merge_headers (parse_headers hs) (rsp_headers (sk_outcome k))) = Inr ()"
    "sent_bytes (sk_upstream k) = sent_bytes u @ transaction_text (caps u)
       \<lparr>env_from = envelope_sender (sk_outcome k) h, env_mail_params = tr_mail_params (tr h),
        env_recipients = tr_recipients (tr h)\<rparr> @
       header_block (merge_headers (parse_headers hs) (rsp_headers (sk_outcome k)))"
    "remembers (sk_upstream k)"
proof (cases C hs h rule: open_body_cases)
  case (relayed h1 d up r)
  let ?h = "h1\<lparr>asked := asked h @ [check_request_of h1]\<rparr>"
  have rh: "relay_headers C (check_request_of h1) r up ?h = (Inr k, h')" using relayed(1) assms by simp
  have f: "envelope_sender r ?h = envelope_sender r h" using relayed by (simp add: envelope_sender_def split: option.split)
  note k = relay_headers_sink [OF rh]
  from relay_headers_sends [OF rh] obtain u where "up = Inr u"
    "assert_header_relayable (merge_headers (parse_headers hs) (rsp_headers r)) = Inr ()"
    "sent_bytes (sk_upstream k) = sent_bytes u @ transaction_text (caps u) \<lparr>env_from = envelope_sender r h,
       env_mail_params = tr_mail_params (tr h), env_recipients = tr_recipients (tr h)\<rparr> @
       header_block (merge_headers (parse_headers hs) (rsp_headers r))"
    using relayed f by auto
  then show thesis using that k relay_headers_open [OF rh] relayed(7) by auto
qed (use assms in simp_all)

lemma header_block_no_terminator:
  assumes "assert_header_relayable hs = Inr ()"
  shows "last (header_block hs) = LF \<and> (\<forall>l \<in> set (lines_of (header_block hs)). \<not> is_terminator l)"
proof -
  have ok: "\<forall>h \<in> set hs. relayable_header h" using assms by (simp add: assert_header_relayable_iff)
  let ?ls = "map stuff_line (concat (map (\<lambda>h. lines_of (wire_header h)) hs))"
  note ls = header_block_lines [OF ok]
  have "header_block hs = concat ?ls @ CRLF" using concat_split_inclusive [of "(=) LF" "header_block hs"] unfolding ls by simp
  moreover have "\<not> is_terminator CRLF" by (simp add: is_terminator_def)
  ultimately show ?thesis using header_block_header_lines [OF ok] unfolding ls by (auto simp: header_line_def)
qed

lemma k_writes [simp]: "k_write (ops (proxy_env c C d)) = write_stage" "k_write_final (ops (proxy_env c C d)) = write_stage"
  by (simp_all add: proxy_ops_def)

lemma writes_ok_append:
  "writes_ok E (cs @ ds) k = (case writes_ok E cs k of None \<Rightarrow> None | Some k1 \<Rightarrow> writes_ok E ds k1)"
  by (induction cs arbitrary: k) (simp_all split: prod.split sum.split)

text \<open>To the proxy's sink the last write is as every other.\<close>

lemma all_written_proxy: "all_written (proxy_env c C d) cs k k1 \<Longrightarrow> writes_ok (proxy_env c C d) cs k = Some k1"
  by (auto simp: all_written_def writes_ok_append proxy_ops_def)

lemma sink_finish_sent:
  assumes "sink_finish k = (Inr m, k')" "remembers (sk_upstream k)" "last (sent_bytes (sk_upstream k)) = LF"
  shows "\<exists>n. sent_bytes (sk_upstream k') = sent_bytes (sk_upstream k) @ DOT # CRLF @ take n (''QUIT'' @ CRLF)"
proof -
  obtain u where "finish_up (sk_upstream k) = (Inr m, u)" "sk_upstream k' = u"
    using assms(1) by (auto simp: sink_finish_def split: prod.splits)
  then show ?thesis using finish_up_sent [of "sk_upstream k" m u] assms(2,3) by (simp add: remembers_def)
qed

text \<open>
  C1. A message arrives whole and alone. If the upstream accepted a message while the session read one, then what the
  client sent is, in this order, the lines of a header block, the blank line (there may be none when there is no
  body), the body and the terminator, and the session has read just that. The proxy was given the header block
  with its lines unstuffed. What the upstream was sent, behind its greeting, is the envelope the API settled, the
  merged headers, the body exactly as the client sent it (with its line endings made CRLF), and one terminator, which
  is the only line of it that ends a message.
\<close>

theorem message_relayed_whole:
  assumes "read_message (proxy_env c C d) s = Some (r, s')"
    and "trace s' = trace s @ es" and "Finished (Inr m) \<in> set es"
  shows "\<exists>ls sep body t hs cs k h k1 k2 ev u dl e merged n.
    stream s = concat ls @ sep @ body @ t @ stream s' \<and>
    (\<forall>l \<in> set ls. full_line l \<and> header_line l) \<and> (is_empty_line sep \<or> sep = [] \<and> body = []) \<and>
    (\<forall>l \<in> set (lines_of body). \<not> is_terminator l) \<and> (body = [] \<or> last body = LF) \<and> is_terminator t \<and>
    hs = concat (map unstuff ls) \<and> concat cs = crlf_norm body \<and>
    es = Sent start_of_data # OpenCall hs True # map (\<lambda>c. WriteCall c True) cs @ [Finished (Inr m), ev] \<and>
    open_body C hs (sync (handler s)) = Some (Inr k, h) \<and>
    writes_ok (proxy_env c C d) cs k = Some k1 \<and> sink_finish k1 = (Inr m, k2) \<and>
    connect (relay C) dl = Some (Inr u) \<and>
    e = \<lparr>env_from = envelope_sender (sk_outcome k) (handler s), env_mail_params = tr_mail_params (tr (handler s)),
         env_recipients = tr_recipients (tr (handler s))\<rparr> \<and>
    merged = merge_headers (parse_headers hs) (rsp_headers (sk_outcome k)) \<and>
    sent_bytes (sk_upstream k2) = sent_bytes u @ transaction_text (caps u) e @
      (header_block merged @ crlf_norm body @ DOT # CRLF) @ take n (''QUIT'' @ CRLF) \<and>
    (\<forall>l \<in> set (lines_of (header_block merged @ crlf_norm body)). \<not> is_terminator l)"
proof -
  have "accepts s s' m" using assms(2,3) by (auto simp: accepts_def)
  from read_message_accepts [OF assms(1) this] obtain ls sep body t k h cs k1 k2 ev where a:
    "stream s = concat ls @ sep @ body @ t @ stream s'" "\<forall>l \<in> set ls. full_line l \<and> header_line l"
    "is_empty_line sep \<or> sep = [] \<and> body = []" "is_terminator t"
    "h_open_body (ops (proxy_env c C d)) (concat (map unstuff ls)) (handler s) = Some (Inr k, h)"
    "concat cs = crlf_norm body" "no_dot_lines True body" "all_written (proxy_env c C d) cs k k1"
    "k_finish (ops (proxy_env c C d)) k1 = (Inr m, k2)"
    "trace s' = trace s @ Sent start_of_data # OpenCall (concat (map unstuff ls)) True #
      map (\<lambda>c. WriteCall c True) cs @ [Finished (Inr m), ev]" by blast
  let ?hs = "concat (map unstuff ls)" let ?m = "merge_headers (parse_headers ?hs) (rsp_headers (sk_outcome k))"
  let ?e = "\<lparr>env_from = envelope_sender (sk_outcome k) (handler s), env_mail_params = tr_mail_params (tr (handler s)),
    env_recipients = tr_recipients (tr (handler s))\<rparr>"
  have o: "open_body C ?hs (sync (handler s)) = Some (Inr k, h)" and f: "sink_finish k1 = (Inr m, k2)"
    using a(5,9) by (simp_all add: proxy_ops_def)
  from open_body_sends [OF o] obtain u dl where u: "connect (relay C) dl = Some (Inr u)" "assert_header_relayable ?m = Inr ()"
    "sent_bytes (sk_upstream k) = sent_bytes u @ transaction_text (caps u) ?e @ header_block ?m" "remembers (sk_upstream k)"
    unfolding envelope_sender_sync sync_keeps .
  note hb = header_block_no_terminator [OF u(2)] and w = all_written_proxy [OF a(8)]
  note k1 = writes_ok_sink [OF w u(4)]
  have b: "body = [] \<or> last body = LF" using a(7) by (auto simp: no_dot_lines_def)
  have sent: "sent_bytes (sk_upstream k1) = sent_bytes (sk_upstream k) @ crlf_norm body" using k1 a(6) by simp
  have "last (sent_bytes (sk_upstream k1)) = LF"
  proof (cases "body = []")
    case True
    then show ?thesis using sent u(3) hb header_block_nonempty [of ?m] by (simp add: crlf_norm_def)
  next
    case False
    then show ?thesis using crlf_from_last [of body False] b sent by (simp add: crlf_norm_def)
  qed
  from sink_finish_sent [OF f conjunct2 [OF k1] this] obtain n where
    n: "sent_bytes (sk_upstream k2) = sent_bytes (sk_upstream k1) @ DOT # CRLF @ take n (''QUIT'' @ CRLF)" by blast
  have t: "\<forall>l \<in> set (lines_of (header_block ?m @ crlf_norm body)). \<not> is_terminator l"
    using split_inclusive_append [of "header_block ?m" "(=) LF" "crlf_norm body"] hb body_no_terminator [OF a(7)] by auto
  have bt: "\<forall>l \<in> set (lines_of body). \<not> is_terminator l" using no_dot_lines_split [OF a(7)] by blast
  have es: "es = Sent start_of_data # OpenCall ?hs True # map (\<lambda>c. WriteCall c True) cs @ [Finished (Inr m), ev]"
    using a(10) assms(2) by simp
  have all: "sent_bytes (sk_upstream k2) = sent_bytes u @ transaction_text (caps u) ?e @
      (header_block ?m @ crlf_norm body @ DOT # CRLF) @ take n (''QUIT'' @ CRLF)" using n sent u(3) by simp
  show ?thesis
    by (intro exI conjI; (rule refl | rule a(1) | rule a(2) | rule a(3) | rule bt | rule b | rule a(4) | rule a(6) | rule es |
        rule o | rule w | rule f | rule u(1) | rule all | rule t))
qed

definition sample_server :: server_config where
  "sample_server =
     \<lparr>service_name = ''proxy'', require_starttls = False, require_auth = False, tls_offered = False,
      cfg_max_header_size = 1000, smtplog = None, idle_timeout = 1000, greeting_timeout = 1000,
      max_connections = 0, max_connections_per_ip = 0, max_recipients = 0, has_drain = False\<rparr>"

text \<open>A session in which one message is under way.\<close>

definition sample_data_session :: "proxy_handler session" where
  "sample_data_session =
     (new_session [Arrives 0 (''A: b'' @ CRLF @ CRLF @ ''hi'' @ CRLF @ ''.'' @ CRLF)] HandshakeStalls [] []
        sample_handler)\<lparr>st := WantData, recipients := 1, trace := [MailCall ''a@x'' True, RcptCall ''b@y'' True]\<rparr>"

definition sample_env :: "(proxy_handler, proxy_sink) env" where
  "sample_env = proxy_env sample_server sample_config (\<lambda>_. None)"

definition sample_events :: "event list" where
  "sample_events =
     [Sent (Reply_new 354 ''End data with <CR><LF>.<CR><LF>''),
      OpenCall (''A: b'' @ CRLF) True, WriteCall (''hi'' @ CRLF) True, Finished (Inr ''queued''),
      Sent (Reply_new 250 ''OK: queued'')]"

lemma sample_message:
  obtains r s' where "read_message (proxy_env sample_server sample_config (\<lambda>_. None)) sample_data_session = Some (r, s')"
    "trace s' = trace sample_data_session @ sample_events"
proof -
  have "case read_message sample_env sample_data_session of
      Some (r, s') \<Rightarrow> trace s' = trace sample_data_session @ sample_events | None \<Rightarrow> False"
    by code_simp
  then show thesis using that by (auto simp: sample_env_def split: option.splits)
qed

theorem message_relayed_whole_witness:
  "\<exists>r s' ls sep body t (u :: upstream) e merged n (k2 :: proxy_sink).
     read_message sample_env sample_data_session = Some (r, s') \<and>
     trace s' = trace sample_data_session @ sample_events \<and>
     stream sample_data_session = concat ls @ sep @ body @ t @ stream s' \<and> is_terminator t \<and>
     concat (map unstuff ls) = ''A: b'' @ CRLF \<and> crlf_norm body = ''hi'' @ CRLF \<and>
     sent_bytes (sk_upstream k2) = sent_bytes u @ transaction_text (caps u) e @
       (header_block merged @ crlf_norm body @ DOT # CRLF) @ take n (''QUIT'' @ CRLF)"
proof -
  obtain r s' where r: "read_message (proxy_env sample_server sample_config (\<lambda>_. None)) sample_data_session = Some (r, s')"
    and t: "trace s' = trace sample_data_session @ sample_events" by (rule sample_message)
  have m: "Finished (Inr ''queued'') \<in> set sample_events" by (simp add: sample_events_def)
  show ?thesis
  proof (insert message_relayed_whole [OF r t m], elim exE conjE)
    fix ls sep body tm hs cs k h k1 ev dl e merged n and u :: upstream and k2 :: proxy_sink
    assume st: "stream sample_data_session = concat ls @ sep @ body @ tm @ stream s'" "is_terminator tm"
      and hs: "hs = concat (map unstuff ls)" and cs: "concat cs = crlf_norm body"
      and es: "sample_events = Sent start_of_data # OpenCall hs True # map (\<lambda>c. WriteCall c True) cs @ [Finished (Inr ''queued''), ev]"
      and up: "sent_bytes (sk_upstream k2) = sent_bytes u @ transaction_text (caps u) e @
        (header_block merged @ crlf_norm body @ DOT # CRLF) @ take n (''QUIT'' @ CRLF)"
    have "hs = ''A: b'' @ CRLF" "map (\<lambda>c. WriteCall c True) cs = [WriteCall (''hi'' @ CRLF) True]"
      using es by (simp_all add: sample_events_def append_eq_Cons_conv Cons_eq_append_conv)
    then have h: "concat (map unstuff ls) = ''A: b'' @ CRLF" and b: "crlf_norm body = ''hi'' @ CRLF"
      using hs cs by (auto simp: map_eq_Cons_conv)
    show ?thesis unfolding sample_env_def
      by (rule exI [of _ r], rule exI [of _ s'], rule exI [of _ ls], rule exI [of _ sep], rule exI [of _ body],
          rule exI [of _ tm], rule exI [of _ u], rule exI [of _ e], rule exI [of _ merged], rule exI [of _ n],
          rule exI [of _ k2]) (intro conjI r t st h b up)
  qed
qed

end
