(* ===== verification/Session_Frame.thy ===== *)
theory Session_Frame
  imports Body_Reading
begin

text \<open>
  What a session keeps, by a frame rule: a predicate on its states that survives each elementary thing a session
  does (a read, a reply, a call of its handler with the event it leaves) holds at its end. The locale
  \<open>session_frame\<close> has one law for each of these and shows, operation by operation, that a session is made
  of nothing else. With \<open>ends\<close> the laws also exclude the two waits without end, and so does the conclusion.

  The interpretations are \<open>waits\<close> in the theory \<open>Session_Waits\<close>, \<open>logged\<close> in \<open>Session_Log\<close> and \<open>account\<close> in
  \<open>Session_Account\<close>.
\<close>

section \<open>The laws\<close>

text \<open>Events that are not calls of the handler and not replies.\<close>

fun quiet_event :: "event \<Rightarrow> bool" where
  "quiet_event Shutdown = True"
| "quiet_event TlsUp = True"
| "quiet_event (WriteCall _ _) = True"
| "quiet_event (Finished _) = True"
| "quiet_event SinkDropped = True"
| "quiet_event _ = False"

lemma fill_line_error: "fill_line d m b evs = (Inl e, b', evs') \<Longrightarrow> e \<noteq> Never"
proof (induction d m b evs rule: fill_line.induct)
  case (1 d m b evs)
  then show ?case
    by (subst (asm) (2) fill_line.simps)
       (auto dest: read_chunk_error split: option.splits if_splits prod.splits sum.splits)
qed

lemma io_failure_never [simp]: "io_failure e = EndNever \<longleftrightarrow> e = Never" "io_end e = EndNever \<longleftrightarrow> e = Never"
  by (auto simp: io_failure_def io_end_def)

text \<open>
  A step that, if it returns, leaves a state with \<open>I\<close> and a result that has \<open>P\<close>; with \<open>ends\<close> it did not run into
  a write that never completes. And the same of a turn of the loop, or of a session.
\<close>

definition stays :: "('h session \<Rightarrow> bool) \<Rightarrow> bool \<Rightarrow> ('a \<Rightarrow> bool) \<Rightarrow> ('a, 'h) io \<Rightarrow> bool" where
  "stays I ends P m \<longleftrightarrow>
     (\<forall>r s. m = Some (r, s) \<longrightarrow> I s \<and> (case r of Inl e \<Rightarrow> ends \<longrightarrow> e \<noteq> Never | Inr a \<Rightarrow> P a))"

definition stays_end :: "('h session \<Rightarrow> bool) \<Rightarrow> bool \<Rightarrow> ((end_reason + 'a) \<times> 'h session) option \<Rightarrow> bool" where
  "stays_end I ends m \<longleftrightarrow> (\<forall>r s. m = Some (r, s) \<longrightarrow> I s \<and> (ends \<longrightarrow> r \<noteq> Inl EndNever))"

definition flows_on :: "bool \<Rightarrow> flow \<Rightarrow> bool" where
  "flows_on ends f \<longleftrightarrow> (ends \<longrightarrow> f \<noteq> Stuck)"

lemma stays_simps [simp]:
  "stays I ends P (ok a s) \<longleftrightarrow> I s \<and> P a" "stays I ends P (Some (Inr a, s)) \<longleftrightarrow> I s \<and> P a"
  "stays I ends P (Some (Inl e, s)) \<longleftrightarrow> I s \<and> (ends \<longrightarrow> e \<noteq> Never)" "stays I ends P None"
  "stays_end I ends (Some (Inl t, s)) \<longleftrightarrow> I s \<and> (ends \<longrightarrow> t \<noteq> EndNever)"
  "stays_end I ends (Some (Inr b, s)) \<longleftrightarrow> I s" "stays_end I ends None"
  by (auto simp: stays_def stays_end_def ok_def)

lemma flows_on_simps [simp]:
  "flows_on ends Continue" "flows_on ends FlowQuit" "flows_on ends FlowTlsFailed" "flows_on ends Close"
  by (simp_all add: flows_on_def)

locale session_frame =
  fixes E :: "('h, 'k) env"
    and I :: "'h session \<Rightarrow> bool"
    and ends :: bool
  assumes frame_buf: "I s \<Longrightarrow> I (s\<lparr>buf := b\<rparr>)"
    and frame_inp: "I s \<Longrightarrow> I (s\<lparr>inp := evs\<rparr>)"
    and frame_st: "I s \<Longrightarrow> I (s\<lparr>st := q\<rparr>)"
    and frame_recipients: "I s \<Longrightarrow> I (s\<lparr>recipients := n\<rparr>)"
    and frame_drain: "I s \<Longrightarrow> I (s\<lparr>drain_script := ds\<rparr>)"
    and frame_first: "I s \<Longrightarrow> I (s\<lparr>first_command_seen := f\<rparr>)"
    and frame_tls: "I s \<Longrightarrow> I (s\<lparr>tls_active := up\<rparr>)"
    and frame_handshake: "I s \<Longrightarrow> I (s\<lparr>after_tls := HandshakeFails\<rparr>)"
    and frame_stall: "I s \<Longrightarrow> ends \<Longrightarrow> after_tls s \<noteq> HandshakeStalls"
    and frame_received: "I s \<Longrightarrow> I (log_lines E (\<lambda>cred. log_received cred (trim_line_end (from_utf8_lossy l))) s)"
    and frame_secret: "I s \<Longrightarrow> I (log_lines E (\<lambda>cred. log_received_auth_secret cred l) s)"
    and frame_send: "I s \<Longrightarrow> send E r s = Some (x, s') \<Longrightarrow> I s' \<and> (ends \<longrightarrow> x \<noteq> Inl Never)"
    and frame_quiet: "I s \<Longrightarrow> quiet_event e \<Longrightarrow> I (emit e s)"
    and frame_auth: "I s \<Longrightarrow> h_auth (ops E) z c p (handler s) = (y, h) \<Longrightarrow>
          I (emit (AuthCall (\<not> isl y)) (s\<lparr>handler := h\<rparr>))"
    and frame_mail: "I s \<Longrightarrow> trace s = t @ [ResetCall] \<Longrightarrow> h_mail (ops E) a ps (handler s) = (v, h) \<Longrightarrow>
          I (emit (MailCall a (\<not> isl v)) (s\<lparr>handler := h\<rparr>))"
    and frame_rcpt: "I s \<Longrightarrow> h_rcpt (ops E) a ps (handler s) = (v, h) \<Longrightarrow>
          I (emit (RcptCall a (\<not> isl v)) (s\<lparr>handler := h\<rparr>))"
    and frame_open: "I s \<Longrightarrow> h_open_body (ops E) hs (handler s) = Some (k, h) \<Longrightarrow>
          I (emit (OpenCall hs (\<not> isl k)) (s\<lparr>handler := h\<rparr>))"
    and frame_reset: "I s \<Longrightarrow> I (emit ResetCall (s\<lparr>handler := h_reset (ops E) (handler s)\<rparr>))"
    and frame_dsn: "I s \<Longrightarrow> I (s\<lparr>handler := snd (h_dsn_available (ops E) (handler s))\<rparr>)"
    and frame_size: "I s \<Longrightarrow> I (s\<lparr>handler := snd (h_size_limit (ops E) (handler s))\<rparr>)"
begin

lemmas frame_fields [simp] = frame_buf frame_inp frame_st frame_recipients frame_drain frame_first frame_tls frame_handshake
  frame_received frame_secret frame_quiet

text \<open>The count of recipients is set between a call and its event.\<close>

lemma emit_recipients: "emit e (s\<lparr>recipients := n, handler := h\<rparr>) = (emit e (s\<lparr>handler := h\<rparr>))\<lparr>recipients := n\<rparr>"
  "emit e (s\<lparr>handler := h, recipients := n\<rparr>) = (emit e (s\<lparr>handler := h\<rparr>))\<lparr>recipients := n\<rparr>"
  by (simp_all add: emit_def)

lemma frame_start_transaction [simp]: "I s \<Longrightarrow> I (start_transaction E s)"
  unfolding start_transaction_def emit_recipients by (intro frame_recipients frame_reset)

abbreviation calm :: "('a \<Rightarrow> bool) \<Rightarrow> ('a, 'h) io \<Rightarrow> bool" where
  "calm \<equiv> stays I ends"

abbreviation calm_end :: "((end_reason + 'a) \<times> 'h session) option \<Rightarrow> bool" where
  "calm_end \<equiv> stays_end I ends"

abbreviation moves_on :: "flow \<Rightarrow> bool" where
  "moves_on \<equiv> flows_on ends"

abbreviation anything :: "'a \<Rightarrow> bool" where
  "anything a \<equiv> True"

lemma calm_then:
  assumes "calm Q m" and "\<And>a s. I s \<Longrightarrow> Q a \<Longrightarrow> calm P (k a s)"
  shows "calm P (and_then m k)"
proof (cases m)
  case (Some p)
  then show ?thesis using assms by (cases p; cases "fst p") (auto simp: and_then_def)
qed (simp add: and_then_def)

lemma calm_send: "I s \<Longrightarrow> calm anything (send E r s)"
  using frame_send by (auto simp: stays_def split: sum.splits)

lemma calm_send_then:
  assumes "I s" "\<And>s1. I s1 \<Longrightarrow> calm P (k () s1)"
  shows "calm P (and_then (send E r s) k)"
  using calm_send [OF assms(1)] by (rule calm_then) (simp add: assms(2))

lemma calm_send_continue: "I s \<Longrightarrow> calm moves_on (send_continue E r s)"
  unfolding send_continue_def by (rule calm_send_then) simp_all

lemma calm_bad_sequence: "I s \<Longrightarrow> calm moves_on (bad_sequence E s)"
  unfolding bad_sequence_def by (rule calm_send_continue)

lemma calm_send_ignore:
  assumes "I s"
  shows "calm anything (send_ignore E r s)"
  using calm_send [OF assms, of r] by (auto simp: send_ignore_def stays_def ok_def split: option.splits sum.splits)

lemma calm_refuse_long_line: "I s \<Longrightarrow> calm anything (refuse_long_line E s)"
  unfolding refuse_long_line_def by (rule calm_send_ignore)

lemma calm_drained: "I s \<Longrightarrow> calm anything (drained E s)"
  unfolding drained_def by (rule calm_then [OF calm_send_ignore]) simp_all


section \<open>Reading\<close>

lemma next_line_calm:
  assumes "I s" "next_line F m s = (r, s')"
  shows "I s'" "r \<noteq> Inl Never"
proof -
  obtain b evs where f: "fill_line (deadline F s) m (buf s) (inp s) = (r, b, evs)" "s' = s\<lparr>buf := b, inp := evs\<rparr>"
    using assms(2) by (auto simp: next_line_def split: prod.splits)
  show "I s'" unfolding f(2) by (intro frame_fields assms(1))
  show "r \<noteq> Inl Never" using f(1) fill_line_error by metis
qed

lemma discard_calm:
  "I s \<Longrightarrow> discard_to_terminator F start s = (r, s') \<Longrightarrow>
   I s' \<and> (case r of Inl e \<Rightarrow> e \<noteq> Never | Inr f \<Rightarrow> moves_on f)"
proof (induction F start s arbitrary: r s' rule: discard_to_terminator.induct)
  case (1 F start s)
  obtain x s1 where nl: "next_line F MAX_COMMAND_BUFFER s = (x, s1)" by (cases "next_line F MAX_COMMAND_BUFFER s")
  note c = next_line_calm [OF 1(3) nl] and IH = 1(1,2) [OF nl [symmetric]]
  note eq = 1(4) [unfolded discard_to_terminator.simps [of F start s] nl]
  show ?case
  proof (cases x)
    case (Inl e)
    with eq c show ?thesis by auto
  next
    case (Inr l)
    show ?thesis
    proof (cases l)
      case (Got b)
      with eq c Inr IH(1) [OF Inr Got _ c(1)] show ?thesis by (auto split: if_splits)
    next
      case TooLong
      with eq Inr IH(2) [OF Inr TooLong frame_buf [OF c(1)]] show ?thesis by simp
    qed (use eq c Inr in auto)
  qed
qed

lemma header_loop_calm:
  "I s \<Longrightarrow> header_loop F c s = (r, s') \<Longrightarrow> I s' \<and> r \<noteq> Inl Never"
proof (induction F c s arbitrary: r s' rule: header_loop.induct)
  case (1 F c s)
  let ?b = "case remaining_capacity c of None \<Rightarrow> MAX_COMMAND_BUFFER | Some left \<Rightarrow> left + TERMINATOR_SLACK"
  obtain x s1 where nl: "next_line F ?b s = (x, s1)" by (cases "next_line F ?b s")
  note k = next_line_calm [OF 1(2) nl] and IH = 1(1) [OF refl nl [symmetric]]
  note eq = 1(3) [unfolded header_loop.simps [of F c s] Let_def nl]
  show ?case
  proof (cases x)
    case (Inl e)
    with eq k show ?thesis by auto
  next
    case (Inr y)
    show ?thesis
    proof (cases y)
      case (Got l)
      with eq k IH [OF Inr Got] Inr show ?thesis
        by (cases "push_line l c"; cases "fst (push_line l c)") (auto split: header_event.splits)
    qed (use eq k Inr in auto)
  qed
qed

lemma piece_read_frame: "piece_read F s x s1 \<Longrightarrow> I s \<Longrightarrow> I s1"
  by (auto elim!: piece_read.cases dest: next_line_calm(1))

lemma body_loop_calm:
  assumes "I s" "body_loop F f k s = (r, s')"
  shows "I s' \<and> r \<noteq> Inl Never"
proof -
  have "body_run F f k s r s'" using assms(2) by (simp add: body_loop_iff)
  then show ?thesis using assms(1)
  proof (induction rule: body_run.induct)
    case (failed s e s1)
    then show ?case using next_line_calm by blast
  qed (auto dest: next_line_calm(1) piece_read_frame)
qed


section \<open>The operations\<close>

lemma calm_send_or_close:
  assumes "I s"
  shows "calm moves_on
    (case send E r s of
       None \<Rightarrow> None
     | Some (Inr _, s1) \<Rightarrow> ok Continue s1
     | Some (Inl e, s1) \<Rightarrow> if \<not> is_hangup e then Some (Inl e, s1) else ok Close s1)"
proof (cases "send E r s")
  case (Some p)
  then show ?thesis using calm_send [OF assms, of r] by (cases p; cases "fst p") auto
qed simp

lemma calm_refuse_data: "I s \<Longrightarrow> calm moves_on (refuse_data E code why s)"
  unfolding refuse_data_def by (rule calm_send_or_close)

lemma calm_conclude: "I s \<Longrightarrow> calm moves_on (conclude E outcome s)"
  unfolding conclude_def Let_def
  by (auto intro!: calm_send_or_close calm_refuse_data split: sum.split upstream_verdict.split)

lemma calm_discard_then:
  assumes "I s" "\<And>f s1. I s1 \<Longrightarrow> moves_on f \<Longrightarrow> calm moves_on (k f s1)"
  shows "calm moves_on (case discard_to_terminator E start s of (Inl e, s1) \<Rightarrow> Some (Inl e, s1) | (Inr f, s1) \<Rightarrow> k f s1)"
  using discard_calm [OF assms(1), of E start] assms(2)
  by (cases "discard_to_terminator E start s"; cases "fst (discard_to_terminator E start s)") auto

lemma calm_refuse_large_headers: "I s \<Longrightarrow> calm moves_on (refuse_large_headers E start s)"
  unfolding refuse_large_headers_def
  by (rule calm_discard_then) (auto intro: calm_refuse_data)

lemma calm_mirror:
  assumes "I s"
  shows "calm moves_on (mirror E v start s)"
proof (cases v)
  case (Replied code why)
  have "calm moves_on (refuse_data E code why (s\<lparr>st := WantMail\<rparr>))" using assms by (intro calm_refuse_data) simp
  then show ?thesis unfolding mirror_def Replied upstream_verdict.case
    by (rule calm_then) (auto intro: calm_discard_then)
next
  case Dropped
  then show ?thesis using calm_conclude [OF assms] by (simp add: mirror_def)
qed

lemma calm_drop_sink: "calm P m \<Longrightarrow> calm P (drop_sink m)"
  by (cases m) (auto simp: drop_sink_def stays_def)

lemma calm_finish_sink: "I s \<Longrightarrow> calm moves_on (finish_sink E k s)"
  unfolding finish_sink_def Let_def by (intro calm_conclude) simp

lemma calm_finish_body: "I s \<Longrightarrow> calm moves_on (finish_body E f k s)"
  unfolding finish_body_def Let_def
  by (auto intro!: calm_finish_sink calm_drop_sink calm_conclude split: prod.split sum.split)

lemma calm_read_body:
  assumes "I s"
  shows "calm moves_on (read_body E k s)"
  using body_loop_calm [OF assms, of E framer_new k] unfolding read_body_def
  by (auto intro!: calm_finish_body calm_drop_sink calm_mirror split: prod.split sum.split body_end.split)

lemma calm_open_message:
  assumes "I s"
  shows "calm moves_on (open_message E hs body_follows s)"
proof (cases "h_open_body (ops E) hs (handler s)")
  case (Some p)
  then obtain r h where p: "h_open_body (ops E) hs (handler s) = Some (r, h)" by (cases p) auto
  show ?thesis
  proof (cases r)
    case (Inl rej)
    have "calm moves_on (refuse_data E (rej_code rej) (rej_text rej) (s1\<lparr>st := WantMail\<rparr>))" if "I s1" for s1
      using that by (intro calm_refuse_data) simp
    with p Inl assms frame_open [OF assms p] show ?thesis
      by (cases body_follows) (auto simp: open_message_def Let_def intro!: calm_discard_then)
  next
    case (Inr k)
    with p frame_open [OF assms p] show ?thesis
      by (simp add: open_message_def Let_def calm_finish_sink calm_read_body)
  qed
qed (simp add: open_message_def)

lemma calm_read_message:
  assumes "I s"
  shows "calm moves_on (read_message E s)"
  unfolding read_message_def
proof (rule calm_send_then [OF assms])
  fix s1 :: "'h session"
  assume w: "I s1"
  let ?c = "collector_new (cfg_max_header_size (cfg E))"
  obtain r s2 where h: "header_loop E ?c s1 = (r, s2)" by (cases "header_loop E ?c s1")
  show "calm moves_on (case header_loop E ?c s1 of
      (Inl e, s2) \<Rightarrow> Some (Inl e, s2)
    | (Inr HeaderEof, s2) \<Rightarrow> ok Close s2
    | (Inr CapInLine, s2) \<Rightarrow> refuse_large_headers E False s2
    | (Inr CapAtLine, s2) \<Rightarrow> refuse_large_headers E True s2
    | (Inr (Block hs body_follows), s2) \<Rightarrow> open_message E hs body_follows s2)"
    using header_loop_calm [OF w h]
    by (auto simp: h intro: calm_refuse_large_headers calm_open_message split: sum.split header_end.split)
qed

lemma calm_auth_continuation:
  assumes "I s"
  shows "calm anything (auth_continuation E s)"
proof -
  obtain r s1 where nl: "next_line E MAX_COMMAND_BUFFER s = (r, s1)" by (cases "next_line E MAX_COMMAND_BUFFER s")
  note c = next_line_calm [OF assms nl]
  have "calm anything (and_then (refuse_long_line E s1) (\<lambda>_. ok AuthClosed))"
    by (rule calm_then [OF calm_refuse_long_line [OF c(1)]]) simp
  then show ?thesis using c
    by (auto simp: auth_continuation_def nl Let_def intro!: calm_send_then split: sum.split line.split)
qed

lemma calm_finish_auth:
  assumes "I s"
  shows "calm moves_on (finish_auth E creds s)"
proof (cases creds)
  case None
  with assms show ?thesis by (simp add: finish_auth_def calm_send_continue)
next
  case (Some c)
  obtain y h where a: "h_auth (ops E) (authzid c) (authcid c) (password c) (handler s) = (y, h)"
    by (cases "h_auth (ops E) (authzid c) (authcid c) (password c) (handler s)")
  note k = frame_auth [OF assms a]
  show ?thesis
    using k by (cases y) (auto simp: finish_auth_def Some a intro!: calm_send_then calm_send_continue)
qed

lemma calm_with_token:
  assumes "I s" "\<And>t s1. I s1 \<Longrightarrow> calm moves_on (k t s1)"
  shows "calm moves_on (with_token (auth_continuation E s) k)"
  unfolding with_token_def
  by (rule calm_then [OF calm_auth_continuation [OF assms(1)]]) (auto intro: assms(2) split: auth_line.split)

lemma calm_mail_call:
  assumes "I s"
  shows "calm moves_on
    (let s1 = start_transaction E s; (r, h) = h_mail (ops E) a ps (handler s1); s2 = s1\<lparr>handler := h\<rparr>
     in case r of
          Inr _ \<Rightarrow> and_then (send E (Reply_new 250 ''OK'') (emit (MailCall a True) s2))
                     (\<lambda>_ s3. ok Continue (s3\<lparr>st := WantRcpt\<rparr>))
        | Inl rej \<Rightarrow> send_continue E (Reply_new (rej_code rej) (rej_text rej)) (emit (MailCall a False) s2))"
proof -
  let ?s = "start_transaction E s"
  obtain v h where m: "h_mail (ops E) a ps (handler ?s) = (v, h)" by (cases "h_mail (ops E) a ps (handler ?s)")
  have "trace ?s = trace s @ [ResetCall]" by (simp add: start_transaction_def emit_def)
  note k = frame_mail [OF frame_start_transaction [OF assms] this m]
  show ?thesis using k by (cases v) (auto simp: m Let_def intro!: calm_send_then calm_send_continue)
qed

lemma calm_want_mail: "I s \<Longrightarrow> calm moves_on (want_mail E command s)"
  using calm_mail_call by (auto simp: want_mail_def intro!: calm_bad_sequence calm_send_continue split: command.split sum.split)

lemma calm_want_auth: "I s \<Longrightarrow> calm moves_on (want_auth E command s)"
  by (auto simp: want_auth_def intro!: calm_send_then calm_with_token calm_finish_auth calm_send_continue calm_want_mail
      split: command.split option.split)

lemma calm_want_starttls: "I s \<Longrightarrow> calm moves_on (want_starttls E command s)"
  unfolding want_starttls_def
  by (auto simp: Let_def flows_on_def dest: frame_stall intro!: calm_send_then calm_send_continue calm_want_auth
      split: tls_outcome.split)

lemma calm_rcpt_call:
  assumes "I s"
  shows "calm moves_on
    (let (r, h) = h_rcpt (ops E) a ps (handler s); s1 = s\<lparr>handler := h\<rparr>
     in case r of
          Inr _ \<Rightarrow>
            and_then (send E (Reply_new 250 ''OK'') (emit (RcptCall a True) (s1\<lparr>recipients := recipients s1 + 1\<rparr>)))
              (\<lambda>_ s2. ok Continue (s2\<lparr>st := WantData\<rparr>))
        | Inl rej \<Rightarrow> send_continue E (Reply_new (rej_code rej) (rej_text rej)) (emit (RcptCall a False) s1))"
proof -
  obtain v h where m: "h_rcpt (ops E) a ps (handler s) = (v, h)" by (cases "h_rcpt (ops E) a ps (handler s)")
  note k = frame_rcpt [OF assms m]
  show ?thesis
    using k by (cases v) (auto simp: m Let_def emit_recipients intro!: calm_send_then calm_send_continue)
qed

lemma calm_want_rcpt: "I s \<Longrightarrow> calm moves_on (want_rcpt E command s)"
  using calm_rcpt_call by (auto simp: want_rcpt_def intro!: calm_bad_sequence calm_send_continue split: command.split sum.split)

lemma calm_want_data: "I s \<Longrightarrow> calm moves_on (want_data E command s)"
  by (auto simp: want_data_def intro!: calm_want_rcpt calm_read_message calm_bad_sequence split: command.split)

lemma calm_greeting_lines:
  assumes "I s" "greeting_lines E b s = (ls, s0)"
  shows "I s0"
proof -
  let ?h = "snd (h_dsn_available (ops E) (handler s))"
  have "I (s\<lparr>handler := snd (h_size_limit (ops E) ?h)\<rparr>)" using frame_size [OF frame_dsn [OF assms(1)]] by simp
  then show ?thesis using assms by (auto simp: greeting_lines_def Let_def split_beta split: if_splits)
qed

lemma calm_dispatch:
  assumes "I s"
  shows "calm moves_on (dispatch E command s)"
proof -
  have g: "calm moves_on (and_then (greeting E b s) (\<lambda>_. ok Continue))" for b
  proof -
    obtain ls s0 where g: "greeting_lines E b s = (ls, s0)" by (cases "greeting_lines E b s")
    then have "I s0" using calm_greeting_lines [OF assms] by simp
    then show ?thesis unfolding greeting_def g prod.case Let_def by (intro calm_send_then) (auto split: if_splits)
  qed
  note ops = calm_bad_sequence [OF assms] calm_want_starttls [OF assms] calm_want_auth [OF assms]
    calm_want_mail [OF assms] calm_want_rcpt [OF assms] calm_want_data [OF assms]
  have other: "calm moves_on (case st s of
      WantGreeting \<Rightarrow> bad_sequence E s
    | WantStartTls \<Rightarrow> want_starttls E c s
    | WantAuth \<Rightarrow> want_auth E c s
    | WantMail \<Rightarrow> want_mail E c s
    | WantRcpt \<Rightarrow> want_rcpt E c s
    | WantData \<Rightarrow> want_data E c s)" for c
    by (simp add: ops split: state.split)
  show ?thesis
    by (cases command)
       (use assms g other in \<open>simp_all add: dispatch_def Let_def calm_send_continue calm_send_then\<close>)
qed


section \<open>The command loop\<close>

lemma calm_last_words: "calm anything m \<Longrightarrow> r \<noteq> EndNever \<Longrightarrow> calm_end (last_words r m)"
  by (auto simp: last_words_def stays_def split: option.split sum.split)

lemma calm_serve_line:
  assumes "I s"
  shows "calm_end (serve_line E l s)"
proof -
  let ?s = "log_lines E (\<lambda>cred. log_received cred (trim_line_end (from_utf8_lossy l))) s"
  have w: "I ?s" using assms by simp
  show ?thesis unfolding serve_line_def Let_def
    using calm_send [OF w] calm_dispatch [OF w]
    by (fastforce simp: stays_def flows_on_def split: option.split sum.split flow.split)
qed

lemma next_command_line_calm:
  assumes "I s" "next_command_line E s = (r, s')"
  shows "I s'" "r \<noteq> Inl Never"
proof -
  obtain x s1 where nl: "next_line E MAX_COMMAND_BUFFER (s\<lparr>drain_script := tl (drain_script s)\<rparr>) = (x, s1)"
    by (cases "next_line E MAX_COMMAND_BUFFER (s\<lparr>drain_script := tl (drain_script s)\<rparr>)")
  note c = next_line_calm [OF _ nl]
  show "I s'" "r \<noteq> Inl Never"
    using assms c by (auto simp: next_command_line_def nl split: if_splits sum.splits)
qed

lemma calm_serve_turn:
  assumes "I s"
  shows "calm_end (serve_turn E s)"
proof -
  obtain r s1 where n: "next_command_line E s = (r, s1)" by (cases "next_command_line E s")
  note c = next_command_line_calm [OF assms n]
  show ?thesis unfolding serve_turn_def n using c
    by (auto intro!: calm_last_words calm_drained calm_refuse_long_line calm_serve_line
        split: sum.split option.split line.split)
qed

lemma calm_serve_loop:
  "I s \<Longrightarrow> serve_loop n E s = Some (r, s') \<Longrightarrow> I s' \<and> (ends \<longrightarrow> r \<noteq> Some EndNever)"
proof (induction n arbitrary: s)
  case (Suc n)
  then show ?case using calm_serve_turn [OF Suc.prems(1)]
    by (auto split: option.splits sum.splits)
qed simp

text \<open>A session keeps what its elementary steps keep, from its start to its end.\<close>

lemma run_frame:
  assumes "I (new_session reads tlso ws drains h)" "run E reads tlso ws drains h = Some (r, s)"
  shows "I s \<and> (ends \<longrightarrow> r \<noteq> Some EndNever)"
  using calm_send [OF assms(1), of "Reply_new 220 (service_name (cfg E) @ '' SMTP service ready'')"] assms(2)
  by (auto simp: run_def serve_def Let_def simp del: serve_loop.simps dest: calm_serve_loop split: option.splits sum.splits)

end

end
