(* ===== verification/Session_Waits.thy ===== *)
theory Session_Waits
  imports Session_Frame
begin

text \<open>
  Which waits of a session have an end. Every read has a timeout; the TLS handshake and the writes have
  none. So a session can wait for ever only in one of these two: when the handshake does not stall and
  every write completes or fails, nothing the client, the handler or the upstream does keeps it.
\<close>

definition waits_end :: "'h session \<Rightarrow> bool" where
  "waits_end s \<longleftrightarrow> after_tls s \<noteq> HandshakeStalls \<and> Some Never \<notin> set (writes s)"

interpretation waits: session_frame E waits_end True for E
proof unfold_locales
  show "waits_end s' \<and> (True \<longrightarrow> x \<noteq> Inl Never)" if "waits_end s" "send E r s = Some (x, s')" for s r x s'
    using that by (cases "writes s")
      (auto simp: send_def Let_def waits_end_def emit_def log_lines_def split: option.splits)
qed (simp_all add: waits_end_def emit_def log_lines_def split: option.split)

lemma run_waits_end:
  assumes "run E reads tlso ws drains h = Some (r, s)" "tlso \<noteq> HandshakeStalls" "Some Never \<notin> set ws"
  shows "r \<noteq> Some EndNever"
  using waits.run_frame [OF _ assms(1)] assms(2,3) by (simp add: waits_end_def new_session_def)

end
