(* ===== verification/Segmentation.thy ===== *)
theory Segmentation
  imports Session Headers
begin

text \<open>
  TCP cuts what a client sends into reads as it likes, and so the reads of a session are arbitrary in the model.
  Here it is shown that the cuts do not matter: two clients that send the same bytes in time, with no line longer
  than the buffer for one, are served alike, whatever they send. A session is compared with itself on
  other reads: \<open>sim\<close> relates two states that differ only in how the bytes ahead are divided between the
  buffer and the reads to come, and each operation keeps it.
\<close>

section \<open>The bytes ahead\<close>

text \<open>Reads that bring data come before the first that is an end or an error.\<close>

definition data_event :: "read_event \<Rightarrow> bool" where
  "data_event e \<longleftrightarrow> arrival e \<noteq> []"

definition arrived :: "read_event list \<Rightarrow> bytes" where
  "arrived evs = concat (map arrival (takeWhile data_event evs))"

definition tail_of :: "read_event list \<Rightarrow> read_event list" where
  "tail_of evs = dropWhile data_event evs"

definition in_time :: "nat \<Rightarrow> read_event \<Rightarrow> bool" where
  "in_time d e \<longleftrightarrow> (case e of Arrives w _ \<Rightarrow> w \<le> d | Fails w _ \<Rightarrow> True)"

definition punctual :: "nat \<Rightarrow> read_event list \<Rightarrow> bool" where
  "punctual d evs \<longleftrightarrow> list_all (in_time d) (takeWhile data_event evs)"

text \<open>No run of more than \<open>n\<close> bytes without an LF, when \<open>k\<close> bytes of the first one went before.\<close>

fun short_lines :: "nat \<Rightarrow> nat \<Rightarrow> bytes \<Rightarrow> bool" where
  "short_lines n k [] \<longleftrightarrow> True"
| "short_lines n k (b # s) \<longleftrightarrow> (if b = LF then short_lines n 0 s else k < n \<and> short_lines n (Suc k) s)"

lemma short_lines_mono: "short_lines n k s \<Longrightarrow> j \<le> k \<Longrightarrow> short_lines n j s"
proof (induction s arbitrary: j k)
  case (Cons b s)
  then show ?case using Cons.IH [of "Suc k" "Suc j"] by (auto split: if_splits)
qed simp

lemma short_lines_append: "short_lines n k (p @ s) \<Longrightarrow> short_lines n 0 s"
proof (induction p arbitrary: k)
  case Nil
  then show ?case using short_lines_mono [of n k s 0] by simp
next
  case (Cons b p)
  then show ?case by (auto split: if_splits)
qed

lemma short_lines_prefix: "short_lines n k (p @ s) \<Longrightarrow> LF \<notin> set p \<Longrightarrow> p \<noteq> [] \<Longrightarrow> k + length p \<le> n"
proof (induction p arbitrary: k)
  case (Cons b p)
  then show ?case using Cons.IH [of "Suc k"] by (cases "p = []") (auto split: if_splits)
qed simp

lemma read_chunk_data:
  assumes "punctual d evs" "evs \<noteq> []" "data_event (hd evs)"
  shows "\<exists>c evs'. read_chunk d evs = (Inr c, evs') \<and> c \<noteq> [] \<and> arrived evs = c @ arrived evs' \<and>
    tail_of evs' = tail_of evs \<and> punctual d evs'"
proof -
  from assms(2,3) obtain w bs rest where e: "evs = Arrives w bs # rest" "bs \<noteq> []"
    by (cases evs; cases "hd evs") (auto simp: data_event_def arrival_def)
  then have w: "w \<le> d" "punctual d rest" using assms(1) by (auto simp: punctual_def data_event_def arrival_def in_time_def)
  show ?thesis
  proof (cases "length bs > READ_CHUNK")
    case True
    then have "drop READ_CHUNK bs \<noteq> []" by simp
    then show ?thesis using True e w
      by (auto simp: arrived_def tail_of_def punctual_def data_event_def arrival_def in_time_def READ_CHUNK_def)
  next
    case False
    then show ?thesis using e w by (auto simp: arrived_def tail_of_def data_event_def arrival_def READ_CHUNK_def)
  qed
qed

lemma no_data:
  assumes "evs = [] \<or> \<not> data_event (hd evs)"
  shows "arrived evs = []" "tail_of evs = evs"
  using assms by (cases evs; simp add: arrived_def tail_of_def)+

lemma read_chunk_no_data:
  assumes "evs = [] \<or> \<not> data_event (hd evs)" "read_chunk d evs = (Inr c, evs')"
  shows "c = []"
  using assms by (cases "(d, evs)" rule: read_chunk.cases) (auto simp: data_event_def arrival_def split: if_splits)

text \<open>What becomes of the loop of \<open>next_line\<close>, in terms of the bytes ahead: a line, too much without one, or their end.\<close>

definition line_cases ::
  "nat \<Rightarrow> nat \<Rightarrow> bytes \<Rightarrow> read_event list \<Rightarrow> (error_kind + line) \<Rightarrow> bytes \<Rightarrow> read_event list \<Rightarrow> bool" where
  "line_cases d m b evs r b' evs' \<longleftrightarrow>
     (\<exists>l. r = Inr (Got l) \<and> full_line l \<and> b @ arrived evs = l @ b' @ arrived evs' \<and>
          tail_of evs' = tail_of evs \<and> punctual d evs') \<or>
     (r = Inr TooLong \<and> LF \<notin> set b' \<and> m < length b' \<and> b @ arrived evs = b' @ arrived evs' \<and>
          tail_of evs' = tail_of evs \<and> punctual d evs') \<or>
     (LF \<notin> set (b @ arrived evs) \<and> b' = b @ arrived evs \<and> length b' \<le> m \<and>
          (\<exists>x. read_chunk d (tail_of evs) = (x, evs') \<and> r = (case x of Inl e \<Rightarrow> Inl e | Inr _ \<Rightarrow> Inr Eof)))"

lemma fill_line_cases:
  "fill_line d m b evs = (r, b', evs') \<Longrightarrow> punctual d evs \<Longrightarrow> line_cases d m b evs r b' evs'"
proof (induction d m b evs rule: fill_line.induct)
  case (1 d m b evs)
  note eq = "1.prems"(1) [unfolded fill_line.simps [of d m b evs]]
  show ?case
  proof (cases "take_line b")
    case (Some p)
    then obtain l rest where p: "take_line b = Some (l, rest)" by (cases p) auto
    then have "full_line l" "b = l @ rest" by (auto simp: take_line_Some full_line_def)
    with eq p "1.prems"(2) show ?thesis by (auto simp: line_cases_def)
  next
    case None
    show ?thesis
    proof (cases "m < length b")
      case True
      with eq None "1.prems"(2) show ?thesis by (auto simp: line_cases_def take_line_None)
    next
      case False
      show ?thesis
      proof (cases "evs = [] \<or> \<not> data_event (hd evs)")
        case True
        obtain x e1 where x: "read_chunk d evs = (x, e1)" by (cases "read_chunk d evs")
        have "x = Inr c \<Longrightarrow> c = []" for c using read_chunk_no_data [OF True] x by simp
        with eq None False x no_data [OF True] show ?thesis
          by (cases x) (auto simp: line_cases_def take_line_None)
      next
        case data: False
        then obtain c e1 where c: "read_chunk d evs = (Inr c, e1)" "c \<noteq> []" "arrived evs = c @ arrived e1"
          "tail_of e1 = tail_of evs" "punctual d e1" using read_chunk_data [OF "1.prems"(2)] by blast
        have "fill_line d m (b @ c) e1 = (r, b', evs')" using eq None False c(1,2) by simp
        from "1.IH" [OF None False c(1) [symmetric] refl c(2) this c(5)] show ?thesis
          by (simp add: line_cases_def c(3,4))
      qed
    qed
  qed
qed


section \<open>Two sessions on the same bytes\<close>

definition ahead :: "'h session \<Rightarrow> bytes" where
  "ahead s = buf s @ arrived (inp s)"

definition patience :: "('h, 'k) env \<Rightarrow> nat" where
  "patience E = min (idle_timeout (cfg E)) (greeting_timeout (cfg E))"

abbreviation fits :: "bytes \<Rightarrow> bool" where
  "fits bs \<equiv> short_lines MAX_COMMAND_BUFFER 0 bs"

text \<open>The same bytes in time, in whatever pieces.\<close>

definition same_reads :: "nat \<Rightarrow> read_event list \<Rightarrow> read_event list \<Rightarrow> bool" where
  "same_reads d e1 e2 \<longleftrightarrow>
     arrived e1 = arrived e2 \<and> tail_of e1 = tail_of e2 \<and> punctual d e1 \<and> punctual d e2 \<and> fits (arrived e1)"

definition same_tls :: "nat \<Rightarrow> tls_outcome \<Rightarrow> tls_outcome \<Rightarrow> bool" where
  "same_tls d t1 t2 \<longleftrightarrow>
     (case (t1, t2) of (HandshakeOk e1, HandshakeOk e2) \<Rightarrow> same_reads d e1 e2 | _ \<Rightarrow> t1 = t2)"

text \<open>What a session has done and knows, without what is ahead of it.\<close>

definition visible :: "'h session \<Rightarrow> 'h session" where
  "visible s = s\<lparr>inp := [], buf := [], after_tls := HandshakeFails\<rparr>"

definition sim :: "('h, 'k) env \<Rightarrow> 'h session \<Rightarrow> 'h session \<Rightarrow> bool" where
  "sim E s1 s2 \<longleftrightarrow>
     visible s1 = visible s2 \<and> ahead s1 = ahead s2 \<and> tail_of (inp s1) = tail_of (inp s2) \<and>
     punctual (patience E) (inp s1) \<and> punctual (patience E) (inp s2) \<and> fits (ahead s1) \<and>
     same_tls (patience E) (after_tls s1) (after_tls s2)"

lemma visible_fields:
  assumes "visible s1 = visible s2"
  shows "st s2 = st s1" "tls_active s2 = tls_active s1" "handler s2 = handler s1"
    "first_command_seen s2 = first_command_seen s1" "recipients s2 = recipients s1" "wire_log s2 = wire_log s1"
    "trace s2 = trace s1" "writes s2 = writes s1" "drain_script s2 = drain_script s1"
  using assms by (cases s1; cases s2; simp add: visible_def)+

lemma sim_visible: "sim E s1 s2 \<Longrightarrow> visible s1 = visible s2"
  by (simp add: sim_def)

lemmas sim_fields = visible_fields [OF sim_visible]

lemma visible_updates:
  assumes "visible s1 = visible s2"
  shows "visible (s1\<lparr>st := a\<rparr>) = visible (s2\<lparr>st := a\<rparr>)" "visible (s1\<lparr>tls_active := b\<rparr>) = visible (s2\<lparr>tls_active := b\<rparr>)"
    "visible (s1\<lparr>handler := h\<rparr>) = visible (s2\<lparr>handler := h\<rparr>)"
    "visible (s1\<lparr>first_command_seen := b\<rparr>) = visible (s2\<lparr>first_command_seen := b\<rparr>)"
    "visible (s1\<lparr>recipients := n\<rparr>) = visible (s2\<lparr>recipients := n\<rparr>)"
    "visible (s1\<lparr>wire_log := w\<rparr>) = visible (s2\<lparr>wire_log := w\<rparr>)" "visible (s1\<lparr>trace := t\<rparr>) = visible (s2\<lparr>trace := t\<rparr>)"
    "visible (s1\<lparr>writes := v\<rparr>) = visible (s2\<lparr>writes := v\<rparr>)"
    "visible (s1\<lparr>drain_script := d\<rparr>) = visible (s2\<lparr>drain_script := d\<rparr>)"
    "visible (s1\<lparr>buf := bs\<rparr>) = visible (s2\<lparr>buf := bs'\<rparr>)" "visible (s1\<lparr>inp := i\<rparr>) = visible (s2\<lparr>inp := i'\<rparr>)"
    "visible (s1\<lparr>after_tls := x\<rparr>) = visible (s2\<lparr>after_tls := x'\<rparr>)"
  using assms by (cases s1; cases s2; simp add: visible_def)+

lemma ahead_updates [simp]:
  "ahead (s\<lparr>st := a\<rparr>) = ahead s" "ahead (s\<lparr>tls_active := b\<rparr>) = ahead s" "ahead (s\<lparr>handler := h\<rparr>) = ahead s"
  "ahead (s\<lparr>first_command_seen := b\<rparr>) = ahead s" "ahead (s\<lparr>recipients := n\<rparr>) = ahead s"
  "ahead (s\<lparr>wire_log := w\<rparr>) = ahead s" "ahead (s\<lparr>trace := t\<rparr>) = ahead s" "ahead (s\<lparr>writes := v\<rparr>) = ahead s"
  "ahead (s\<lparr>drain_script := d\<rparr>) = ahead s"
  by (simp_all add: ahead_def)

lemma sim_updates:
  assumes "sim E s1 s2"
  shows "sim E (s1\<lparr>st := a\<rparr>) (s2\<lparr>st := a\<rparr>)" "sim E (s1\<lparr>tls_active := b\<rparr>) (s2\<lparr>tls_active := b\<rparr>)"
    "sim E (s1\<lparr>handler := h\<rparr>) (s2\<lparr>handler := h\<rparr>)" "sim E (s1\<lparr>first_command_seen := b\<rparr>) (s2\<lparr>first_command_seen := b\<rparr>)"
    "sim E (s1\<lparr>recipients := n\<rparr>) (s2\<lparr>recipients := n\<rparr>)" "sim E (s1\<lparr>wire_log := w\<rparr>) (s2\<lparr>wire_log := w\<rparr>)"
    "sim E (s1\<lparr>trace := t\<rparr>) (s2\<lparr>trace := t\<rparr>)" "sim E (s1\<lparr>writes := v\<rparr>) (s2\<lparr>writes := v\<rparr>)"
    "sim E (s1\<lparr>drain_script := d\<rparr>) (s2\<lparr>drain_script := d\<rparr>)"
  using assms visible_updates [OF sim_visible [OF assms]] by (auto simp: sim_def)

lemma visible_emit:
  assumes "visible s1 = visible s2"
  shows "visible (emit e s1) = visible (emit e s2)"
  unfolding emit_def visible_fields(7) [OF assms] by (rule visible_updates(7) [OF assms])

lemma sim_emit:
  assumes "sim E s1 s2"
  shows "sim E (emit e s1) (emit e s2)"
  unfolding emit_def sim_fields(7) [OF assms] by (rule sim_updates(7) [OF assms])

lemma sim_log:
  assumes "sim E s1 s2"
  shows "sim E (log_lines F ls s1) (log_lines F ls s2)"
  unfolding log_lines_def sim_fields(6) [OF assms] using assms sim_updates(6) [OF assms] by (simp split: option.split)

lemma sim_start:
  assumes "sim E s1 s2"
  shows "sim E (start_transaction F s1) (start_transaction F s2)"
  unfolding start_transaction_def sim_fields(3) [OF assms] by (intro sim_emit sim_updates assms)

lemma visible_start:
  assumes "visible s1 = visible s2"
  shows "visible (start_transaction F s1) = visible (start_transaction F s2)"
  unfolding start_transaction_def visible_fields(3) [OF assms] by (intro visible_emit visible_updates assms)

text \<open>Two outcomes that are alike: the same result and the same doings, and where the session goes on the same ahead.\<close>

definition alike ::
  "('a \<Rightarrow> bool) \<Rightarrow> ('h, 'k) env \<Rightarrow> (('e + 'a) \<times> 'h session) option \<Rightarrow> (('e + 'a) \<times> 'h session) option \<Rightarrow> bool" where
  "alike P E m1 m2 \<longleftrightarrow>
     (case (m1, m2) of
        (Some (r1, s1), Some (r2, s2)) \<Rightarrow>
          r1 = r2 \<and> visible s1 = visible s2 \<and> (case r1 of Inr a \<Rightarrow> P a \<longrightarrow> sim E s1 s2 | Inl _ \<Rightarrow> True)
      | (None, None) \<Rightarrow> True
      | _ \<Rightarrow> False)"

abbreviation goes_on :: "flow \<Rightarrow> bool" where
  "goes_on f \<equiv> f \<noteq> Close"

abbreviation always :: "'a \<Rightarrow> bool" where
  "always a \<equiv> True"

lemma alike_simps [simp]:
  "alike P E (ok a s1) (ok b s2) \<longleftrightarrow> a = b \<and> visible s1 = visible s2 \<and> (P a \<longrightarrow> sim E s1 s2)"
  "alike P E (Some (Inr a, s1)) (Some (Inr b, s2)) \<longleftrightarrow> a = b \<and> visible s1 = visible s2 \<and> (P a \<longrightarrow> sim E s1 s2)"
  "alike P E (Some (Inl e, s1)) (Some (Inl f, s2)) \<longleftrightarrow> e = f \<and> visible s1 = visible s2"
  "alike P E None None"
  by (auto simp: alike_def ok_def)

lemma alike_same: "sim E s1 s2 \<Longrightarrow> alike P E (Some (r, s1)) (Some (r, s2))"
  by (cases r) (auto dest: sim_visible)

lemma alike_ok: "sim E s1 s2 \<Longrightarrow> alike P E (ok a s1) (ok a s2)"
  unfolding ok_def by (rule alike_same)

lemma alike_cases:
  assumes "alike P E m1 m2"
  obtains (panic) "m1 = None" "m2 = None"
  | (error) e s1 s2 where "m1 = Some (Inl e, s1)" "m2 = Some (Inl e, s2)" "visible s1 = visible s2"
  | (result) a s1 s2 where "m1 = Some (Inr a, s1)" "m2 = Some (Inr a, s2)" "visible s1 = visible s2" "P a \<Longrightarrow> sim E s1 s2"
proof (cases m1)
  case None
  with assms have "m2 = None" by (cases m2) (auto simp: alike_def)
  with None show thesis by (rule panic)
next
  case (Some p)
  then obtain r s1 where p: "m1 = Some (r, s1)" by (cases p) auto
  obtain r' s2 where q: "m2 = Some (r', s2)" using assms p by (cases m2) (auto simp: alike_def)
  show thesis using assms p q error [of _ s1 s2] result [of _ s1 s2] by (cases r) (auto simp: alike_def)
qed

lemma alike_then:
  assumes "alike Q E m1 m2" and "\<And>a s1 s2. Q a \<Longrightarrow> sim E s1 s2 \<Longrightarrow> alike P E (k a s1) (k a s2)"
    and "\<And>a s1 s2. \<not> Q a \<Longrightarrow> visible s1 = visible s2 \<Longrightarrow> alike P E (k a s1) (k a s2)"
  shows "alike P E (and_then m1 k) (and_then m2 k)"
  using assms(1)
proof (cases rule: alike_cases)
  case (result a s1 s2)
  then show ?thesis using assms(2,3) [of a s1 s2] by (cases "Q a") (simp_all add: and_then_def)
qed (simp_all add: and_then_def)

lemma alike_send:
  assumes "sim E s1 s2"
  shows "alike always E (send E r s1) (send E r s2)"
proof -
  let ?l = "\<lambda>w s. log_lines E (\<lambda>_. log_sent w) s"
  have l: "sim E (?l w s1) (?l w s2)" for w using assms by (rule sim_log)
  show ?thesis unfolding send_def Let_def sim_fields(8) [OF l]
    by (auto intro!: alike_same sim_emit sim_updates l simp del: alike_simps(2,3) split: option.split list.split)
qed

lemma alike_send_then:
  assumes "sim E s1 s2" "\<And>t1 t2. sim E t1 t2 \<Longrightarrow> alike P E (k () t1) (k () t2)"
  shows "alike P E (and_then (send E r s1) k) (and_then (send E r s2) k)"
  using alike_send [OF assms(1)] by (rule alike_then) (simp_all add: assms(2))

lemma alike_send_continue: "sim E s1 s2 \<Longrightarrow> alike P E (send_continue E r s1) (send_continue E r s2)"
  unfolding send_continue_def by (rule alike_send_then [OF _ alike_ok])

lemma alike_bad_sequence: "sim E s1 s2 \<Longrightarrow> alike P E (bad_sequence E s1) (bad_sequence E s2)"
  unfolding bad_sequence_def by (rule alike_send_continue)

lemma alike_send_ignore:
  assumes "sim E s1 s2"
  shows "alike (\<lambda>_. False) E (send_ignore E r s1) (send_ignore E r s2)"
  using alike_send [OF assms, of r] by (cases rule: alike_cases) (simp_all add: send_ignore_def)

lemma alike_refuse_long_line: "sim E s1 s2 \<Longrightarrow> alike (\<lambda>_. False) E (refuse_long_line E s1) (refuse_long_line E s2)"
  unfolding refuse_long_line_def by (rule alike_send_ignore)

lemma alike_drained: "sim E s1 s2 \<Longrightarrow> alike (\<lambda>_. False) E (drained E s1) (drained E s2)"
  unfolding drained_def by (rule alike_then [OF alike_send_ignore]) (auto intro: visible_emit)


section \<open>Reading\<close>

lemma punctual_mono: "punctual d evs \<Longrightarrow> d \<le> d' \<Longrightarrow> punctual d' evs"
  by (auto simp: punctual_def list_all_iff in_time_def split: read_event.splits)

lemma deadline_patience: "patience E \<le> deadline E s"
  by (simp add: patience_def deadline_def)

text \<open>A read event that is left over is never later than it was.\<close>

lemma read_chunk_punctual: "read_chunk d evs = (r, evs') \<Longrightarrow> punctual d0 evs \<Longrightarrow> data_event (hd evs) \<Longrightarrow> evs \<noteq> [] \<Longrightarrow> punctual d0 evs'"
  by (cases "(d, evs)" rule: read_chunk.cases)
     (auto simp: punctual_def data_event_def arrival_def in_time_def split: if_splits)

lemma fill_line_punctual:
  "fill_line d m b evs = (r, b', evs') \<Longrightarrow> punctual d0 evs \<Longrightarrow> (\<exists>l. r = Inr (Got l)) \<or> r = Inr TooLong \<Longrightarrow> punctual d0 evs'"
proof (induction d m b evs rule: fill_line.induct)
  case (1 d m b evs)
  note eq = "1.prems"(1) [unfolded fill_line.simps [of d m b evs]]
  show ?case
  proof (cases "take_line b = None \<and> \<not> m < length b")
    case False
    with eq "1.prems"(2,3) show ?thesis by (cases "take_line b") auto
  next
    case True
    then have n: "take_line b = None" "\<not> m < length b" by auto
    obtain x e1 where x: "read_chunk d evs = (x, e1)" by (cases "read_chunk d evs")
    from eq n x "1.prems"(3) obtain c where c: "x = Inr c" "c \<noteq> []" "fill_line d m (b @ c) e1 = (r, b', evs')"
      by (cases x) (auto split: if_splits)
    have "evs \<noteq> [] \<and> data_event (hd evs)" using read_chunk_no_data [of evs d c e1] x c by blast
    then have "punctual d0 e1" using read_chunk_punctual [OF x "1.prems"(2)] by simp
    with "1.IH" [OF n x [symmetric] c(1,2,3)] "1.prems"(3) show ?thesis by blast
  qed
qed

text \<open>One read of a line, from one state: what is ahead afterwards.\<close>

definition next_cases :: "('h, 'k) env \<Rightarrow> nat \<Rightarrow> 'h session \<Rightarrow> (error_kind + line) \<Rightarrow> 'h session \<Rightarrow> bool" where
  "next_cases E m s r s' \<longleftrightarrow>
     (\<exists>l. r = Inr (Got l) \<and> full_line l \<and> ahead s = l @ ahead s' \<and>
          tail_of (inp s') = tail_of (inp s) \<and> punctual (patience E) (inp s')) \<or>
     (r = Inr TooLong \<and> LF \<notin> set (buf s') \<and> m < length (buf s') \<and> ahead s = buf s' @ ahead (s'\<lparr>buf := []\<rparr>) \<and>
          tail_of (inp s') = tail_of (inp s) \<and> punctual (patience E) (inp s')) \<or>
     (LF \<notin> set (ahead s) \<and> length (ahead s) \<le> m \<and>
          r = (case fst (read_chunk (deadline E s) (tail_of (inp s))) of Inl e \<Rightarrow> Inl e | Inr _ \<Rightarrow> Inr Eof))"

lemma next_line_cases:
  assumes "next_line E m s = (r, s')" "punctual (patience E) (inp s)"
  shows "next_cases E m s r s'" "visible s' = visible s" "after_tls s' = after_tls s"
proof -
  obtain b evs where f: "fill_line (deadline E s) m (buf s) (inp s) = (r, b, evs)" and s': "s' = s\<lparr>buf := b, inp := evs\<rparr>"
    using assms by (auto simp: next_line_def split: prod.splits)
  have "line_cases (deadline E s) m (buf s) (inp s) r b evs"
    using f punctual_mono [OF assms(2) deadline_patience] by (rule fill_line_cases)
  then show "next_cases E m s r s'"
    using fill_line_punctual [OF f assms(2)] by (auto simp: line_cases_def next_cases_def s' ahead_def)
  show "visible s' = visible s" "after_tls s' = after_tls s" by (simp_all add: s' visible_def)
qed

lemma full_line_unique:
  assumes "l1 @ r1 = l2 @ r2" "full_line l1" "full_line l2"
  shows "l1 = l2 \<and> r1 = r2"
proof -
  obtain x y where x: "l1 = x @ [LF]" "LF \<notin> set x" "l2 = y @ [LF]" "LF \<notin> set y" using assms(2,3) by (auto simp: full_line_def)
  then have "x @ LF # r1 = y @ LF # r2" using assms(1) by simp
  then have "x = y" using x(2,4) by (auto simp: append_eq_append_conv2 append_eq_Cons_conv Cons_eq_append_conv)
  then show ?thesis using x assms(1) by simp
qed

lemma full_line_LF: "full_line l \<Longrightarrow> LF \<in> set l"
  by (auto simp: full_line_def)

text \<open>A prefix without an LF lies within the first line.\<close>

lemma prefix_in_line:
  assumes "p @ s = l @ t" "LF \<notin> set p" "full_line l"
  shows "\<exists>q. full_line q \<and> l = p @ q \<and> s = q @ t"
proof -
  obtain x where x: "l = x @ [LF]" "LF \<notin> set x" using assms(3) by (auto simp: full_line_def)
  have "p @ s = x @ LF # t" using assms(1) x by simp
  then obtain u where "p @ u = x \<and> s = u @ LF # t \<or> p = x @ u \<and> u @ s = LF # t"
    by (auto simp: append_eq_append_conv2)
  then show ?thesis
  proof
    assume "p @ u = x \<and> s = u @ LF # t"
    then show ?thesis using x by (intro exI [of _ "u @ [LF]"]) (auto simp: full_line_def)
  next
    assume u: "p = x @ u \<and> u @ s = LF # t"
    then have "u = []" using assms(2) by (cases u) auto
    then show ?thesis using u x by (intro exI [of _ "[LF]"]) (auto simp: full_line_def)
  qed
qed

text \<open>A state that is the other one further on: past some of the bytes ahead, \<open>rest\<close> still to come.\<close>

definition past :: "('h, 'k) env \<Rightarrow> 'h session \<Rightarrow> bytes \<Rightarrow> 'h session \<Rightarrow> bool" where
  "past E s rest s' \<longleftrightarrow>
     visible s' = visible s \<and> after_tls s' = after_tls s \<and> ahead s' = rest \<and> tail_of (inp s') = tail_of (inp s) \<and>
     punctual (patience E) (inp s') \<and> fits rest"

lemma past_sim:
  assumes "sim E s1 s2" "past E s1 rest t1" "past E s2 rest t2"
  shows "sim E t1 t2"
  using assms by (simp add: sim_def past_def)

lemma past_trans: "past E s a t \<Longrightarrow> past E t b u \<Longrightarrow> past E s b u"
  by (simp add: past_def)

text \<open>One read of a line, when one is ahead and when none is.\<close>

lemma next_line_line:
  assumes "punctual (patience E) (inp s)" "fits (ahead s)" "ahead s = l @ rest" "full_line l" "next_line E m s = (r, s')"
  shows "r = Inr (Got l) \<and> past E s rest s' \<or>
    r = Inr TooLong \<and> m + 2 \<le> length l \<and> (\<exists>q. full_line q \<and> past E s (q @ rest) (s'\<lparr>buf := []\<rparr>))"
proof -
  note c = next_line_cases [OF assms(5,1)]
  have fits: "fits x" if "ahead s = y @ x" for x y using assms(2) that short_lines_append [of _ 0 y x] by simp
  have "LF \<in> set (ahead s)" using assms(3,4) full_line_LF by simp
  then consider (got) l' where "r = Inr (Got l')" "full_line l'" "ahead s = l' @ ahead s'"
      "tail_of (inp s') = tail_of (inp s)" "punctual (patience E) (inp s')"
    | (long) "r = Inr TooLong" "LF \<notin> set (buf s')" "m < length (buf s')" "ahead s = buf s' @ ahead (s'\<lparr>buf := []\<rparr>)"
      "tail_of (inp s') = tail_of (inp s)" "punctual (patience E) (inp s')"
    using c(1) unfolding next_cases_def by blast
  then show ?thesis
  proof cases
    case got
    have "l' @ ahead s' = l @ rest" using got(3) assms(3) by metis
    then have "l' = l \<and> ahead s' = rest" using got(2) assms(4) by (rule full_line_unique)
    then show ?thesis using got c(2,3) fits [OF assms(3)] by (simp add: past_def)
  next
    case long
    have "buf s' @ ahead (s'\<lparr>buf := []\<rparr>) = l @ rest" using long(4) assms(3) by simp
    then obtain q where q: "full_line q" "l = buf s' @ q" "ahead (s'\<lparr>buf := []\<rparr>) = q @ rest"
      using prefix_in_line [OF _ long(2) assms(4)] by blast
    have "past E s (q @ rest) (s'\<lparr>buf := []\<rparr>)"
      using long c(2,3) q(3) fits [OF long(4)] by (simp add: past_def visible_def)
    moreover have "q \<noteq> []" using q(1) full_line_LF [of q] by auto
    then have "m + 2 \<le> length l" using long(3) q(2) by (cases q) simp_all
    ultimately show ?thesis using long(1) q(1) by blast
  qed
qed

abbreviation stream_end :: "('h, 'k) env \<Rightarrow> 'h session \<Rightarrow> error_kind + line" where
  "stream_end E s \<equiv> (case fst (read_chunk (deadline E s) (tail_of (inp s))) of Inl e \<Rightarrow> Inl e | Inr _ \<Rightarrow> Inr Eof)"

lemma next_line_none:
  assumes "punctual (patience E) (inp s)" "fits (ahead s)" "LF \<notin> set (ahead s)" "next_line E m s = (r, s')"
  shows "visible s' = visible s \<and>
    (if length (ahead s) \<le> m then r = stream_end E s
     else r = Inr TooLong \<and> (\<exists>rest. LF \<notin> set rest \<and> past E s rest (s'\<lparr>buf := []\<rparr>)))"
proof -
  note c = next_line_cases [OF assms(4,1)]
  have fits: "fits x" if "ahead s = y @ x" for x y using assms(2) that short_lines_append [of _ 0 y x] by simp
  have "\<not> (full_line l \<and> ahead s = l @ x)" for l x using assms(3) full_line_LF by auto
  then consider
      (long) "r = Inr TooLong" "m < length (buf s')" "ahead s = buf s' @ ahead (s'\<lparr>buf := []\<rparr>)"
        "tail_of (inp s') = tail_of (inp s)" "punctual (patience E) (inp s')"
    | (ended) "length (ahead s) \<le> m" "r = stream_end E s"
    using c(1) unfolding next_cases_def by blast
  then show ?thesis
  proof cases
    case long
    have "past E s (ahead (s'\<lparr>buf := []\<rparr>)) (s'\<lparr>buf := []\<rparr>)"
      using long c(2,3) fits [OF long(3)] by (simp add: past_def visible_def)
    moreover have "LF \<notin> set (ahead (s'\<lparr>buf := []\<rparr>))" "\<not> length (ahead s) \<le> m" using assms(3) long(2,3) by auto
    ultimately show ?thesis using long(1) c(2) by auto
  qed (use c(2) in simp)
qed

lemma line_or_none: "LF \<notin> set bs \<or> (\<exists>l rest. bs = l @ rest \<and> full_line l)"
proof (cases "LF \<in> set bs")
  case True
  then obtain x rest where "bs = x @ LF # rest" "LF \<notin> set x" using split_list_first [of LF bs] by blast
  then have "bs = (x @ [LF]) @ rest \<and> full_line (x @ [LF])" by (auto simp: full_line_def)
  then show ?thesis by blast
qed simp

text \<open>A line within the budget of a command is never too long.\<close>

lemma fits_line: "fits (l @ rest) \<Longrightarrow> full_line l \<Longrightarrow> length l \<le> MAX_COMMAND_BUFFER + 1"
proof -
  assume f: "fits (l @ rest)" "full_line l"
  then obtain x where x: "l = x @ [LF]" "LF \<notin> set x" by (auto simp: full_line_def)
  then show ?thesis using f(1) short_lines_prefix [of MAX_COMMAND_BUFFER 0 x "[LF] @ rest"] by (cases "x = []") simp_all
qed

lemma fits_none: "fits bs \<Longrightarrow> LF \<notin> set bs \<Longrightarrow> length bs \<le> MAX_COMMAND_BUFFER"
  using short_lines_prefix [of MAX_COMMAND_BUFFER 0 bs "[]"] by (cases "bs = []") simp_all

lemma sim_past:
  assumes "sim E s1 s2"
  shows "punctual (patience E) (inp s1)" "punctual (patience E) (inp s2)" "fits (ahead s1)" "fits (ahead s2)"
    "ahead s2 = ahead s1" "stream_end E s2 = stream_end E s1"
  using assms sim_fields(4) [OF assms] unfolding sim_def deadline_def by auto

lemma next_line_alike:
  assumes "sim E s1 s2" "next_line E MAX_COMMAND_BUFFER s1 = (r1, s1')" "next_line E MAX_COMMAND_BUFFER s2 = (r2, s2')"
  shows "r1 = r2" "r1 \<noteq> Inr TooLong" "visible s1' = visible s2'" "r1 = Inr (Got l) \<Longrightarrow> sim E s1' s2'"
proof -
  note s = sim_past [OF assms(1)] and v = sim_visible [OF assms(1)]
  have "r1 = r2 \<and> r1 \<noteq> Inr TooLong \<and> visible s1' = visible s2' \<and> (r1 = Inr (Got l) \<longrightarrow> sim E s1' s2')"
  proof (cases "LF \<in> set (ahead s1)")
    case False
    have "length (ahead s1) \<le> MAX_COMMAND_BUFFER" using fits_none s(3) False .
    then have "r1 = stream_end E s1" "r2 = stream_end E s1" "visible s1' = visible s1" "visible s2' = visible s2"
      using next_line_none [OF s(1,3) False assms(2)] next_line_none [OF s(2,4) _ assms(3)] False s(5,6) by simp_all
    then show ?thesis using v by (auto split: sum.splits)
  next
    case True
    then obtain l rest where a: "ahead s1 = l @ rest" "full_line l" using line_or_none by blast
    have "length l \<le> MAX_COMMAND_BUFFER + 1" using fits_line s(3) a by simp
    then have x: "r1 = Inr (Got l)" "r2 = Inr (Got l)" "past E s1 rest s1'" "past E s2 rest s2'"
      using next_line_line [OF s(1,3) a assms(2)] next_line_line [OF s(2,4) _ a(2) assms(3)] a(1) s(5) by simp_all
    have y: "sim E s1' s2'" using past_sim [OF assms(1) x(3,4)] .
    then show ?thesis using x sim_visible [OF y] by simp
  qed
  then show "r1 = r2" "r1 \<noteq> Inr TooLong" "visible s1' = visible s2'" "r1 = Inr (Got l) \<Longrightarrow> sim E s1' s2'" by blast+
qed

text \<open>The budget of the body is that of a command line.\<close>

lemma WRITE_CHUNK_buffer: "WRITE_CHUNK = MAX_COMMAND_BUFFER"
  by (simp add: WRITE_CHUNK_def MAX_COMMAND_BUFFER_def)

lemma discard_alike:
  "sim E s1 s2 \<Longrightarrow>
   alike goes_on E (Some (discard_to_terminator E start s1)) (Some (discard_to_terminator E start s2))"
proof (induction E start s1 arbitrary: s2 rule: discard_to_terminator.induct)
  case (1 E start s1)
  obtain r1 t1 where n1: "next_line E MAX_COMMAND_BUFFER s1 = (r1, t1)" by (cases "next_line E MAX_COMMAND_BUFFER s1")
  obtain r2 t2 where n2: "next_line E MAX_COMMAND_BUFFER s2 = (r2, t2)" by (cases "next_line E MAX_COMMAND_BUFFER s2")
  note n = next_line_alike [OF "1.prems" n1 n2]
  note d = discard_to_terminator.simps [of E start s1, unfolded n1] discard_to_terminator.simps [of E start s2, unfolded n2]
  show ?case
  proof (cases r1)
    case (Inl e)
    then show ?thesis using n(1,3) by (simp add: d)
  next
    case (Inr y)
    show ?thesis
    proof (cases y)
      case (Got l)
      have s: "sim E t1 t2" using n(4) Inr Got by simp
      show ?thesis using "1.IH"(1) [OF n1 [symmetric] Inr Got _ s] n(1,3) Inr Got s by (auto simp: d)
    qed (use n(1-3) Inr in \<open>auto simp: d\<close>)
  qed
qed

text \<open>
  Where the header cap was crossed inside a line, what is left of that line depends on the cut: skipping to the
  terminator from there is skipping from the next line on.
\<close>

lemma discard_mid_line:
  assumes "punctual (patience E) (inp s)" "fits (ahead s)" "ahead s = q @ rest" "full_line q"
  shows "\<exists>s'. discard_to_terminator E False s = discard_to_terminator E True s' \<and> past E s rest s'"
proof -
  obtain r s' where n: "next_line E MAX_COMMAND_BUFFER s = (r, s')" by (cases "next_line E MAX_COMMAND_BUFFER s")
  have "length q \<le> MAX_COMMAND_BUFFER + 1" using fits_line assms(2-4) by simp
  then have "r = Inr (Got q) \<and> past E s rest s'" using next_line_line [OF assms n] by simp
  then show ?thesis by (intro exI [of _ s']) (simp add: discard_to_terminator.simps [of E False s] n)
qed

lemma discard_no_line:
  assumes "punctual (patience E) (inp s)" "fits (ahead s)" "LF \<notin> set (ahead s)"
  shows "\<exists>s'. discard_to_terminator E False s =
      ((case fst (read_chunk (deadline E s) (tail_of (inp s))) of Inl e \<Rightarrow> Inl e | Inr _ \<Rightarrow> Inr Close), s') \<and> visible s' = visible s"
proof -
  obtain r s' where n: "next_line E MAX_COMMAND_BUFFER s = (r, s')" by (cases "next_line E MAX_COMMAND_BUFFER s")
  have "r = stream_end E s \<and> visible s' = visible s"
    using next_line_none [OF assms n] fits_none [OF assms(2,3)] by simp
  then show ?thesis by (auto simp: discard_to_terminator.simps [of E False s] n split: sum.splits)
qed


section \<open>Headers\<close>

abbreviation at_cap :: "bool \<Rightarrow> header_end" where
  "at_cap b \<equiv> (if b then CapAtLine else CapInLine)"

lemma push_line_too_long:
  assumes "\<not> too_large c" "\<not> delivered c" "hdr_size c \<le> max_header_size c"
    and "max_header_size c - hdr_size c + 4 \<le> length l"
  shows "fst (push_line l c) = Some TooLarge"
proof -
  have "\<not> is_terminator l" "\<not> is_empty_line l" using assms(4) by (auto simp: is_terminator_def is_empty_line_def)
  moreover have "length l \<le> length (unstuff l) + 1" by (auto simp: unstuff_def strip_prefix_Some split: option.split)
  ultimately show ?thesis using assms by (simp add: push_line_def Let_def)
qed

text \<open>
  One turn of the header loop from one state. When the next line breaks the cap the loop ends, in that line or
  behind it, and either way skipping to the terminator goes on from the line that follows.
\<close>

lemma header_turn_cap:
  assumes s: "punctual (patience E) (inp s)" "fits (ahead s)" and l: "ahead s = l @ rest" "full_line l"
    and c: "\<not> too_large c" "fst (push_line l c) = Some TooLarge"
  shows "\<exists>b u v. header_loop E c s = (Inr (at_cap b), u) \<and> visible u = visible s \<and>
    discard_to_terminator E b u = discard_to_terminator E True v \<and> past E s rest v"
proof -
  let ?m = "max_header_size c - hdr_size c + TERMINATOR_SLACK"
  obtain r s' where n: "next_line E ?m s = (r, s')" by (cases "next_line E ?m s")
  have h: "header_loop E c s = (case (r, s') of
       (Inl e, s1) \<Rightarrow> (Inl e, s1)
     | (Inr Eof, s1) \<Rightarrow> (Inr HeaderEof, s1)
     | (Inr TooLong, s1) \<Rightarrow> (Inr CapInLine, s1\<lparr>buf := []\<rparr>)
     | (Inr (Got l), s1) \<Rightarrow>
         (case push_line l c of
            (None, collector') \<Rightarrow> header_loop E collector' s1
          | (Some (Complete h), _) \<Rightarrow> (Inr (Block h True), s1)
          | (Some Terminator, collector') \<Rightarrow>
              (Inr (Block (case fst (take_pending collector') of Some h \<Rightarrow> h | None \<Rightarrow> []) False), s1)
          | (Some header_event.TooLarge, _) \<Rightarrow> (Inr CapAtLine, s1)))"
    by (subst header_loop.simps) (simp add: remaining_capacity_def c(1) n)
  from next_line_line [OF s l n] show ?thesis
  proof
    assume g: "r = Inr (Got l) \<and> past E s rest s'"
    then have "header_loop E c s = (Inr (at_cap True), s')" using c(2) by (cases "push_line l c") (simp add: h)
    moreover have "visible s' = visible s" using g by (simp add: past_def)
    ultimately show ?thesis using g by blast
  next
    assume "r = Inr TooLong \<and> ?m + 2 \<le> length l \<and> (\<exists>q. full_line q \<and> past E s (q @ rest) (s'\<lparr>buf := []\<rparr>))"
    then obtain q where q: "r = Inr TooLong" "full_line q" "past E s (q @ rest) (s'\<lparr>buf := []\<rparr>)" by blast
    let ?u = "s'\<lparr>buf := []\<rparr>"
    have p: "punctual (patience E) (inp ?u)" "ahead ?u = q @ rest" "fits (ahead ?u)" "visible ?u = visible s"
      using q(3) by (simp_all add: past_def)
    obtain v where v: "discard_to_terminator E False ?u = discard_to_terminator E True v" "past E ?u rest v"
      using discard_mid_line [OF p(1,3,2) q(2)] by blast
    have "header_loop E c s = (Inr (at_cap False), ?u)" by (simp add: h q(1))
    then show ?thesis using v p(4) past_trans [OF q(3) v(2)] by blast
  qed
qed

lemma header_turn_line:
  assumes s: "punctual (patience E) (inp s)" "fits (ahead s)" and l: "ahead s = l @ rest" "full_line l"
    and c: "\<not> too_large c" "\<not> delivered c" "hdr_size c \<le> max_header_size c" "fst (push_line l c) \<noteq> Some TooLarge"
  shows "\<exists>v. next_line E (max_header_size c - hdr_size c + TERMINATOR_SLACK) s = (Inr (Got l), v) \<and> past E s rest v"
proof -
  let ?m = "max_header_size c - hdr_size c + TERMINATOR_SLACK"
  obtain r s' where n: "next_line E ?m s = (r, s')" by (cases "next_line E ?m s")
  have "\<not> ?m + 2 \<le> length l" using push_line_too_long [OF c(1-3), of l] c(4) by (auto simp: TERMINATOR_SLACK_def)
  then show ?thesis using next_line_line [OF s l n] n by blast
qed

lemma header_turn_none:
  assumes s: "punctual (patience E) (inp s)" "fits (ahead s)" and l: "LF \<notin> set (ahead s)" and c: "\<not> too_large c"
  shows "\<exists>u. visible u = visible s \<and>
    (if length (ahead s) \<le> max_header_size c - hdr_size c + TERMINATOR_SLACK
     then header_loop E c s = ((case stream_end E s of Inl e \<Rightarrow> Inl e | Inr _ \<Rightarrow> Inr HeaderEof), u)
     else header_loop E c s = (Inr CapInLine, u) \<and>
       (\<exists>w. discard_to_terminator E False u = ((case stream_end E s of Inl e \<Rightarrow> Inl e | Inr _ \<Rightarrow> Inr Close), w) \<and>
            visible w = visible s))"
proof -
  let ?m = "max_header_size c - hdr_size c + TERMINATOR_SLACK"
  obtain r s' where n: "next_line E ?m s = (r, s')" by (cases "next_line E ?m s")
  note c = next_line_none [OF s l n]
  show ?thesis
  proof (cases "length (ahead s) \<le> ?m")
    case True
    then show ?thesis using c
      by (intro exI [of _ s'], subst header_loop.simps) (auto simp: remaining_capacity_def assms(4) n split: sum.splits)
  next
    case False
    let ?u = "s'\<lparr>buf := []\<rparr>"
    from False c obtain rest where q: "r = Inr TooLong" "LF \<notin> set rest" "past E s rest ?u" by auto
    have p: "punctual (patience E) (inp ?u)" "fits (ahead ?u)" "LF \<notin> set (ahead ?u)" "visible ?u = visible s"
      "tail_of (inp ?u) = tail_of (inp s)" using q(2,3) by (simp_all add: past_def)
    have "header_loop E c s = (Inr CapInLine, ?u)"
      by (subst header_loop.simps) (simp add: remaining_capacity_def assms(4) n q(1))
    moreover have "deadline E ?u = deadline E s" using visible_fields(4) [OF p(4)] by (simp add: deadline_def)
    then obtain w where "discard_to_terminator E False ?u = ((case stream_end E s of Inl e \<Rightarrow> Inl e | Inr _ \<Rightarrow> Inr Close), w)"
      "visible w = visible ?u" using discard_no_line [OF p(1-3)] p(5) by (auto split: sum.splits)
    ultimately show ?thesis using False p(4) by (intro exI [of _ ?u]) auto
  qed
qed

text \<open>The ends of the header loop that are alike.\<close>

definition headers_alike ::
  "('h, 'k) env \<Rightarrow> (error_kind + header_end) \<times> 'h session \<Rightarrow> (error_kind + header_end) \<times> 'h session \<Rightarrow> bool" where
  "headers_alike E x y \<longleftrightarrow>
     visible (snd x) = visible (snd y) \<and>
     (fst x = fst y \<and> (case fst x of Inr (Block _ _) \<Rightarrow> sim E (snd x) (snd y) | Inr e \<Rightarrow> e = HeaderEof | Inl _ \<Rightarrow> True) \<or>
      (\<exists>b1 b2. fst x = Inr (at_cap b1) \<and> fst y = Inr (at_cap b2) \<and>
         alike goes_on E (Some (discard_to_terminator E b1 (snd x))) (Some (discard_to_terminator E b2 (snd y)))))"

lemma push_line_None:
  assumes "push_line l c = (None, c')" "\<not> too_large c" "\<not> delivered c" "hdr_size c \<le> max_header_size c"
  shows "\<not> too_large c'" "\<not> delivered c'" "hdr_size c' \<le> max_header_size c'"
  using assms by (auto simp: push_line_def Let_def split: if_splits)

lemma headers_alike_cap:
  assumes "x = (Inr (at_cap b1), u1)" "y = (Inr (at_cap b2), u2)" "visible u1 = visible u2"
    and "alike goes_on E (Some (discard_to_terminator E b1 u1)) (Some (discard_to_terminator E b2 u2))"
  shows "headers_alike E x y"
  unfolding headers_alike_def assms(1,2) fst_conv snd_conv
  by (rule conjI [OF assms(3) disjI2], rule exI [of _ b1], rule exI [of _ b2], intro conjI refl assms(4))

lemma header_loop_none:
  assumes "sim E s1 s2" "\<not> too_large c" "LF \<notin> set (ahead s1)"
  shows "headers_alike E (header_loop E c s1) (header_loop E c s2)"
proof -
  note s = sim_past [OF assms(1)] and v = sim_visible [OF assms(1)]
  have l2: "LF \<notin> set (ahead s2)" using assms(3) s(5) by simp
  let ?m = "max_header_size c - hdr_size c + TERMINATOR_SLACK"
  note t1 = header_turn_none [OF s(1,3) assms(3,2)] and t2 = header_turn_none [OF s(2,4) l2 assms(2), unfolded s(5,6)]
  show ?thesis
  proof (cases "length (ahead s1) \<le> ?m")
    case True
    obtain u1 where u1: "visible u1 = visible s1"
      "header_loop E c s1 = ((case stream_end E s1 of Inl e \<Rightarrow> Inl e | Inr _ \<Rightarrow> Inr HeaderEof), u1)"
      using t1 True by auto
    obtain u2 where u2: "visible u2 = visible s2"
      "header_loop E c s2 = ((case stream_end E s1 of Inl e \<Rightarrow> Inl e | Inr _ \<Rightarrow> Inr HeaderEof), u2)"
      using t2 True by auto
    then show ?thesis using u1 u2 v by (auto simp: headers_alike_def split: sum.splits)
  next
    case False
    let ?r = "case stream_end E s1 of Inl e \<Rightarrow> Inl e | Inr _ \<Rightarrow> Inr Close"
    obtain u1 w1 where u1: "visible u1 = visible s1" "header_loop E c s1 = (Inr (at_cap False), u1)"
      "discard_to_terminator E False u1 = (?r, w1)" "visible w1 = visible s1" using t1 False by auto
    obtain u2 w2 where u2: "visible u2 = visible s2" "header_loop E c s2 = (Inr (at_cap False), u2)"
      "discard_to_terminator E False u2 = (?r, w2)" "visible w2 = visible s2" using t2 False by auto
    have "alike goes_on E (Some (?r, w1)) (Some (?r, w2))" using u1(4) u2(4) v by (auto split: sum.splits)
    then show ?thesis using u1(1,3) u2(1,3) v by (intro headers_alike_cap [OF u1(2) u2(2)]) simp_all
  qed
qed

lemma header_loop_cap:
  assumes "sim E s1 s2" "ahead s1 = l @ rest" "full_line l" "\<not> too_large c" "fst (push_line l c) = Some TooLarge"
  shows "headers_alike E (header_loop E c s1) (header_loop E c s2)"
proof -
  note s = sim_past [OF assms(1)]
  have a2: "ahead s2 = l @ rest" using assms(2) s(5) by simp
  obtain b1 u1 v1 where x1: "header_loop E c s1 = (Inr (at_cap b1), u1)" "visible u1 = visible s1"
    "discard_to_terminator E b1 u1 = discard_to_terminator E True v1" "past E s1 rest v1"
    using header_turn_cap [OF s(1,3) assms(2-5)] by blast
  obtain b2 u2 v2 where x2: "header_loop E c s2 = (Inr (at_cap b2), u2)" "visible u2 = visible s2"
    "discard_to_terminator E b2 u2 = discard_to_terminator E True v2" "past E s2 rest v2"
    using header_turn_cap [OF s(2,4) a2 assms(3-5)] by blast
  have "sim E v1 v2" using past_sim [OF assms(1) x1(4) x2(4)] .
  from discard_alike [OF this, of True] show ?thesis
    using x1(2,3) x2(2,3) sim_visible [OF assms(1)] by (intro headers_alike_cap [OF x1(1) x2(1)]) simp_all
qed

lemma header_loop_alike:
  "sim E s1 s2 \<Longrightarrow> \<not> too_large c \<Longrightarrow> \<not> delivered c \<Longrightarrow> hdr_size c \<le> max_header_size c \<Longrightarrow>
   headers_alike E (header_loop E c s1) (header_loop E c s2)"
proof (induction E c s1 arbitrary: s2 rule: header_loop.induct)
  case (1 E c s1)
  note s = sim_past [OF "1.prems"(1)] and c = "1.prems"(2-4)
  from line_or_none [of "ahead s1"] consider (none) "LF \<notin> set (ahead s1)"
    | (cap) l rest where "ahead s1 = l @ rest" "full_line l" "fst (push_line l c) = Some TooLarge"
    | (line) l rest where "ahead s1 = l @ rest" "full_line l" "fst (push_line l c) \<noteq> Some TooLarge" by blast
  then show ?case
  proof cases
    case line
    let ?m = "max_header_size c - hdr_size c + TERMINATOR_SLACK"
    have a2: "ahead s2 = l @ rest" using line(1) s(5) by simp
    obtain v1 where x1: "next_line E ?m s1 = (Inr (Got l), v1)" "past E s1 rest v1"
      using header_turn_line [OF s(1,3) line(1,2) c line(3)] by blast
    obtain v2 where x2: "next_line E ?m s2 = (Inr (Got l), v2)" "past E s2 rest v2"
      using header_turn_line [OF s(2,4) a2 line(2) c line(3)] by blast
    have sv: "sim E v1 v2" using past_sim [OF "1.prems"(1) x1(2) x2(2)] .
    have m: "(case remaining_capacity c of None \<Rightarrow> MAX_COMMAND_BUFFER | Some left \<Rightarrow> left + TERMINATOR_SLACK) = ?m"
      by (simp add: remaining_capacity_def c(1))
    note h = header_loop.simps [of E c s1, unfolded Let_def m x1(1)] header_loop.simps [of E c s2, unfolded Let_def m x2(1)]
    obtain e c' where p: "push_line l c = (e, c')" by (cases "push_line l c")
    show ?thesis
    proof (cases e)
      case None
      note IH = "1.IH" [OF refl, unfolded m, OF x1(1) [symmetric] refl refl, OF p [symmetric] None sv]
      show ?thesis using IH push_line_None [OF p [unfolded None] c] by (simp add: h p None)
    next
      case (Some ev)
      then show ?thesis using line(3) p sv sim_visible [OF sv] by (cases ev) (simp_all add: h headers_alike_def)
    qed
  qed (use header_loop_none header_loop_cap "1.prems" in blast)+
qed


section \<open>The body\<close>

definition body_goes_on :: "'k body_end \<Rightarrow> bool" where
  "body_goes_on e \<longleftrightarrow> e \<noteq> BodyEof"

lemma body_loop_alike:
  "sim E s1 s2 \<Longrightarrow> alike body_goes_on E (Some (body_loop E f k s1)) (Some (body_loop E f k s2))"
proof (induction E f k s1 arbitrary: s2 rule: body_loop.induct)
  case (1 E f k s1)
  obtain r1 t1 where n1: "next_line E WRITE_CHUNK s1 = (r1, t1)" by (cases "next_line E WRITE_CHUNK s1")
  obtain r2 t2 where n2: "next_line E WRITE_CHUNK s2 = (r2, t2)" by (cases "next_line E WRITE_CHUNK s2")
  note n = next_line_alike [OF "1.prems" n1 [unfolded WRITE_CHUNK_buffer] n2 [unfolded WRITE_CHUNK_buffer]]
  note d = body_loop.simps [of E f k s1, unfolded n1] body_loop.simps [of E f k s2, unfolded n2]
  show ?case
  proof (cases r1)
    case (Inl e)
    then show ?thesis using n(1,3) by (simp add: d)
  next
    case (Inr y)
    show ?thesis
    proof (cases y)
      case (Got l)
      have s: "sim E t1 t2" using n(4) Inr Got by simp
      have r2: "r2 = Inr (Got l)" using n(1) Inr Got by simp
      obtain e f' where p: "push l f = (e, f')" by (cases "push l f")
      note IH = "1.IH"(1,2) [OF n1 [symmetric] Inr Got p [symmetric]]
      show ?thesis
      proof (cases e)
        case (Chunk c)
        obtain q k' where w: "k_write (ops E) c k = (q, k')" by (cases "k_write (ops E) c k")
        have "sim E (emit (WriteCall c b) t1) (emit (WriteCall c b) t2)" for b using s by (rule sim_emit)
        then show ?thesis using IH(2) [OF Chunk w [symmetric]] sim_visible
          by (cases q) (auto simp: d Inr Got r2 p Chunk w body_goes_on_def)
      qed (use IH(1) s sim_visible [OF s] in \<open>auto simp: d Inr Got r2 p\<close>)
    qed (use n(1-3) Inr in \<open>auto simp: d body_goes_on_def\<close>)
  qed
qed

end
