(* ===== verification/Segmented_Session.thy ===== *)
theory Segmented_Session
  imports Segmentation
begin

text \<open>
  The operations of a session on the same bytes cut in two ways: each takes states that are related by \<^const>\<open>sim\<close> to
  outcomes that are \<^const>\<open>alike\<close>, from the replies up to the whole run.
\<close>

section \<open>Messages\<close>

lemma alike_refuse_data:
  assumes "sim E s1 s2"
  shows "alike goes_on E (refuse_data E code why s1) (refuse_data E code why s2)"
  using alike_send [OF assms, of "Reply_new code why"]
  by (cases rule: alike_cases) (simp_all add: refuse_data_def)

lemma alike_conclude:
  assumes "sim E s1 s2"
  shows "alike goes_on E (conclude E outcome s1) (conclude E outcome s2)"
proof -
  have s: "sim E (s1\<lparr>st := WantMail\<rparr>) (s2\<lparr>st := WantMail\<rparr>)" by (rule sim_updates(1) [OF assms])
  show ?thesis
  proof (cases outcome)
    case (Inl v)
    then show ?thesis using alike_refuse_data [OF s] sim_visible [OF s] by (cases v) (simp_all add: conclude_def)
  next
    case (Inr m)
    show ?thesis using alike_send [OF s, of "Reply_new 250 (''OK: '' @ m)"]
      by (cases rule: alike_cases) (simp_all add: conclude_def Inr)
  qed
qed

lemma alike_close: "visible s1 = visible s2 \<Longrightarrow> alike goes_on E (ok Close s1) (ok Close s2)"
  by simp

text \<open>Behind a part of a message that was skipped.\<close>

lemma alike_discard_then:
  assumes "alike goes_on E (Some (discard_to_terminator E b1 s1)) (Some (discard_to_terminator E b2 s2))"
    and "\<And>f t1 t2. f \<noteq> Close \<Longrightarrow> sim E t1 t2 \<Longrightarrow> alike goes_on E (k f t1) (k f t2)"
    and "\<And>t1 t2. visible t1 = visible t2 \<Longrightarrow> alike goes_on E (k Close t1) (k Close t2)"
  shows "alike goes_on E
    (case discard_to_terminator E b1 s1 of (Inl e, t) \<Rightarrow> Some (Inl e, t) | (Inr f, t) \<Rightarrow> k f t)
    (case discard_to_terminator E b2 s2 of (Inl e, t) \<Rightarrow> Some (Inl e, t) | (Inr f, t) \<Rightarrow> k f t)"
  using assms(1)
proof (cases rule: alike_cases)
  case (result f t1 t2)
  then show ?thesis using assms(2,3) by (cases "f = Close") simp_all
qed simp_all

lemma alike_refuse_large_headers:
  assumes "alike goes_on E (Some (discard_to_terminator E b1 s1)) (Some (discard_to_terminator E b2 s2))"
  shows "alike goes_on E (refuse_large_headers E b1 s1) (refuse_large_headers E b2 s2)"
  unfolding refuse_large_headers_def
  by (rule alike_discard_then [OF assms]) (auto intro!: alike_refuse_data sim_start sim_updates)

lemma alike_mirror:
  assumes "sim E s1 s2"
  shows "alike goes_on E (mirror E v b s1) (mirror E v b s2)"
proof (cases v)
  case (Replied code why)
  have "alike goes_on E (refuse_data E code why (s1\<lparr>st := WantMail\<rparr>)) (refuse_data E code why (s2\<lparr>st := WantMail\<rparr>))"
    by (intro alike_refuse_data sim_updates assms)
  then show ?thesis unfolding mirror_def Replied upstream_verdict.case
  proof (rule alike_then)
    fix f t1 t2 assume f: "f \<noteq> Close" and t: "sim E t1 t2"
    have "alike goes_on E
      (case discard_to_terminator E b t1 of (Inl e, t) \<Rightarrow> Some (Inl e, t) | (Inr g, t) \<Rightarrow> ok g (start_transaction E t))
      (case discard_to_terminator E b t2 of (Inl e, t) \<Rightarrow> Some (Inl e, t) | (Inr g, t) \<Rightarrow> ok g (start_transaction E t))"
      using discard_alike [OF t]
      by (rule alike_discard_then) (rule alike_ok [OF sim_start] alike_close [OF visible_start]; assumption)+
    then show "alike goes_on E
      (if f = Close then ok Close t1 else case discard_to_terminator E b t1 of (Inl e, t) \<Rightarrow> Some (Inl e, t) | (Inr g, t) \<Rightarrow> ok g (start_transaction E t))
      (if f = Close then ok Close t2 else case discard_to_terminator E b t2 of (Inl e, t) \<Rightarrow> Some (Inl e, t) | (Inr g, t) \<Rightarrow> ok g (start_transaction E t))"
      using f by simp
  qed simp
next
  case Dropped
  then show ?thesis using alike_conclude [OF assms] by (simp add: mirror_def)
qed

lemma alike_drop_sink:
  assumes "alike P E m1 m2"
  shows "alike P E (drop_sink m1) (drop_sink m2)"
  using assms
proof (cases rule: alike_cases)
  case (error e s1 s2)
  then show ?thesis using visible_emit [OF error(3)] by (simp add: drop_sink_def)
next
  case (result a s1 s2)
  then show ?thesis using visible_emit [OF result(3)] sim_emit [OF result(4)] by (simp add: drop_sink_def)
qed (simp add: drop_sink_def)

lemma alike_finish_sink: "sim E s1 s2 \<Longrightarrow> alike goes_on E (finish_sink E k s1) (finish_sink E k s2)"
  unfolding finish_sink_def Let_def by (intro alike_conclude sim_emit)

lemma alike_finish_body: "sim E s1 s2 \<Longrightarrow> alike goes_on E (finish_body E f k s1) (finish_body E f k s2)"
  unfolding finish_body_def Let_def
  by (auto intro!: alike_finish_sink alike_drop_sink alike_conclude sim_emit split: prod.split sum.split)

lemma alike_read_body:
  assumes "sim E s1 s2"
  shows "alike goes_on E (read_body E k s1) (read_body E k s2)"
  using body_loop_alike [OF assms, of framer_new k]
proof (cases rule: alike_cases)
  case (error e t1 t2)
  then show ?thesis using alike_drop_sink [of goes_on E "Some (Inl e, t1)" "Some (Inl e, t2)"] by (simp add: read_body_def)
next
  case (result a t1 t2)
  show ?thesis
  proof (cases a)
    case BodyEof
    then show ?thesis using result alike_drop_sink [of goes_on E "ok Close t1" "ok Close t2"] by (simp add: read_body_def)
  qed (use result in \<open>auto simp: read_body_def body_goes_on_def intro!: alike_drop_sink alike_mirror alike_finish_body\<close>)
qed simp

lemma alike_open_message:
  assumes "sim E s1 s2"
  shows "alike goes_on E (open_message E hs body_follows s1) (open_message E hs body_follows s2)"
proof (cases "h_open_body (ops E) hs (handler s1)")
  case None
  then show ?thesis by (simp add: open_message_def sim_fields(3) [OF assms])
next
  case (Some p)
  then obtain r h where p: "h_open_body (ops E) hs (handler s1) = Some (r, h)" by (cases p) auto
  have s: "sim E (emit (OpenCall hs b) (s1\<lparr>handler := h\<rparr>)) (emit (OpenCall hs b) (s2\<lparr>handler := h\<rparr>))" for b
    by (intro sim_emit sim_updates assms)
  have ref: "alike goes_on E (refuse_data E c w (t1\<lparr>st := WantMail\<rparr>)) (refuse_data E c w (t2\<lparr>st := WantMail\<rparr>))"
    if "sim E t1 t2" for c w t1 t2 by (intro alike_refuse_data sim_updates that)
  show ?thesis
  proof (cases r)
    case (Inl rej)
    then show ?thesis using ref [OF s] alike_discard_then [OF discard_alike [OF s], of
        "\<lambda>f t. if f = Close then ok Close t else refuse_data E (rej_code rej) (rej_text rej) (t\<lparr>st := WantMail\<rparr>)"] ref
      by (simp add: open_message_def Let_def sim_fields(3) [OF assms] p)
  next
    case (Inr k)
    then show ?thesis using alike_finish_sink [OF s] alike_read_body [OF s]
      by (simp add: open_message_def Let_def sim_fields(3) [OF assms] p)
  qed
qed

lemma alike_headers:
  assumes "headers_alike E x y"
  shows "alike goes_on E
    (case x of
       (Inl e, s2) \<Rightarrow> Some (Inl e, s2)
     | (Inr HeaderEof, s2) \<Rightarrow> ok Close s2
     | (Inr CapInLine, s2) \<Rightarrow> refuse_large_headers E False s2
     | (Inr CapAtLine, s2) \<Rightarrow> refuse_large_headers E True s2
     | (Inr (Block hs body_follows), s2) \<Rightarrow> open_message E hs body_follows s2)
    (case y of
       (Inl e, s2) \<Rightarrow> Some (Inl e, s2)
     | (Inr HeaderEof, s2) \<Rightarrow> ok Close s2
     | (Inr CapInLine, s2) \<Rightarrow> refuse_large_headers E False s2
     | (Inr CapAtLine, s2) \<Rightarrow> refuse_large_headers E True s2
     | (Inr (Block hs body_follows), s2) \<Rightarrow> open_message E hs body_follows s2)"
proof -
  obtain r1 t1 r2 t2 where xy: "x = (r1, t1)" "y = (r2, t2)" by (cases x; cases y)
  have v: "visible t1 = visible t2" using assms by (simp add: headers_alike_def xy)
  from assms consider (same) "r1 = r2"
      "case r1 of Inr (Block _ _) \<Rightarrow> sim E t1 t2 | Inr e \<Rightarrow> e = HeaderEof | Inl _ \<Rightarrow> True"
    | (cap) b1 b2 where "r1 = Inr (at_cap b1)" "r2 = Inr (at_cap b2)"
      "alike goes_on E (Some (discard_to_terminator E b1 t1)) (Some (discard_to_terminator E b2 t2))"
    unfolding headers_alike_def xy fst_conv snd_conv by blast
  then show ?thesis
  proof cases
    case same
    show ?thesis
    proof (cases r1)
      case (Inr e)
      then show ?thesis using same v alike_open_message [of E t1 t2] by (cases e) (simp_all add: xy)
    qed (use same v in \<open>simp add: xy\<close>)
  next
    case cap
    then show ?thesis using alike_refuse_large_headers [OF cap(3)] by (cases b1; cases b2) (simp_all add: xy)
  qed
qed

lemma alike_read_message:
  assumes "sim E s1 s2"
  shows "alike goes_on E (read_message E s1) (read_message E s2)"
  unfolding read_message_def
proof (rule alike_send_then [OF assms])
  fix t1 t2 :: "'a session"
  assume t: "sim E t1 t2"
  let ?c = "collector_new (cfg_max_header_size (cfg E))"
  have "headers_alike E (header_loop E ?c t1) (header_loop E ?c t2)"
    by (rule header_loop_alike [OF t]) (simp_all add: collector_new_def)
  then show "alike goes_on E
    (case header_loop E ?c t1 of
       (Inl e, s2) \<Rightarrow> Some (Inl e, s2)
     | (Inr HeaderEof, s2) \<Rightarrow> ok Close s2
     | (Inr CapInLine, s2) \<Rightarrow> refuse_large_headers E False s2
     | (Inr CapAtLine, s2) \<Rightarrow> refuse_large_headers E True s2
     | (Inr (Block hs body_follows), s2) \<Rightarrow> open_message E hs body_follows s2)
    (case header_loop E ?c t2 of
       (Inl e, s2) \<Rightarrow> Some (Inl e, s2)
     | (Inr HeaderEof, s2) \<Rightarrow> ok Close s2
     | (Inr CapInLine, s2) \<Rightarrow> refuse_large_headers E False s2
     | (Inr CapAtLine, s2) \<Rightarrow> refuse_large_headers E True s2
     | (Inr (Block hs body_follows), s2) \<Rightarrow> open_message E hs body_follows s2)"
    by (rule alike_headers)
qed


section \<open>Commands\<close>

lemma alike_auth_continuation:
  assumes "sim E s1 s2"
  shows "alike (\<lambda>a. a \<noteq> AuthClosed) E (auth_continuation E s1) (auth_continuation E s2)"
proof -
  obtain r1 t1 where n1: "next_line E MAX_COMMAND_BUFFER s1 = (r1, t1)" by (cases "next_line E MAX_COMMAND_BUFFER s1")
  obtain r2 t2 where n2: "next_line E MAX_COMMAND_BUFFER s2 = (r2, t2)" by (cases "next_line E MAX_COMMAND_BUFFER s2")
  note n = next_line_alike [OF assms n1 n2]
  show ?thesis
  proof (cases r1)
    case (Inl e)
    then show ?thesis using n(1,3) by (simp add: auth_continuation_def n1 n2)
  next
    case (Inr y)
    show ?thesis
    proof (cases y)
      case (Got l)
      have r2: "r2 = Inr (Got l)" using n(1) Inr Got by simp
      let ?log = "\<lambda>t. log_lines E (\<lambda>cred. log_received_auth_secret cred (continuation_text (from_utf8_lossy l))) t"
      have s: "sim E (?log t1) (?log t2)" using n(4) Inr Got by (intro sim_log) simp
      have "alike P E (and_then (send E q (?log t1)) (\<lambda>_. ok Confused)) (and_then (send E q (?log t2)) (\<lambda>_. ok Confused))" for P q
        by (rule alike_send_then [OF s]) (rule alike_ok)
      then show ?thesis
        by (simp add: auth_continuation_def n1 n2 Inr Got r2 Let_def alike_ok [OF s] del: alike_simps)
    qed (use n(1-3) Inr in \<open>auto simp: auth_continuation_def n1 n2\<close>)
  qed
qed

lemma alike_finish_auth:
  assumes "sim E s1 s2"
  shows "alike P E (finish_auth E creds s1) (finish_auth E creds s2)"
proof -
  have yes: "alike P E (and_then (send E q t1) (\<lambda>_ t. ok Continue (t\<lparr>st := WantMail\<rparr>)))
      (and_then (send E q t2) (\<lambda>_ t. ok Continue (t\<lparr>st := WantMail\<rparr>)))" if "sim E t1 t2" for q t1 t2
    by (rule alike_send_then [OF that]) (intro alike_ok sim_updates)
  have no: "alike P E (send_continue E q t1) (send_continue E q t2)" if "sim E t1 t2" for q t1 t2
    by (rule alike_send_continue [OF that])
  show ?thesis
  proof (cases creds)
    case None
    then show ?thesis using no [OF assms] by (simp add: finish_auth_def)
  next
    case (Some c)
    obtain r h where a: "h_auth (ops E) (authzid c) (authcid c) (password c) (handler s1) = (r, h)"
      by (cases "h_auth (ops E) (authzid c) (authcid c) (password c) (handler s1)")
    have s: "sim E (emit (AuthCall b) (s1\<lparr>handler := h\<rparr>)) (emit (AuthCall b) (s2\<lparr>handler := h\<rparr>))" for b
      by (intro sim_emit sim_updates assms)
    show ?thesis using yes [OF s] no [OF s]
      by (cases r) (simp_all add: finish_auth_def Some sim_fields(3) [OF assms] a)
  qed
qed

lemma alike_with_token:
  assumes "sim E s1 s2" "\<And>t u1 u2. sim E u1 u2 \<Longrightarrow> alike goes_on E (k t u1) (k t u2)"
  shows "alike goes_on E (with_token (auth_continuation E s1) k) (with_token (auth_continuation E s2) k)"
  unfolding with_token_def
proof (rule alike_then [OF alike_auth_continuation [OF assms(1)]])
  show "alike goes_on E ((case a of Token t \<Rightarrow> k t | Confused \<Rightarrow> ok Continue | AuthClosed \<Rightarrow> ok Close) u1)
      ((case a of Token t \<Rightarrow> k t | Confused \<Rightarrow> ok Continue | AuthClosed \<Rightarrow> ok Close) u2)"
    if "a \<noteq> AuthClosed" "sim E u1 u2" for a u1 u2
    using that assms(2) alike_ok [OF that(2)] by (cases a) (simp_all del: alike_simps)
  show "alike goes_on E ((case a of Token t \<Rightarrow> k t | Confused \<Rightarrow> ok Continue | AuthClosed \<Rightarrow> ok Close) u1)
      ((case a of Token t \<Rightarrow> k t | Confused \<Rightarrow> ok Continue | AuthClosed \<Rightarrow> ok Close) u2)"
    if "\<not> a \<noteq> AuthClosed" "visible u1 = visible u2" for a u1 u2
    using that by simp
qed

lemma alike_want_mail:
  assumes "sim E s1 s2"
  shows "alike goes_on E (want_mail E command s1) (want_mail E command s2)"
proof (cases command)
  case (Mail a ps)
  have s: "sim E (start_transaction E s1) (start_transaction E s2)" by (rule sim_start [OF assms])
  obtain r h where m: "h_mail (ops E) a ps (handler (start_transaction E s1)) = (r, h)"
    by (cases "h_mail (ops E) a ps (handler (start_transaction E s1))")
  have s2: "sim E (emit (MailCall a b) ((start_transaction E s1)\<lparr>handler := h\<rparr>))
      (emit (MailCall a b) ((start_transaction E s2)\<lparr>handler := h\<rparr>))" for b
    by (intro sim_emit sim_updates s)
  have ok: "alike goes_on E (ok Continue (t1\<lparr>st := WantRcpt\<rparr>)) (ok Continue (t2\<lparr>st := WantRcpt\<rparr>))" if "sim E t1 t2" for t1 t2
    by (intro alike_ok sim_updates that)
  show ?thesis unfolding want_mail_def Mail command.case Let_def sim_fields(3) [OF s] m prod.case
    by (auto intro!: alike_send_continue alike_send_then assms s2 ok simp del: alike_simps split: sum.split)
qed (use alike_bad_sequence [OF assms] in \<open>simp_all add: want_mail_def\<close>)

lemma alike_want_auth:
  assumes "sim E s1 s2"
  shows "alike goes_on E (want_auth E command s1) (want_auth E command s2)"
proof -
  have "alike goes_on E
      (if require_auth (cfg E) then send_continue E q s1 else want_mail E command (s1\<lparr>st := WantMail\<rparr>))
      (if require_auth (cfg E) then send_continue E q s2 else want_mail E command (s2\<lparr>st := WantMail\<rparr>))" for q
    using alike_send_continue [OF assms] alike_want_mail [OF sim_updates(1) [OF assms]] by simp
  then show ?thesis unfolding want_auth_def
    by (auto intro!: alike_send_then alike_with_token alike_finish_auth alike_send_continue assms
        simp del: alike_simps split: command.split option.split)
qed

lemma same_tls_cases:
  assumes "same_tls d t1 t2"
  obtains (good) e1 e2 where "t1 = HandshakeOk e1" "t2 = HandshakeOk e2" "same_reads d e1 e2"
  | (bad) "t1 = HandshakeFails" "t2 = HandshakeFails" | (stalls) "t1 = HandshakeStalls" "t2 = HandshakeStalls"
  using assms by (cases t1; cases t2) (auto simp: same_tls_def)

lemma sim_restart:
  assumes "sim E s1 s2" "same_reads (patience E) e1 e2"
  shows "sim E (s1\<lparr>buf := [], inp := e1, after_tls := HandshakeFails\<rparr>) (s2\<lparr>buf := [], inp := e2, after_tls := HandshakeFails\<rparr>)"
    "sim E (s1\<lparr>buf := [], after_tls := HandshakeFails, inp := e1\<rparr>) (s2\<lparr>buf := [], after_tls := HandshakeFails, inp := e2\<rparr>)"
  using assms(2) sim_visible [OF assms(1)] by (auto simp: sim_def same_reads_def ahead_def same_tls_def visible_def)

lemma same_reads_Nil: "same_reads d [] []"
  by (simp add: same_reads_def punctual_def arrived_def)

lemma alike_want_starttls:
  assumes "sim E s1 s2"
  shows "alike goes_on E (want_starttls E command s1) (want_starttls E command s2)"
proof -
  have "alike goes_on E
      (let t = t1\<lparr>buf := [], inp := [], after_tls := HandshakeFails\<rparr>
       in case after_tls t1 of
            HandshakeOk plaintext \<Rightarrow> ok Continue (emit TlsUp (t\<lparr>inp := plaintext, tls_active := True, st := WantAuth\<rparr>))
          | HandshakeFails \<Rightarrow> ok FlowTlsFailed t | HandshakeStalls \<Rightarrow> ok Stuck t)
      (let t = t2\<lparr>buf := [], inp := [], after_tls := HandshakeFails\<rparr>
       in case after_tls t2 of
            HandshakeOk plaintext \<Rightarrow> ok Continue (emit TlsUp (t\<lparr>inp := plaintext, tls_active := True, st := WantAuth\<rparr>))
          | HandshakeFails \<Rightarrow> ok FlowTlsFailed t | HandshakeStalls \<Rightarrow> ok Stuck t)" if t: "sim E t1 t2" for t1 t2
  proof -
    have "same_tls (patience E) (after_tls t1) (after_tls t2)" using t by (simp add: sim_def)
    then show ?thesis
    proof (cases rule: same_tls_cases)
      case (good e1 e2)
      have "sim E (t1\<lparr>buf := [], after_tls := HandshakeFails, inp := e1\<rparr>) (t2\<lparr>buf := [], after_tls := HandshakeFails, inp := e2\<rparr>)"
        by (rule sim_restart(2) [OF t good(3)])
      then show ?thesis unfolding good Let_def tls_outcome.case
        by (simp del: alike_simps) (intro alike_ok sim_emit sim_updates)
    qed (use alike_ok [OF sim_restart(1) [OF t same_reads_Nil]] in \<open>simp_all add: Let_def del: alike_simps\<close>)
  qed
  then show ?thesis unfolding want_starttls_def
    using alike_send_continue [OF assms] alike_want_auth [OF sim_updates(1) [OF assms]]
    by (auto intro!: alike_send_then assms simp del: alike_simps)
qed

lemma alike_want_rcpt:
  assumes "sim E s1 s2"
  shows "alike goes_on E (want_rcpt E command s1) (want_rcpt E command s2)"
proof (cases command)
  case (Rcpt a ps)
  obtain r h where m: "h_rcpt (ops E) a ps (handler s1) = (r, h)" by (cases "h_rcpt (ops E) a ps (handler s1)")
  have s: "sim E (emit (RcptCall a b) (s1\<lparr>handler := h, recipients := n\<rparr>)) (emit (RcptCall a b) (s2\<lparr>handler := h, recipients := n\<rparr>))"
    "sim E (emit (RcptCall a b) (s1\<lparr>handler := h\<rparr>)) (emit (RcptCall a b) (s2\<lparr>handler := h\<rparr>))" for b n
    by (intro sim_emit sim_updates assms)+
  have ok: "alike goes_on E (ok Continue (t1\<lparr>st := WantData\<rparr>)) (ok Continue (t2\<lparr>st := WantData\<rparr>))" if "sim E t1 t2" for t1 t2
    by (intro alike_ok sim_updates that)
  show ?thesis unfolding want_rcpt_def Rcpt command.case Let_def sim_fields(3,5) [OF assms] m prod.case
    by (auto intro!: alike_send_continue alike_send_then assms s ok simp: sim_fields(5) [OF assms] simp del: alike_simps
        split: sum.split)
qed (use alike_bad_sequence [OF assms] in \<open>simp_all add: want_rcpt_def\<close>)

lemma alike_want_data:
  assumes "sim E s1 s2"
  shows "alike goes_on E (want_data E command s1) (want_data E command s2)"
  using alike_want_rcpt [OF assms] alike_read_message [OF assms] alike_bad_sequence [OF assms]
  by (cases command) (simp_all add: want_data_def)

lemma alike_greeting:
  assumes "sim E s1 s2"
  shows "alike P E (greeting E ehlo s1) (greeting E ehlo s2)"
proof -
  obtain ls t1 where g1: "greeting_lines E ehlo s1 = (ls, t1)" by (cases "greeting_lines E ehlo s1")
  have "\<exists>t2. greeting_lines E ehlo s2 = (ls, t2) \<and> sim E t1 t2"
  proof (cases ehlo)
    case True
    let ?h = "snd (h_size_limit (ops E) (snd (h_dsn_available (ops E) (handler s1))))"
    have "t1 = s1\<lparr>handler := ?h\<rparr>" "greeting_lines E ehlo s2 = (ls, s2\<lparr>handler := ?h\<rparr>)"
      using g1 True by (auto simp: greeting_lines_def Let_def sim_fields(2,3) [OF assms] split: prod.splits)
    then show ?thesis using sim_updates(3) [OF assms] by simp
  next
    case False
    then show ?thesis using g1 assms by (auto simp: greeting_lines_def Let_def sim_fields(2) [OF assms])
  qed
  then obtain t2 where g2: "greeting_lines E ehlo s2 = (ls, t2)" and t: "sim E t1 t2" by blast
  define u1 where "u1 = (if WantMail \<le> st t1 then start_transaction E t1 else t1)"
  define u2 where "u2 = (if WantMail \<le> st t1 then start_transaction E t2 else t2)"
  have u: "sim E u1 u2" using t sim_start [where F = E, OF t] by (simp add: u1_def u2_def)
  have "alike always E (greeting E ehlo s1) (greeting E ehlo s2)"
    unfolding greeting_def g1 g2 prod.case Let_def sim_fields(1) [OF t] u1_def [symmetric] u2_def [symmetric]
      sim_fields(1,2) [OF u]
    by (intro alike_send sim_updates u)
  then show ?thesis by (cases rule: alike_cases) simp_all
qed

lemma alike_dispatch:
  assumes "sim E s1 s2"
  shows "alike goes_on E (dispatch E command s1) (dispatch E command s2)"
proof -
  have g: "alike goes_on E (and_then (greeting E b s1) (\<lambda>_. ok Continue)) (and_then (greeting E b s2) (\<lambda>_. ok Continue))" for b
    by (rule alike_then [OF alike_greeting [OF assms, of always]]) (simp_all add: alike_ok del: alike_simps)
  have q: "alike goes_on E (and_then (send E r s1) (\<lambda>_ t. ok FlowQuit (emit Shutdown t)))
      (and_then (send E r s2) (\<lambda>_ t. ok FlowQuit (emit Shutdown t)))" for r
    by (rule alike_send_then [OF assms]) (intro alike_ok sim_emit)
  have t: "sim E (start_transaction E s1) (start_transaction E s2)" by (rule sim_start [OF assms])
  have rset: "alike goes_on E
      (send_continue E r (if WantMail < st (start_transaction E s1) then (start_transaction E s1)\<lparr>st := WantMail\<rparr> else start_transaction E s1))
      (send_continue E r (if WantMail < st (start_transaction E s2) then (start_transaction E s2)\<lparr>st := WantMail\<rparr> else start_transaction E s2))" for r
    unfolding sim_fields(1) [OF t] using sim_updates(1) [OF t] t by (intro alike_send_continue) simp
  note ops = alike_bad_sequence [OF assms] alike_want_starttls [OF assms] alike_want_auth [OF assms]
    alike_want_mail [OF assms] alike_want_rcpt [OF assms] alike_want_data [OF assms]
  have other: "alike goes_on E
      (case st s1 of WantGreeting \<Rightarrow> bad_sequence E s1 | WantStartTls \<Rightarrow> want_starttls E c s1 | WantAuth \<Rightarrow> want_auth E c s1
       | WantMail \<Rightarrow> want_mail E c s1 | WantRcpt \<Rightarrow> want_rcpt E c s1 | WantData \<Rightarrow> want_data E c s1)
      (case st s2 of WantGreeting \<Rightarrow> bad_sequence E s2 | WantStartTls \<Rightarrow> want_starttls E c s2 | WantAuth \<Rightarrow> want_auth E c s2
       | WantMail \<Rightarrow> want_mail E c s2 | WantRcpt \<Rightarrow> want_rcpt E c s2 | WantData \<Rightarrow> want_data E c s2)" for c
    unfolding sim_fields(1) [OF assms] by (simp add: ops split: state.split)
  show ?thesis
    by (cases command) (use g q rset other alike_send_continue [OF assms] in \<open>simp_all add: dispatch_def Let_def\<close>)
qed


section \<open>The command loop\<close>

lemma alike_serve_line:
  assumes "sim E s1 s2"
  shows "alike always E (serve_line E l s1) (serve_line E l s2)"
proof -
  let ?log = "\<lambda>s. log_lines E (\<lambda>cred. log_received cred (trim_line_end (from_utf8_lossy l))) s"
  have s: "sim E (?log s1) (?log s2)" by (rule sim_log [OF assms])
  show ?thesis
  proof (cases "parse_command l")
    case (Some p)
    show ?thesis
    proof (cases p)
      case (Inl e)
      show ?thesis using alike_send [OF s, of "Reply_new (err_code e) (err_text e)"]
        by (cases rule: alike_cases) (simp_all add: serve_line_def Some Inl)
    next
      case (Inr c)
      show ?thesis using alike_dispatch [OF s, of c]
      proof (cases rule: alike_cases)
        case (result f t1 t2)
        then show ?thesis by (cases f) (simp_all add: serve_line_def Some Inr)
      qed (simp_all add: serve_line_def Some Inr)
    qed
  qed (simp add: serve_line_def)
qed

lemma alike_last_words: "alike P E m1 m2 \<Longrightarrow> alike always E (last_words r m1) (last_words r m2)"
  by (erule alike_cases) (simp_all add: last_words_def)

lemma next_command_line_alike:
  assumes "sim E s1 s2" "next_command_line E s1 = (r1, t1)" "next_command_line E s2 = (r2, t2)"
  shows "r1 = r2 \<and> r1 \<noteq> Inr (Some TooLong) \<and> visible t1 = visible t2 \<and> (r1 \<in> {Inr None} \<union> range (Inr \<circ> Some \<circ> Got) \<longrightarrow> sim E t1 t2)"
proof -
  let ?s1 = "s1\<lparr>drain_script := tl (drain_script s1)\<rparr>" and ?s2 = "s2\<lparr>drain_script := tl (drain_script s1)\<rparr>"
  have s: "sim E ?s1 ?s2" by (rule sim_updates(9) [OF assms(1)])
  obtain x1 u1 where n1: "next_line E MAX_COMMAND_BUFFER ?s1 = (x1, u1)" by (cases "next_line E MAX_COMMAND_BUFFER ?s1")
  obtain x2 u2 where n2: "next_line E MAX_COMMAND_BUFFER ?s2 = (x2, u2)" by (cases "next_line E MAX_COMMAND_BUFFER ?s2")
  note n = next_line_alike [OF s n1 n2]
  show ?thesis
  proof (cases "has_drain (cfg E) \<and> drain_script s1 \<noteq> [] \<and> hd (drain_script s1)")
    case True
    then show ?thesis using assms(2,3) s sim_visible [OF s]
      by (auto simp: next_command_line_def sim_fields(9) [OF assms(1)])
  next
    case False
    note d = next_command_line_def [of E s1] next_command_line_def [of E s2, unfolded sim_fields(9) [OF assms(1)]]
    show ?thesis using assms(2,3) n by (cases x1) (auto simp: d False n1 n2)
  qed
qed

lemma alike_serve_turn:
  assumes "sim E s1 s2"
  shows "alike always E (serve_turn E s1) (serve_turn E s2)"
proof -
  obtain r1 t1 where n1: "next_command_line E s1 = (r1, t1)" by (cases "next_command_line E s1")
  obtain r2 t2 where n2: "next_command_line E s2 = (r2, t2)" by (cases "next_command_line E s2")
  note n = next_command_line_alike [OF assms n1 n2]
  consider (error) e where "r1 = Inl e" | (drain) "r1 = Inr None" | (eof) "r1 = Inr (Some Eof)" | (got) l where "r1 = Inr (Some (Got l))"
    using n by (cases r1; cases "projr r1"; cases "the (projr r1)") auto
  then show ?thesis
  proof cases
    case drain
    then have s: "sim E t1 t2" and r2: "r2 = Inr None" using n by auto
    show ?thesis using alike_last_words [OF alike_drained [OF s]] by (simp add: serve_turn_def n1 n2 drain r2)
  next
    case got
    then have s: "sim E t1 t2" and r2: "r2 = Inr (Some (Got l))" using n by auto
    show ?thesis using alike_serve_line [OF sim_updates(4) [OF s]] by (simp add: serve_turn_def n1 n2 got r2)
  qed (use n in \<open>auto simp: serve_turn_def n1 n2\<close>)
qed

text \<open>More fuel than it takes changes nothing.\<close>

lemma serve_loop_fuel: "serve_loop n E s = Some (Some r, s') \<Longrightarrow> n \<le> m \<Longrightarrow> serve_loop m E s = Some (Some r, s')"
proof (induction n arbitrary: m s)
  case (Suc n)
  then obtain k where m: "m = Suc k" "n \<le> k" by (cases m) auto
  then show ?case using Suc by (auto split: option.splits sum.splits)
qed simp

lemma serve_loop_alike:
  "sim E s1 s2 \<Longrightarrow> serve_loop n E s1 = Some (Some r1, t1) \<Longrightarrow> serve_loop n E s2 = Some (Some r2, t2) \<Longrightarrow>
   r1 = r2 \<and> visible t1 = visible t2"
proof (induction n arbitrary: s1 s2)
  case (Suc n)
  from alike_serve_turn [OF Suc.prems(1)] show ?case
  proof (cases rule: alike_cases)
    case (result a u1 u2)
    then show ?thesis using Suc by simp
  qed (use Suc.prems in auto)
qed simp

lemma run_alike:
  assumes "same_reads (patience E) e1 e2" "same_tls (patience E) tls1 tls2"
    and "run E e1 tls1 ws ds h = Some (Some r1, t1)" "run E e2 tls2 ws ds h = Some (Some r2, t2)"
  shows "r1 = r2 \<and> visible t1 = visible t2"
proof -
  let ?s1 = "new_session e1 tls1 ws ds h" and ?s2 = "new_session e2 tls2 ws ds h"
  let ?hello = "Reply_new 220 (service_name (cfg E) @ '' SMTP service ready'')"
  have "sim E ?s1 ?s2" using assms(1,2) by (auto simp: sim_def same_reads_def new_session_def visible_def ahead_def)
  from alike_send [OF this, of ?hello] show ?thesis
  proof (cases rule: alike_cases)
    case (result a u1 u2)
    let ?n = "max (Suc (remaining ?s1)) (Suc (remaining ?s2))"
    have l: "serve_loop (Suc (remaining ?s1)) E u1 = Some (Some r1, t1)" "serve_loop (Suc (remaining ?s2)) E u2 = Some (Some r2, t2)"
      using assms(3,4) result(1,2) by (simp_all add: run_def serve_def Let_def del: serve_loop.simps)
    have "serve_loop ?n E u1 = Some (Some r1, t1)" "serve_loop ?n E u2 = Some (Some r2, t2)"
      using serve_loop_fuel [OF l(1), of ?n] serve_loop_fuel [OF l(2), of ?n] by simp_all
    with result(4) show ?thesis using serve_loop_alike by blast
  qed (use assms(3,4) in \<open>auto simp: run_def serve_def Let_def\<close>)
qed

end
