(* ===== verification/Proxy_Session.thy ===== *)
theory Proxy_Session
  imports Relayed_Message Session_Waits Segmented_Session
begin

text \<open>
  A session with the proxy behind it. The contract of the handler interface is discharged for the proxy's
  own operations, and the lemmas of the locale \<open>session_env\<close> become theorems about the program: for every
  configuration, every client, every behaviour of the API, of the upstream and of the other sessions.
\<close>

context session_env
begin

lemma serve_keeps:
  assumes "hinv h" and s0_def: "s0 = new_session rs tlso ws ds h"
  obtains r s where "serve m E s0 = Some (r, s)" "keeps None (remaining s0) s" "remaining s0 < m \<Longrightarrow> r \<noteq> None"
proof -
  let ?r = "Reply_new 220 (service_name (cfg E) @ '' SMTP service ready'')"
  have k: "keeps None (remaining s0) s0" unfolding s0_def using assms(1) by (rule new_session_keeps)
  have "plain_reply ?r" by simp
  then have "safe (keeps None (remaining s0)) (send E ?r s0)" using plain_wire by (intro safe_send_sinv k) simp_all
  then obtain x s1 where x: "send E ?r s0 = Some (x, s1)" "keeps None (remaining s0) s1" unfolding safe_def by blast
  show thesis
  proof (cases x)
    case (Inl e)
    with x that show thesis by (simp add: serve_def)
  next
    case (Inr u)
    have "remaining s1 \<le> remaining s0" using x(2) by (simp add: sinv_def)
    moreover obtain r s' where "serve_loop m E s1 = Some (r, s')" "keeps None (remaining s0) s'"
      "remaining s1 < m \<Longrightarrow> r \<noteq> None" using serve_loop_safe [OF x(2), of m] by blast
    ultimately show thesis using that [of r s'] x Inr by (simp add: serve_def)
  qed
qed

text \<open>From a state of the run on, a position can be marked: what was sent before it does not count.\<close>

lemma keeps_mark:
  assumes "keeps None n s"
  shows "keeps (Some (length (trace s))) n s"
proof -
  have "step_ok c (Some (length tr)) (take i tr) e = step_ok c None (take i tr) e" if "i < length tr" for c tr i e
    using that by (cases e) simp_all
  then show ?thesis using assms by (simp add: sinv_def trace_ok_def)
qed

lemma read_message_accepts_last:
  assumes "keeps None n s" "st s = WantData" "read_message E s = Some (r, s')"
    and "length (trace s) \<le> i" "i < length (trace s')" "trace s' ! i = Sent q" "reply_code q = 250"
  shows "\<exists>m. 0 < i \<and> trace s' ! (i - 1) = Finished (Inr m) \<and> q = Reply_new 250 (''OK: '' @ m)"
proof -
  have "safe (keeps (Some (length (trace s))) n) (read_message E s)"
    by (rule read_message_safe [OF keeps_mark [OF assms(1)] assms(2)])
  then have "trace_ok (cfg E) (Some (length (trace s))) (trace s')" using assms(3) by (simp add: sinv_def)
  then have "step_ok (cfg E) (Some (length (trace s))) (take i (trace s')) (Sent q)"
    using assms(5,6) unfolding trace_ok_def by metis
  then obtain m where m: "take i (trace s') \<noteq> []" "last (take i (trace s')) = Finished (Inr m)"
    "q = Reply_new 250 (''OK: '' @ m)" using assms(4,5,7) by auto
  have "0 < i" using m(1) by (cases i) simp_all
  then have "last (take i (trace s')) = trace s' ! (i - 1)"
    using assms(5) last_conv_nth [OF m(1)] by (simp add: nth_take min_def)
  then show ?thesis using m \<open>0 < i\<close> by (intro exI [of _ m] conjI) simp_all
qed

end

interpretation psession: session_env "proxy_env c C d" proxy_inv sink_inv for c C d
  unfolding session_env_def by (simp add: proxy.handler_contract_axioms)

abbreviation proxy_start :: "proxy_config \<Rightarrow> shared_op list \<Rightarrow> world \<Rightarrow> proxy_handler" where
  "proxy_start C xs w \<equiv> create (fold shared_step xs (factory_new C)) w"

lemma proxy_start_inv: "proxy_inv (proxy_start C xs w)"
  by (rule create_inv) (rule factory_inv)

text \<open>
  C7. Every session comes to an end without a panic: whatever the client sends, however it is cut into
  reads, whatever fails, and whatever the API, the upstream and the other sessions do. No slice of a
  string, no reply code and no parser brings a session down. Nor does it wait for ever, silent client or not,
  unless the TLS handshake or a write to the client never completes.
\<close>

theorem session_ends:
  "\<exists>r s. run (proxy_env c C d) reads tlso ws drains (proxy_start C xs w) = Some (Some r, s) \<and>
     (tlso \<noteq> HandshakeStalls \<and> Some Never \<notin> set ws \<longrightarrow> r \<noteq> EndNever)"
proof -
  obtain r s where r: "run (proxy_env c C d) reads tlso ws drains (proxy_start C xs w) = Some (Some r, s)"
    using psession.run_safe [OF proxy_start_inv] by metis
  then show ?thesis using run_waits_end [OF r] by simp
qed

text \<open>A client that connects, fails a write of ours, and then says nothing: its session is over.\<close>

theorem session_ends_witness:
  "\<exists>r s. run (proxy_env sample_server sample_config (\<lambda>_. None)) [Arrives 0 (''EHLO x'' @ CRLF)] HandshakeFails
       [None, Some BrokenPipe] [] (proxy_start sample_config [] sample_world) = Some (Some r, s) \<and> r \<noteq> EndNever"
  using session_ends [of sample_server sample_config "\<lambda>_. None" "[Arrives 0 (''EHLO x'' @ CRLF)]" HandshakeFails
      "[None, Some BrokenPipe]" "[]" "[]" sample_world] by simp

text \<open>
  C8. The order of a session is enforced, on every trace: with \<open>--require_starttls\<close> nothing of a login or a
  transaction reaches the handler before TLS is up; with \<open>--require_auth\<close> no \<open>MAIL\<close> before a login was accepted;
  \<open>RCPT\<close> only after an accepted \<open>MAIL\<close> and within the limit on recipients; a message is only opened with a
  sender and at least one accepted recipient.
\<close>

theorem session_policy:
  "\<exists>r s. run (proxy_env c C d) reads tlso ws drains (proxy_start C xs w) = Some (Some r, s) \<and>
     trace_ok c None (trace s)"
proof -
  obtain r s where "run (proxy_env c C d) reads tlso ws drains (proxy_start C xs w) = Some (Some r, s)"
    "sinv (proxy_env c C d) proxy_inv None (remaining (new_session reads tlso ws drains (proxy_start C xs w))) s"
    using psession.run_safe [OF proxy_start_inv] by metis
  then show ?thesis by (simp add: sinv_def)
qed

text \<open>
  C20. A client cannot make the server hold more than a bounded number of bytes: after any number of turns of
  the session the read buffer is within the largest budget plus one read. The budgets are the command
  buffer, the write chunk and the cap on headers.
\<close>

theorem session_buffer_bounded:
  "\<exists>r s. serve m (proxy_env c C d) (new_session reads tlso ws drains (proxy_start C xs w)) = Some (r, s) \<and>
     length (buf s) \<le> max (max (64 * 1024) (64 * 1024)) (cfg_max_header_size c + 2) + 8192"
proof -
  obtain r s where "serve m (proxy_env c C d) (new_session reads tlso ws drains (proxy_start C xs w)) = Some (r, s)"
    "sinv (proxy_env c C d) proxy_inv None (remaining (new_session reads tlso ws drains (proxy_start C xs w))) s"
    using psession.serve_keeps [OF proxy_start_inv refl] by metis
  then show ?thesis
    by (simp add: sinv_def buffer_bound_def MAX_COMMAND_BUFFER_def WRITE_CHUNK_def TERMINATOR_SLACK_def READ_CHUNK_def)
qed

lemma nth_second_last: "(xs @ [a, b]) ! j = e \<Longrightarrow> j < length xs + 2 \<Longrightarrow> e \<notin> set xs \<Longrightarrow> e \<noteq> a \<Longrightarrow> j = length xs + 1"
  by (auto simp: nth_append less_Suc_eq split: if_splits)

text \<open>The sink accepts what the upstream answered with a 2xx, to the terminator it was sent.\<close>

lemma accepted_reply:
  assumes "sink_finish k = (Inr m, k')"
  shows "\<exists>u1 u2 a. write_chunks (tail_bytes (last_written (sk_upstream k))) (sk_upstream k) = (Inr (), u1) \<and>
    read_reply u1 = (Inr a, u2) \<and> 200 \<le> ur_code a \<and> ur_code a \<le> 299 \<and> ur_text a = m"
proof -
  obtain u where "finish_up (sk_upstream k) = (Inr m, u)" using assms by (auto simp: sink_finish_def split: prod.splits)
  then obtain u1 a u2 where "write_chunks (tail_bytes (last_written (sk_upstream k))) (sk_upstream k) = (Inr (), u1)"
    "read_reply u1 = (Inr a, u2)" "ur_code a div 100 = 2" "ur_text a = m"
    by (auto simp: finish_up_def split: prod.splits sum.splits if_splits)
  moreover have "200 \<le> n \<and> n \<le> 299" if "n div 100 = 2" for n :: nat
    using that div_mult_mod_eq [of n 100] mod_less_divisor [of 100 n] by linarith
  ultimately show ?thesis by blast
qed

text \<open>
  C2. The proxy never takes responsibility for a message on its own: while a message is read, a 250 goes to
  the client only as the very next thing after the upstream accepted the end of that message. That is: the API
  allowed the message and its transaction was opened at the upstream, every write of its body went well, so did
  that of the terminator, and the reply the upstream then gave was a 2xx; its text is the text the client is
  given. A refusal of any kind, an outage, a lost connection or a client that leaves never becomes a 250.
\<close>

theorem accepted_only_after_upstream:
  assumes "sinv (proxy_env c C d) proxy_inv None n s" and "st s = WantData"
    and "read_message (proxy_env c C d) s = Some (r, s')"
    and "length (trace s) \<le> i" and "i < length (trace s')" and "trace s' ! i = Sent q" and "reply_code q = 250"
  shows "\<exists>m hs k h cs k1 u1 u2 a.
     q = Reply_new 250 (''OK: '' @ m) \<and>
     take i (trace s') = trace s @ Sent start_of_data # OpenCall hs True #
       map (\<lambda>c. WriteCall c True) cs @ [Finished (Inr m)] \<and>
     open_body C hs (sync (handler s)) = Some (Inr k, h) \<and> allow (sk_outcome k) \<and>
     writes_ok (proxy_env c C d) cs k = Some k1 \<and>
     write_chunks (tail_bytes (last_written (sk_upstream k1))) (sk_upstream k1) = (Inr (), u1) \<and>
     read_reply u1 = (Inr a, u2) \<and> 200 \<le> ur_code a \<and> ur_code a \<le> 299 \<and> ur_text a = m"
proof -
  obtain m where m: "trace s' ! (i - 1) = Finished (Inr m)" "q = Reply_new 250 (''OK: '' @ m)"
    using psession.read_message_accepts_last [OF assms] by blast
  obtain e es where es: "trace s' = trace s @ e # es" "e = Sent start_of_data \<or> e = SendFailed start_of_data"
    using read_message_grows [OF assms(3)] by blast
  have ne: "i \<noteq> length (trace s)" using es assms(6,7) by (auto simp: start_of_data_def Reply_new_def)
  have "Finished (Inr m) \<in> set (e # es)"
  proof -
    have "(e # es) ! (i - 1 - length (trace s)) = Finished (Inr m)" "i - 1 - length (trace s) < length (e # es)"
      using m(1) ne assms(4,5) es(1) by (simp_all add: nth_append split: if_splits)
    then show ?thesis using nth_mem by metis
  qed
  then have acc: "accepts s s' m" using es(1) unfolding accepts_def by blast
  from read_message_accepts [OF assms(3) acc] obtain ls k h cs k1 k' ev where a:
    "h_open_body (ops (proxy_env c C d)) (concat (map unstuff ls)) (handler s) = Some (Inr k, h)"
    "all_written (proxy_env c C d) cs k k1" "k_finish (ops (proxy_env c C d)) k1 = (Inr m, k')"
    "trace s' = trace s @ Sent start_of_data # OpenCall (concat (map unstuff ls)) True #
      map (\<lambda>c. WriteCall c True) cs @ [Finished (Inr m), ev]" by blast
  let ?pre = "trace s @ Sent start_of_data # OpenCall (concat (map unstuff ls)) True # map (\<lambda>c. WriteCall c True) cs"
  let ?xs = "Sent start_of_data # OpenCall (concat (map unstuff ls)) True # map (\<lambda>c. WriteCall c True) cs"
  have "q \<noteq> start_of_data" using assms(7) by (auto simp: start_of_data_def Reply_new_def)
  then have "Sent q \<notin> set ?xs" "Sent q \<noteq> Finished (Inr m)" by auto
  moreover have "(?xs @ [Finished (Inr m), ev]) ! (i - length (trace s)) = Sent q"
    "i - length (trace s) < length ?xs + 2" using assms(4-6) a(4) by (simp_all add: nth_append)
  ultimately have "i - length (trace s) = length ?xs + 1" by (metis nth_second_last)
  then have i: "i = length ?pre + 1" using assms(4) by simp
  have o: "open_body C (concat (map unstuff ls)) (sync (handler s)) = Some (Inr k, h)" and f: "sink_finish k1 = (Inr m, k')"
    using a(1,3) by (simp_all add: proxy_ops_def)
  from accepted_reply [OF f] obtain u1 u2 r where r:
    "write_chunks (tail_bytes (last_written (sk_upstream k1))) (sk_upstream k1) = (Inr (), u1)"
    "read_reply u1 = (Inr r, u2)" "200 \<le> ur_code r" "ur_code r \<le> 299" "ur_text r = m" by blast
  have "trace s' = (?pre @ [Finished (Inr m)]) @ [ev]" "i = length (?pre @ [Finished (Inr m)])" using a(4) i by simp_all
  then have "take i (trace s') = ?pre @ [Finished (Inr m)]" by (metis append_eq_conv_conj)
  then have tk: "take i (trace s') = trace s @ Sent start_of_data # OpenCall (concat (map unstuff ls)) True #
      map (\<lambda>c. WriteCall c True) cs @ [Finished (Inr m)]" by simp
  have al: "allow (sk_outcome k)" using open_body_sink [OF o] by (simp add: sink_inv_def)
  show ?thesis
    by (intro exI conjI; (rule m(2) | rule tk | rule o | rule al | rule all_written_proxy [OF a(2)] | rule r(1) | rule r(2) |
        rule r(3) | rule r(4) | rule r(5)))
qed

lemma sample_data_session_inv: "sinv sample_env proxy_inv None 1000 sample_data_session"
proof -
  have l: "limiter (factory sample_handler) = limiter_new 0"
    by (simp add: sample_handler_def create_def factory_new_def sample_config_def)
  have t: "trace_ok sample_server None [MailCall ''a@x'' True, RcptCall ''b@y'' True]"
    by (simp add: trace_ok_def sample_server_def secured_def authorised_def tx_def less_Suc_eq)
  show ?thesis
    using t limiter_new_inv [of 0] l
    by (simp add: sinv_def sample_env_def sample_data_session_def new_session_def proxy_inv_def remaining_def unread_def
        events_size_def event_size_def buffer_bound_def sample_server_def secured_def authorised_def tx_def)
qed

theorem accepted_only_after_upstream_witness:
  "\<exists>r s' (k1 :: proxy_sink) u1 u2 a. read_message sample_env sample_data_session = Some (r, s') \<and>
     trace s' ! 6 = Sent (Reply_new 250 ''OK: queued'') \<and>
     write_chunks (tail_bytes (last_written (sk_upstream k1))) (sk_upstream k1) = (Inr (), u1) \<and>
     read_reply u1 = (Inr a, u2) \<and> 200 \<le> ur_code a \<and> ur_code a \<le> 299 \<and> ur_text a = ''queued''"
proof -
  obtain r s' where r: "read_message (proxy_env sample_server sample_config (\<lambda>_. None)) sample_data_session = Some (r, s')"
    and t: "trace s' = trace sample_data_session @ sample_events" by (rule sample_message)
  have i: "length (trace sample_data_session) \<le> 6" "6 < length (trace s')"
    "trace s' ! 6 = Sent (Reply_new 250 ''OK: queued'')" "reply_code (Reply_new 250 ''OK: queued'') = 250"
    "st sample_data_session = WantData"
    unfolding t by (simp_all add: sample_data_session_def sample_events_def Reply_new_def)
  show ?thesis
  proof (insert accepted_only_after_upstream [OF sample_data_session_inv [unfolded sample_env_def] i(5) r i(1-4)],
      elim exE conjE)
    fix m hs h cs and k k1 :: proxy_sink and u1 u2 a
    assume q: "Reply_new 250 ''OK: queued'' = Reply_new 250 (''OK: '' @ m)" and "ur_text a = m"
      and w: "write_chunks (tail_bytes (last_written (sk_upstream k1))) (sk_upstream k1) = (Inr (), u1)"
      and a: "read_reply u1 = (Inr a, u2)" "200 \<le> ur_code a" "ur_code a \<le> 299"
    then have x: "ur_text a = ''queued''" by (simp add: Reply_new_def)
    show ?thesis unfolding sample_env_def
      by (rule exI [of _ r], rule exI [of _ s'], rule exI [of _ k1], rule exI [of _ u1], rule exI [of _ u2],
          rule exI [of _ a]) (intro conjI r i w a x)
  qed
qed


section \<open>The cuts do not matter\<close>

text \<open>
  C9. How the network cuts what a client sends into reads makes no difference. Two clients that send the same bytes,
  before TLS and behind it, in any pieces and with any pauses within the timeouts, and with no line longer
  than the buffer for one, have the same session: it ends in the same way, with the same replies and calls of
  the handler in the same order, the same wire log, and the same state of the application at the end. That
  holds for well-formed and for malformed input, across errors, refusals and header caps.
\<close>

theorem session_segmentation:
  assumes "same_reads (min (idle_timeout c) (greeting_timeout c)) e1 e2"
    and "same_tls (min (idle_timeout c) (greeting_timeout c)) tls1 tls2"
  shows "\<exists>r s1 s2.
    run (proxy_env c C d) e1 tls1 ws drains (proxy_start C xs w) = Some (Some r, s1) \<and>
    run (proxy_env c C d) e2 tls2 ws drains (proxy_start C xs w) = Some (Some r, s2) \<and>
    trace s1 = trace s2 \<and> wire_log s1 = wire_log s2 \<and> handler s1 = handler s2"
proof -
  let ?E = "proxy_env c C d"
  have d: "patience ?E = min (idle_timeout c) (greeting_timeout c)" by (simp add: patience_def)
  obtain r1 s1 where r1: "run ?E e1 tls1 ws drains (proxy_start C xs w) = Some (Some r1, s1)"
    using psession.run_safe [OF proxy_start_inv] by metis
  obtain r2 s2 where r2: "run ?E e2 tls2 ws drains (proxy_start C xs w) = Some (Some r2, s2)"
    using psession.run_safe [OF proxy_start_inv] by metis
  have a: "r1 = r2" "visible s1 = visible s2" using run_alike [of ?E, unfolded d, OF assms r1 r2] by simp_all
  show ?thesis using r1 r2 a(1) visible_fields(3,6,7) [OF a(2)] by (intro exI [of _ r1] exI [of _ s1] exI [of _ s2]) simp
qed

theorem session_segmentation_witness:
  "\<exists>r s1 s2.
    run (proxy_env sample_server sample_config (\<lambda>_. None)) [Arrives 0 (''NOOP'' @ CRLF @ ''QUIT'' @ CRLF)] HandshakeFails
      [] [] (proxy_start sample_config [] sample_world) = Some (Some r, s1) \<and>
    run (proxy_env sample_server sample_config (\<lambda>_. None))
      [Arrives 0 ''NO'', Arrives 5 (''OP'' @ CRLF @ ''QU''), Arrives 0 (''IT'' @ CRLF)] HandshakeFails
      [] [] (proxy_start sample_config [] sample_world) = Some (Some r, s2) \<and>
    trace s1 = trace s2 \<and> wire_log s1 = wire_log s2 \<and> handler s1 = handler s2"
proof -
  have "same_reads (min (idle_timeout sample_server) (greeting_timeout sample_server))
      [Arrives 0 (''NOOP'' @ CRLF @ ''QUIT'' @ CRLF)] [Arrives 0 ''NO'', Arrives 5 (''OP'' @ CRLF @ ''QU''), Arrives 0 (''IT'' @ CRLF)]"
    by (simp add: same_reads_def arrived_def tail_of_def punctual_def data_event_def arrival_def in_time_def
        MAX_COMMAND_BUFFER_def sample_server_def)
  moreover have "same_tls (min (idle_timeout sample_server) (greeting_timeout sample_server)) HandshakeFails HandshakeFails"
    by (simp add: same_tls_def)
  ultimately show ?thesis by (rule session_segmentation)
qed


section \<open>Waits without a limit\<close>

lemma first_write_untimed:
  "\<exists>s. run (proxy_env c C d) reads tlso (Some Never # ws) drains h = Some (Some EndNever, s)"
proof -
  let ?r = "Reply_new 220 (service_name c @ '' SMTP service ready'')"
  have "plain_reply ?r" by simp
  then have "wire ?r \<noteq> None" by (rule plain_wire)
  then show ?thesis
    by (auto simp: run_def serve_def send_def new_session_def Let_def log_lines_def io_failure_def split: option.split)
qed

definition stalling_server :: server_config where
  "stalling_server = sample_server\<lparr>require_starttls := True, tls_offered := True\<rparr>"

text \<open>
  So the two waits of a session that no timeout ends are real. A write that does not complete, for the client does not
  read, keeps a session for ever under every configuration. And so does a client that asks for STARTTLS and then
  never completes the handshake, here with an idle and a greeting timeout of one second.
\<close>

lemma handshake_untimed:
  "map_option fst
     (run (proxy_env stalling_server sample_config (\<lambda>_. None))
        [Arrives 0 (''EHLO x'' @ CRLF), Arrives 0 (''STARTTLS'' @ CRLF)] HandshakeStalls [] [] sample_handler) =
     Some (Some EndNever)"
  by code_simp

end
