(* ===== verification/Shared_State.thy ===== *)
theory Shared_State
  imports Proxy_Session
begin

text \<open>
  What a session does to the state all sessions share, the \<open>ProxyFactory\<close> behind its \<open>Arc\<close>s. The theorems about
  a session let the other sessions change that state before each access, but only by the operations
  \<^typ>\<open>shared_op\<close>. Here a session is shown to keep to these itself, so what one session assumes of the others is
  what each of them guarantees: the handler contract is interpreted a second time, with an invariant that
  says which operations made the shared state what it is.
\<close>

section \<open>Interleavings\<close>

lemma shuffles_snoc_right: "xs \<in> shuffles as bs \<Longrightarrow> xs @ ys \<in> shuffles as (bs @ ys)"
proof (induction as bs arbitrary: xs rule: shuffles.induct)
  case (1 bs)
  then show ?case by simp
next
  case (2 as)
  then have "xs = as" by simp
  then show ?case by (induction as arbitrary: xs) (auto simp: Cons_in_shuffles_leftI)
next
  case (3 a as b bs)
  then consider zs where "xs = a # zs" "zs \<in> shuffles as (b # bs)" | zs where "xs = b # zs" "zs \<in> shuffles (a # as) bs"
    by (auto simp: Cons_shuffles_subset1)
  then show ?case
  proof cases
    case 1
    with "3.IH"(1) [of zs] show ?thesis by (simp add: Cons_in_shuffles_leftI)
  next
    case 2
    with "3.IH"(2) [of zs] show ?thesis by (simp add: Cons_in_shuffles_rightI)
  qed
qed

lemma shuffles_snoc_left: "xs \<in> shuffles as bs \<Longrightarrow> xs @ ys \<in> shuffles (as @ ys) bs"
  using shuffles_snoc_right [of xs bs as ys] by (simp add: shuffles_commutes)


section \<open>The guarantee\<close>

text \<open>
  A session asks the limiter and notes, one swap at a time, what the upstream can do; pruning is the timer's.
\<close>

definition session_op :: "shared_op \<Rightarrow> bool" where
  "session_op x \<longleftrightarrow> (case x of Prunes _ _ \<Rightarrow> False | _ \<Rightarrow> True)"

text \<open>
  How a view of the shared state came to be, seen from a session that began with \<open>S\<close> and the interference
  \<open>xss\<close>: the operations the others have done by now, in their order, and some of its own in between. Nothing
  else touched it.
\<close>

definition made_by ::
  "shared_view \<Rightarrow> shared_view \<Rightarrow> shared_op list \<Rightarrow> shared_op list list \<Rightarrow> shared_op list \<Rightarrow> bool" where
  "made_by v0 v own theirs all \<longleftrightarrow>
     fst v = fold shared_step all (fst v0) \<and> all \<in> shuffles own (concat theirs) \<and> list_all session_op own \<and>
     snd v0 = theirs @ snd v"

definition view_inv :: "shared_view \<Rightarrow> shared_view \<Rightarrow> bool" where
  "view_inv v0 v \<longleftrightarrow> (\<exists>own theirs all. made_by v0 v own theirs all)"

lemma view_inv_start: "view_inv v v"
  unfolding view_inv_def made_by_def by (intro exI [of _ "[]"]) simp

lemma view_inv_own:
  assumes "view_inv v0 (S, xss)" "session_op x" "S' = shared_step x S"
  shows "view_inv v0 (S', xss)"
proof -
  from assms(1) obtain own theirs all where m: "made_by v0 (S, xss) own theirs all" by (auto simp: view_inv_def)
  then have "made_by v0 (S', xss) (own @ [x]) theirs (all @ [x])"
    using assms(2-) shuffles_snoc_left [of all own "concat theirs" "[x]"] by (simp add: made_by_def)
  then show ?thesis unfolding view_inv_def by blast
qed

lemma view_inv_interfere:
  assumes "view_inv v0 v"
  shows "view_inv v0 (interfere v)"
proof (cases v rule: interfere.cases)
  case (1 S)
  with assms show ?thesis by simp
next
  case (2 S xs rest)
  from assms obtain own theirs all where m: "made_by v0 v own theirs all" by (auto simp: view_inv_def)
  then have "made_by v0 (interfere v) own (theirs @ [xs]) (all @ xs)"
    using 2 shuffles_snoc_right [of all own "concat theirs" xs] by (simp add: made_by_def)
  then show ?thesis unfolding view_inv_def by blast
qed

text \<open>Noting what an upstream can do: three operations, with the others' in between.\<close>

lemma view_inv_note:
  assumes "view_inv v0 v"
  shows "view_inv v0 (note_upstream_caps c v)"
proof -
  obtain S1 xs1 where 1: "interfere v = (S1, xs1)" by (cases "interfere v")
  obtain S2 xs2 where 2: "interfere (S1\<lparr>upstream_dsn := cap_dsn c\<rparr>, xs1) = (S2, xs2)"
    by (cases "interfere (S1\<lparr>upstream_dsn := cap_dsn c\<rparr>, xs1)")
  obtain S3 xs3 where 3: "interfere (S2\<lparr>upstream_dsn_known := True\<rparr>, xs2) = (S3, xs3)"
    by (cases "interfere (S2\<lparr>upstream_dsn_known := True\<rparr>, xs2)")
  let ?n = "case cap_size c of Some n \<Rightarrow> n | None \<Rightarrow> 0"
  have "view_inv v0 (S1, xs1)" using view_inv_interfere [OF assms] by (simp add: 1)
  from view_inv_own [OF this, of "LearnsDsn (cap_dsn c)"]
  have "view_inv v0 (S1\<lparr>upstream_dsn := cap_dsn c\<rparr>, xs1)" by (simp add: session_op_def)
  then have "view_inv v0 (S2, xs2)" using view_inv_interfere [of v0 "(S1\<lparr>upstream_dsn := cap_dsn c\<rparr>, xs1)"] by (simp add: 2)
  from view_inv_own [OF this, of LearnsKnown]
  have "view_inv v0 (S2\<lparr>upstream_dsn_known := True\<rparr>, xs2)" by (simp add: session_op_def)
  then have "view_inv v0 (S3, xs3)" using view_inv_interfere [of v0 "(S2\<lparr>upstream_dsn_known := True\<rparr>, xs2)"] by (simp add: 3)
  from view_inv_own [OF this, of "LearnsSize ?n"]
  show ?thesis by (simp add: session_op_def note_upstream_caps_def 1 2 3)
qed

text \<open>The probe at start-up and every half hour after keeps to the same.\<close>

lemma view_inv_probe: "view_inv v0 v \<Longrightarrow> probe_upstream C d v = Some v' \<Longrightarrow> view_inv v0 v'"
  by (auto simp: probe_upstream_def view_inv_note split: option.splits sum.splits)

text \<open>The same of a handler.\<close>

definition shared_inv :: "shared \<Rightarrow> world \<Rightarrow> proxy_handler \<Rightarrow> bool" where
  "shared_inv S w h \<longleftrightarrow> view_inv (S, others w) (factory h, others (outside h))"

lemma shared_inv_cong:
  assumes "shared_inv S w h" "factory h' = factory h" "others (outside h') = others (outside h)"
  shows "shared_inv S w h'"
  using assms by (simp add: shared_inv_def)

lemma shared_inv_own:
  assumes "shared_inv S w h" "session_op x" "factory h' = shared_step x (factory h)"
    and "others (outside h') = others (outside h)"
  shows "shared_inv S w h'"
  using assms view_inv_own by (simp add: shared_inv_def)

lemma shared_inv_sync: "shared_inv S w h \<Longrightarrow> shared_inv S w (sync h)"
  using view_inv_interfere by (simp add: shared_inv_def sync_def)

lemma shared_inv_note: "shared_inv S w h \<Longrightarrow> shared_inv S w (on_shared (note_upstream_caps c) h)"
  using view_inv_note by (simp add: shared_inv_def)

lemma shared_inv_create: "shared_inv S w (create S w)"
  by (simp add: shared_inv_def create_def view_inv_start)

lemma next_world_others [simp]:
  "next_clock v = (t, v') \<Longrightarrow> others v' = others v" "next_exchange v = (x, v') \<Longrightarrow> others v' = others v"
  "next_dial v = (d, v') \<Longrightarrow> others v' = others v"
  by (auto simp: next_clock_def next_exchange_def next_dial_def split: list.splits)

lemma proxy_mail_shared:
  assumes "shared_inv S w h"
  shows "shared_inv S w (snd (proxy_mail a ps h))"
proof -
  let ?user = "unwrap_or_default (username h)"
  obtain now w1 where c: "next_clock (outside h) = (now, w1)" by (cases "next_clock (outside h)")
  show ?thesis
    by (rule shared_inv_own [OF assms, of "Asks ?user now"])
       (simp_all add: session_op_def proxy_mail_def Let_def c split_beta proxy_reset_def next_world_others(1) [OF c])
qed

text \<open>What opening a message does to it: nothing, or the capabilities of the upstream it reached are noted.\<close>

lemma relay_headers_shared: "shared_inv S w h \<Longrightarrow> shared_inv S w (snd (relay_headers C q r up h))"
  using relay_headers_state [of C q r up h] shared_inv_note by auto

lemma open_body_shared:
  assumes "shared_inv S w h" "open_body C hs h = Some (q, h')"
  shows "shared_inv S w h'"
proof -
  obtain x w1 where x: "next_exchange (outside h) = (x, w1)" by (cases "next_exchange (outside h)")
  obtain d w2 where d: "next_dial w1 = (d, w2)" by (cases "next_dial w1")
  note w [simp] = next_world_others(2) [OF x] next_world_others(3) [OF d]
  let ?h = "h\<lparr>tr := (tr h)\<lparr>tr_headers := parse_headers hs\<rparr>, outside := w2,
    asked := asked h @ [check_request_of (h\<lparr>tr := (tr h)\<lparr>tr_headers := parse_headers hs\<rparr>\<rparr>)]\<rparr>"
  have k: "shared_inv S w ?h" by (rule shared_inv_cong [OF assms(1)]) simp_all
  have "h' = ?h \<or> (\<exists>q r up. h' = snd (relay_headers C q r up ?h))"
    using assms(2) x d by (auto simp: open_body_def Let_def split: option.splits sum.splits if_splits prod.splits)
      (metis snd_conv)+
  then show ?thesis using k relay_headers_shared [OF k] by blast
qed

interpretation shared_proxy: handler_contract "proxy_ops C" "shared_inv S w" sink_inv for C S w
proof unfold_locales
  fix h hs q h' assume "shared_inv S w h" "h_open_body (proxy_ops C) hs h = Some (q, h')"
  then show "shared_inv S w h'" using open_body_shared [OF shared_inv_sync] by (simp add: proxy_ops_def)
next
  fix h hs r h' assume "h_open_body (proxy_ops C) hs h = Some (Inl r, h')"
  then show "refusal_code (rej_code r)" using open_body_code by (simp add: proxy_ops_def)
next
  fix h hs k h' assume "h_open_body (proxy_ops C) hs h = Some (Inr k, h')"
  then show "sink_inv k" using open_body_sink by (simp add: proxy_ops_def)
qed (auto simp: proxy_ops_def shared_inv_sync open_body_no_panic proxy_mail_shared write_stage_def sink_finish_def
    sink_inv_def proxy_rcpt_def proxy_auth_def proxy_reset_def intro: shared_inv_cong [OF shared_inv_sync]
    dest: up_write_refuses finish_up_refuses proxy_mail_code split: prod.splits)

interpretation shared_session: session_env "proxy_env c C d" "shared_inv S w" sink_inv for c C d S w
  unfolding session_env_def by (simp add: shared_proxy.handler_contract_axioms)

text \<open>
  C10. Sessions compose. A session begins with the shared state as any sequence of operations left it, and the
  other tasks go on changing it between its own accesses, one lock or one atomic at a time: also between the
  three swaps by which it notes what an upstream can do. At its end the shared state is what all these
  operations make of a fresh one: what the others did by then, in the order they did it, with the session's own
  operations in between, and these are questions to the rate limiter and the single swaps of such notes.
  So a session gives the others just the interference it allows them, and a state the next one may begin with.
\<close>

theorem session_guarantee:
  "\<exists>r s own theirs all.
     run (proxy_env c C d) reads tlso ws drains (proxy_start C before w) = Some (Some r, s) \<and>
     factory (handler s) = fold shared_step (before @ all) (factory_new C) \<and>
     all \<in> shuffles own (concat theirs) \<and> list_all session_op own \<and>
     others w = theirs @ others (outside (handler s))"
proof -
  let ?S = "fold shared_step before (factory_new C)"
  obtain r s where r: "run (proxy_env c C d) reads tlso ws drains (proxy_start C before w) = Some (Some r, s)"
    and "sinv (proxy_env c C d) (shared_inv ?S w) None
           (remaining (new_session reads tlso ws drains (proxy_start C before w))) s"
    using shared_session.run_safe [OF shared_inv_create] by metis
  then have "shared_inv ?S w (handler s)" by (simp add: sinv_def)
  then show ?thesis using r by (auto simp: shared_inv_def view_inv_def made_by_def)
qed

end
