(* ===== verification/Session_Log.thy ===== *)
theory Session_Log
  imports Session_Frame
begin

text \<open>
  What a session writes to the wire log, as an instance of the frame rule: every reply, byte for byte and in
  order, also one whose write failed, and of what it received no secret of an \<open>AUTH\<close> command, unless the
  operator asked for credentials.
\<close>

section \<open>Entries of replies\<close>

lemma split_crlf_line: "CR \<notin> set t \<Longrightarrow> split_crlf (t @ CRLF @ s) = t # split_crlf s"
proof (induction t)
  case (Cons b t)
  then show ?case by (cases "t @ CRLF @ s") (auto split: list.split)
qed simp

lemma split_crlf_reply:
  "map snd (map (log_write True) (filter (\<lambda>l. l \<noteq> []) (split_crlf (concat (reply_line_list code ls))))) =
   map (\<lambda>l. take (length l - 2) l) (reply_line_list code ls)"
proof (induction ls)
  case (Cons l ls)
  let ?t = "show_nat code @ (if ls = [] then SP else CHR ''-'') # sanitize l"
  have n: "CR \<notin> set ?t" using sanitize_no_break show_nat_no_break by auto
  have r: "reply_line code (ls = []) l = ?t @ CRLF" by (simp add: reply_line_def)
  have "last ?t \<noteq> CR \<and> last ?t \<noteq> LF"
    using sanitize_no_break [OF last_in_set, of l] by (simp add: last_append)
  then have "trim_line_end ?t = ?t" by (intro trim_end_matches_id) simp
  then show ?case using Cons split_crlf_line [OF n, of "concat (reply_line_list code ls)"]
    by (simp add: r log_write_def)
qed (simp add: log_write_def)

text \<open>The entries of a reply, each with its line ending put back, are the reply.\<close>

lemma log_sent_wire:
  assumes "wire r = Some w"
  shows "concat (map (\<lambda>l. l @ CRLF) (map snd (log_sent w))) = w" "list_all fst (log_sent w)"
proof -
  have w: "w = concat (reply_line_list (reply_code r) (reply_lines r))"
    using assms by (auto simp: wire_def format_reply_def format_lines_concat split: sum.splits if_splits)
  have "concat (map (\<lambda>l. take (length l - 2) l @ CRLF) (reply_line_list c ls)) = concat (reply_line_list c ls)" for c ls
    by (induction ls) (simp_all add: reply_line_def)
  then show "concat (map (\<lambda>l. l @ CRLF) (map snd (log_sent w))) = w"
    unfolding log_sent_def w split_crlf_reply by (simp add: comp_def)
  show "list_all fst (log_sent w)" by (simp add: log_sent_def log_write_def list_all_iff)
qed


section \<open>Redaction, once more\<close>

lemma ws_at_head: "ws_at (x # t) \<Longrightarrow> ord x < 0x80 \<or> 0xC2 \<le> ord x"
  by (auto simp: ws_at_def ws1_def ws2_def ws3_def in_range_def split: list.splits)

lemma ws_at_append: "ws_at s \<Longrightarrow> ws_at (s @ t)"
  by (auto simp: ws_at_def split: list.splits)

text \<open>White space put behind a part of a word does not make white space within it.\<close>

lemma ws_at_cut:
  assumes "\<not> ws_at (b # p @ q)" "ws_at t"
  shows "\<not> ws_at (b # p @ t)"
proof -
  obtain x u where t: "t = x # u" using assms(2) by (cases t) (simp_all add: ws_at_def)
  have "\<not> ws2 b x" "\<not> ws3 b x d" "\<not> ws3 b c x" for c d
    using ws_at_head [of x u] assms(2) t by (auto simp: ws2_def ws3_def in_range_def)
  then show ?thesis using assms(1) t by (cases p; cases "tl p"; cases q) (auto simp: ws_at_def split: list.splits)
qed

definition word_end :: "bytes \<Rightarrow> nat" where
  "word_end s = (case find_whitespace s of Some i \<Rightarrow> i | None \<Rightarrow> length s)"

lemma word_end_shape:
  "\<exists>w q. s = w @ q \<and> word_end s = length w \<and> (q = [] \<or> ws_at q) \<and> (ws_at s \<or> s = [] \<or> w \<noteq> []) \<and>
     (\<forall>t. ws_at t \<longrightarrow> find_whitespace (w @ t) = Some (length w))"
proof (induction s)
  case Nil
  have "find_whitespace t = Some 0" if "ws_at t" for t using that by (cases t) (simp_all add: ws_at_def)
  then show ?case by (simp add: word_end_def)
next
  case (Cons b s)
  show ?case
  proof (cases "ws_at (b # s)")
    case True
    have "find_whitespace t = Some 0" if "ws_at t" for t using that by (cases t) (simp_all add: ws_at_def)
    with True show ?thesis by (intro exI [of _ "[]"] exI [of _ "b # s"]) (simp add: word_end_def)
  next
    case False
    then have e: "word_end (b # s) = Suc (word_end s)" by (auto simp: word_end_def split: option.split)
    from Cons.IH obtain w q where w: "s = w @ q" "word_end s = length w" "q = [] \<or> ws_at q"
      "\<forall>t. ws_at t \<longrightarrow> find_whitespace (w @ t) = Some (length w)" by blast
    have "\<not> ws_at (b # w @ t)" if "ws_at t" for t using False ws_at_cut [OF _ that, of b w q] w(1) by simp
    then show ?thesis using w e by (intro exI [of _ "b # w"] exI [of _ q]) simp
  qed
qed

lemma trim_start_not_ws: "\<not> ws_at s \<Longrightarrow> trim_start s = s"
  by (cases s rule: trim_start.cases) (simp_all add: ws_at_def)

lemma trim_start_ws_at: "\<not> ws_at (trim_start s)"
  by (induction s rule: trim_start.induct) (auto simp: ws_at_def)

text \<open>
  A word of a line, with what stands before it and behind it. It is found just so whatever else stands behind it,
  as long as that begins with white space.
\<close>

lemma next_token_shape:
  assumes "next_token s n = Some (a, b)"
  obtains p v w q where "s = p @ v @ w @ q" "length p = n" "ws_only v" "a = n + length v" "b = a + length w"
    "\<not> ws_at (w @ q)" "q = [] \<or> ws_at q" "\<forall>t. ws_at t \<longrightarrow> next_token (p @ v @ w @ t) n = Some (a, b)"
proof -
  let ?u = "trim_start (drop n s)"
  obtain v where v: "drop n s = v @ ?u" "ws_only v" using trim_start_decomp by blast
  have u: "?u \<noteq> []" using assms by (auto simp: next_token_def Let_def split: if_splits)
  then have n: "length (take n s) = n" by (cases "n \<le> length s") auto
  have nw: "\<not> ws_at ?u" by (rule trim_start_ws_at)
  obtain w q where w: "?u = w @ q" "word_end ?u = length w" "q = [] \<or> ws_at q" "w \<noteq> []"
    "\<forall>t. ws_at t \<longrightarrow> find_whitespace (w @ t) = Some (length w)"
    using word_end_shape [of ?u] u nw by blast
  have lv: "length (drop n s) - length ?u = length v" using arg_cong [OF v(1), of length] by simp
  have a: "a = n + length v" "b = a + length w"
    using assms w(2) u unfolding next_token_def Let_def lv word_end_def [symmetric] by simp_all
  have t: "next_token (take n s @ v @ w @ t) n = Some (a, b)" if "ws_at t" for t
  proof -
    have "\<not> ws_at (w @ t)" using nw w(1,4) ws_at_cut [OF _ that, of "hd w" "tl w" q] by (cases w) simp_all
    then have "trim_start (v @ w @ t) = w @ t" using trim_start_ws_append [OF v(2)] trim_start_not_ws by simp
    moreover have "drop n (take n s @ v @ w @ t) = v @ w @ t" using n by simp
    ultimately show ?thesis using w(4,5) a that by (simp add: next_token_def Let_def)
  qed
  have "s = take n s @ v @ w @ q" using v(1) w(1) by (metis append_take_drop_id)
  then show thesis using that [of "take n s" v w q] n v(2) a nw w t by simp
qed

lemma redact_idem: "redact_auth_line (redact_auth_line l) = redact_auth_line l"
proof (cases "redact_auth_line l = l")
  case False
  then obtain a b c e where n: "next_token l 0 = Some (a, b)" "eq_ignore_ascii_case (drop a (take b l)) ''AUTH''"
    "next_token l b = Some (c, e)" "next_token l e \<noteq> None" and r: "redact_auth_line l = take e l @ '' [REDACTED]''"
    by (auto simp: redact_auth_line_def split: option.splits prod.splits if_splits)
  let ?m = "'' [REDACTED]''"
  have m: "ws_at ?m" "trim_start ?m \<noteq> []" by code_simp+
  obtain p1 v w q where s1: "l = p1 @ v @ w @ q" "length p1 = 0" "ws_only v" "a = 0 + length v" "b = a + length w"
    "\<not> ws_at (w @ q)" "q = [] \<or> ws_at q" "\<forall>t. ws_at t \<longrightarrow> next_token (p1 @ v @ w @ t) 0 = Some (a, b)"
    by (rule next_token_shape [OF n(1)])
  obtain p2 v2 w2 q2 where s2: "l = p2 @ v2 @ w2 @ q2" "length p2 = b" "ws_only v2" "c = b + length v2" "e = c + length w2"
    "\<not> ws_at (w2 @ q2)" "q2 = [] \<or> ws_at q2" "\<forall>t. ws_at t \<longrightarrow> next_token (p2 @ v2 @ w2 @ t) b = Some (c, e)"
    by (rule next_token_shape [OF n(3)])
  have "p2 @ (v2 @ w2 @ q2) = (v @ w) @ q" "length p2 = length (v @ w)" using s1(1,2,4,5) s2(1,2) by simp_all
  then have p: "p2 = v @ w" "q = v2 @ w2 @ q2" using append_eq_append_conv [of p2 "v @ w"] by blast+
  have l: "take e l = v @ w @ v2 @ w2" using s2(1,2,4,5) p by simp
  have "v2 \<noteq> []"
  proof
    assume "v2 = []"
    then have "drop e l = []" using p s1(7) s2 by auto
    then show False using n(4) by (simp add: next_token_None)
  qed
  then have "ws_at (v2 @ w2 @ ?m)" using s2(3) trim_start_not_ws [of v2] by (auto simp: ws_only_def intro: ws_at_append)
  then have t1: "next_token (v @ w @ v2 @ w2 @ ?m) 0 = Some (a, b)" using s1(2,8) by simp
  have t2: "next_token (v @ w @ v2 @ w2 @ ?m) b = Some (c, e)" using s2(8) m(1) p by simp
  have t3: "next_token (v @ w @ v2 @ w2 @ ?m) e \<noteq> None"
    using m(2) s2(2,4,5) p by (simp add: next_token_None)
  have t4: "take b (v @ w @ v2 @ w2 @ ?m) = take b l" "take e (v @ w @ v2 @ w2 @ ?m) = v @ w @ v2 @ w2"
    using s1(1,2,4,5) s2(2,4,5) p by simp_all
  show ?thesis unfolding r l using n(2) t3 t4 by (simp add: redact_auth_line_def t1 t2)
qed simp

text \<open>What goes into the log of a line received: a redacted line stays as it is.\<close>

definition redacted :: "bytes \<Rightarrow> bool" where
  "redacted l \<longleftrightarrow> redact_auth_line l = l"

text \<open>
  What that comes to. In a line that begins with \<open>AUTH\<close>, in any case, and a mechanism, with white space of any kind
  around them, there is nothing behind these two words but the mark.
\<close>

definition auth_secret :: "bytes \<Rightarrow> bytes \<Rightarrow> bool" where
  "auth_secret l secret \<longleftrightarrow>
     (\<exists>a v b m c. l = a @ v @ b @ m @ c @ secret \<and> ws_only a \<and> eq_ignore_ascii_case v ''AUTH'' \<and>
        ws_only b \<and> b \<noteq> [] \<and> m \<noteq> [] \<and> find_whitespace m = None \<and> ws_only c \<and> c \<noteq> [] \<and>
        secret \<noteq> [] \<and> \<not> ws_at secret)"

definition no_secret :: "bytes \<Rightarrow> bool" where
  "no_secret l \<longleftrightarrow> (\<forall>secret. auth_secret l secret \<longrightarrow> secret = ''[REDACTED]'')"

lemma find_whitespace_word: "find_whitespace w = None \<Longrightarrow> ws_at t \<Longrightarrow> find_whitespace (w @ t) = Some (length w)"
proof (induction w)
  case Nil
  then show ?case by (cases t) (simp_all add: ws_at_def)
next
  case (Cons b w)
  have "\<not> ws_at (b # w @ t)" using Cons.prems ws_at_cut [of b w "[]" t] by (simp split: if_splits)
  then show ?case using Cons by (simp split: if_splits)
qed

lemma ws_only_at: "ws_only s \<Longrightarrow> s \<noteq> [] \<Longrightarrow> ws_at (s @ t)"
  using trim_start_not_ws [of s] by (auto simp: ws_only_def intro: ws_at_append)

lemma next_token_at:
  assumes "ws_only v" "w \<noteq> []" "find_whitespace w = None" "ws_at t"
  shows "next_token (p @ v @ w @ t) (length p) = Some (length p + length v, length p + length v + length w)"
proof -
  have f: "find_whitespace (w @ t) = Some (length w)" using find_whitespace_word assms(3,4) .
  then have "\<not> ws_at (w @ t)" using assms(2) by (cases w) (auto split: if_splits)
  then have "trim_start (v @ w @ t) = w @ t" using trim_start_ws_append [OF assms(1)] trim_start_not_ws by simp
  then show ?thesis using assms(2) f by (simp add: next_token_def Let_def)
qed

lemma auth_word: "eq_ignore_ascii_case v ''AUTH'' \<Longrightarrow> v \<noteq> [] \<and> find_whitespace v = None"
proof
  assume v: "eq_ignore_ascii_case v ''AUTH''"
  then show ne: "v \<noteq> []" by (auto simp: eq_ignore_ascii_case_def to_ascii_uppercase_def)
  have "to_ascii_uppercase v = ''AUTH''" using v upper_AUTH by blast
  then have "map ascii_upper v = ''AUTH''" by (simp add: to_ascii_uppercase_def)
  then have "\<forall>b \<in> set v. ascii_upper b \<in> set ''AUTH''" by (metis image_eqI list.set_map)
  moreover have "\<not> ws1 b \<and> is_ascii b" if "is_ascii_alphabetic (ascii_upper b)" for b
    using that alphabetic_plain [of "ascii_upper b"] by (auto simp: ascii_upper_def ws1_def byte_defs split: if_splits)
  moreover have "\<forall>b \<in> set ''AUTH''. is_ascii_alphabetic b" by (simp add: byte_defs)
  ultimately have "\<forall>b \<in> set v. \<not> ws1 b \<and> is_ascii b" by blast
  from find_whitespace_append [OF this, of "[]"] show "find_whitespace v = None" by simp
qed

lemma redact_auth_anywhere:
  assumes "ws_only a" "eq_ignore_ascii_case v ''AUTH''" "ws_only b" "b \<noteq> []" "m \<noteq> []" "find_whitespace m = None"
    and "ws_only c" "c \<noteq> []" "secret \<noteq> []" "\<not> ws_at secret"
  shows "redact_auth_line (a @ v @ b @ m @ c @ secret) = a @ v @ b @ m @ '' [REDACTED]''"
proof -
  let ?l = "a @ v @ b @ m @ c @ secret"
  note v = auth_word [OF assms(2)]
  have t1: "next_token ?l 0 = Some (length a, length a + length v)"
    using next_token_at [OF assms(1) conjunct1 [OF v] conjunct2 [OF v] ws_only_at [OF assms(3,4)], of "[]"] by simp
  have t2: "next_token ?l (length a + length v) =
      Some (length a + length v + length b, length a + length v + length b + length m)"
    using next_token_at [OF assms(3,5,6) ws_only_at [OF assms(7,8)], of "a @ v" secret] by simp
  have "trim_start (c @ secret) = secret" using trim_start_ws_append [OF assms(7)] trim_start_not_ws [OF assms(10)] by simp
  then have t3: "next_token ?l (length a + length v + length b + length m) \<noteq> None"
    using assms(9) by (simp add: next_token_None)
  have d: "drop (length a) (take (length a + length v) ?l) = v" by simp
  have k: "take (length a + length v + length b + length m) ?l = a @ v @ b @ m" by simp
  show ?thesis using t3 assms(2) unfolding redact_auth_line_def t1 option.case prod.case d t2 k
    by (simp only: simp_thms if_False append_assoc)
qed

lemma redacted_no_secret:
  assumes "redacted l"
  shows "no_secret l"
  unfolding no_secret_def
proof (intro allI impI)
  fix secret assume "auth_secret l secret"
  then obtain a v b m c where l: "l = a @ v @ b @ m @ c @ secret" and w: "ws_only a" "eq_ignore_ascii_case v ''AUTH''"
    "ws_only b" "b \<noteq> []" "m \<noteq> []" "find_whitespace m = None" "ws_only c" "c \<noteq> []" "secret \<noteq> []" "\<not> ws_at secret"
    unfolding auth_secret_def by blast
  have "redact_auth_line l = a @ v @ b @ m @ '' [REDACTED]''" unfolding l by (rule redact_auth_anywhere [OF w])
  then have cs: "c @ secret = '' [REDACTED]''" using assms unfolding redacted_def l by simp
  have "trim_start (c @ secret) = secret" using trim_start_ws_append [OF w(7)] trim_start_not_ws [OF w(10)] by simp
  moreover have "trim_start '' [REDACTED]'' = ''[REDACTED]''" by code_simp
  ultimately show "secret = ''[REDACTED]''" unfolding cs by simp
qed

lemma log_received_redacted: "list_all (\<lambda>e. \<not> fst e \<and> redacted (snd e)) (log_received False (trim_line_end t))"
proof (cases "redact_auth_line (trim_line_end t) = trim_line_end t")
  case True
  have "trim_line_end (trim_line_end t) = trim_line_end t"
    using trim_end_matches_last [of "\<lambda>b. b = CR \<or> b = LF" t] by (intro trim_end_matches_id) blast
  with True show ?thesis by (simp add: log_received_def log_write_def redacted_def)
next
  case False
  then obtain u where u: "redact_auth_line (trim_line_end t) = u @ '' [REDACTED]''"
    by (auto simp: redact_auth_line_def split: option.splits prod.splits if_splits)
  then have "trim_line_end (redact_auth_line (trim_line_end t)) = redact_auth_line (trim_line_end t)"
    by (intro trim_end_matches_id) simp
  then show ?thesis by (simp add: log_received_def log_write_def redacted_def redact_idem)
qed

lemma log_secret_mark: "log_received_auth_secret False t = [(False, ''[REDACTED]'')]"
  unfolding log_received_auth_secret_def by code_simp

lemma log_secret_redacted: "list_all (\<lambda>e. \<not> fst e \<and> redacted (snd e)) (log_received_auth_secret False t)"
proof -
  have "redacted ''[REDACTED]''" unfolding redacted_def by code_simp
  then show ?thesis by (simp add: log_secret_mark)
qed

lemma log_received_fst: "list_all (\<lambda>e. \<not> fst e) (log_received cred t)" "list_all (\<lambda>e. \<not> fst e) (log_received_auth_secret cred t)"
  by (simp_all add: log_received_def log_received_auth_secret_def log_write_def)


section \<open>The log of a session\<close>

text \<open>What an event put on the wire, or tried to.\<close>

fun written :: "event \<Rightarrow> bytes" where
  "written (Sent r) = (case wire r of Some w \<Rightarrow> w | None \<Rightarrow> [])"
| "written (SendFailed r) = (case wire r of Some w \<Rightarrow> w | None \<Rightarrow> [])"
| "written _ = []"

definition log_true :: "('h, 'k) env \<Rightarrow> 'h session \<Rightarrow> bool" where
  "log_true E s \<longleftrightarrow>
     (case smtplog (cfg E) of
        None \<Rightarrow> wire_log s = []
      | Some credentials \<Rightarrow>
          concat (map (\<lambda>l. l @ CRLF) (map snd (filter fst (wire_log s)))) = concat (map written (trace s)) \<and>
          (credentials \<or> list_all (\<lambda>e. fst e \<or> redacted (snd e)) (wire_log s)))"

lemma log_true_cong:
  "wire_log s' = wire_log s \<Longrightarrow> concat (map written (trace s')) = concat (map written (trace s)) \<Longrightarrow> log_true E s' = log_true E s"
  by (simp add: log_true_def split: option.split)

lemma log_true_received:
  assumes "log_true E s" "\<And>cred. list_all (\<lambda>e. \<not> fst e) (ls cred)" "list_all (\<lambda>e. \<not> fst e \<and> redacted (snd e)) (ls False)"
  shows "log_true E (log_lines E ls s)"
proof -
  have "filter fst (ls cred) = []" for cred using assms(2) [of cred] by (simp add: list_all_iff filter_empty_conv)
  moreover have "list_all (\<lambda>e. fst e \<or> redacted (snd e)) (ls False)" using assms(3) by (auto simp: list_all_iff)
  ultimately show ?thesis using assms(1) by (auto simp: log_true_def log_lines_def split: option.splits)
qed

lemma log_true_send:
  assumes "log_true E s" "send E r s = Some (x, s')"
  shows "log_true E s'"
proof -
  obtain w where w: "wire r = Some w" using assms(2) by (auto simp: send_def split: option.splits)
  note l = log_sent_wire [OF w]
  have "filter fst (log_sent w) = log_sent w" "list_all (\<lambda>e. fst e \<or> redacted (snd e)) (log_sent w)"
    using l(2) by (auto simp: list_all_iff filter_id_conv)
  then show ?thesis using assms l(1)
    by (auto simp: send_def w Let_def log_true_def log_lines_def emit_def split: option.splits list.splits)
qed

lemma log_true_emit: "written e = [] \<Longrightarrow> log_true E (emit e s) = log_true E s"
  by (rule log_true_cong) (simp_all add: emit_def)

lemma quiet_written: "quiet_event e \<Longrightarrow> written e = []"
  by (cases e) simp_all

lemma log_true_fields:
  "log_true E (s\<lparr>buf := b\<rparr>) = log_true E s" "log_true E (s\<lparr>inp := i\<rparr>) = log_true E s"
  "log_true E (s\<lparr>st := q\<rparr>) = log_true E s" "log_true E (s\<lparr>recipients := n\<rparr>) = log_true E s"
  "log_true E (s\<lparr>drain_script := ds\<rparr>) = log_true E s" "log_true E (s\<lparr>first_command_seen := f\<rparr>) = log_true E s"
  "log_true E (s\<lparr>tls_active := a\<rparr>) = log_true E s" "log_true E (s\<lparr>after_tls := t\<rparr>) = log_true E s"
  "log_true E (s\<lparr>handler := h\<rparr>) = log_true E s"
  by (rule log_true_cong; simp)+

interpretation logged: session_frame E "log_true E" False for E :: "('h, 'k) env"
  by unfold_locales
    (simp_all add: log_true_received log_received_redacted log_secret_redacted log_received_fst log_true_send
      log_true_emit quiet_written log_true_fields)

text \<open>A line that is read as the response to a challenge leaves the mark alone, whatever it holds.\<close>

lemma send_logs: "send E r s = Some (x, s') \<Longrightarrow> \<exists>es. wire_log s' = wire_log s @ es \<and> list_all fst es"
  using log_sent_wire(2) [of r]
  by (auto simp: send_def Let_def log_lines_def emit_def split: option.splits list.splits)

lemma send_then_logs:
  assumes "and_then (send E r s) (\<lambda>_. ok a) = Some (x, s')"
  shows "\<exists>es. wire_log s' = wire_log s @ es \<and> list_all fst es"
  using assms send_logs [of E r s] by (auto simp: and_then_def ok_def split: option.splits sum.splits)

lemma refuse_long_line_logs:
  assumes "and_then (refuse_long_line E s) (\<lambda>_. ok a) = Some (x, s')"
  shows "\<exists>es. wire_log s' = wire_log s @ es \<and> list_all fst es"
  using assms send_logs [of E _ s]
  by (auto simp: and_then_def refuse_long_line_def send_ignore_def ok_def split: option.splits sum.splits if_splits)

lemma auth_continuation_logs:
  assumes "smtplog (cfg E) = Some False" "auth_continuation E s = Some (x, s')"
  shows "\<exists>es. wire_log s' = wire_log s @ es \<and> list_all (\<lambda>e. fst e \<or> snd e = ''[REDACTED]'') es"
proof -
  obtain y s1 where n: "next_line E MAX_COMMAND_BUFFER s = (y, s1)" by (cases "next_line E MAX_COMMAND_BUFFER s")
  then have w: "wire_log s1 = wire_log s" by (auto simp: next_line_def split: prod.splits)
  show ?thesis
  proof (cases y)
    case (Inl e)
    with assms(2) n w show ?thesis by (simp add: auth_continuation_def)
  next
    case (Inr l)
    show ?thesis
    proof (cases l)
      case (Got b)
      let ?t = "continuation_text (from_utf8_lossy b)"
      let ?s = "log_lines E (\<lambda>cred. log_received_auth_secret cred ?t) s1"
      have k: "wire_log ?s = wire_log s @ [(False, ''[REDACTED]'')]" using assms(1) w log_secret_mark by (simp add: log_lines_def)
      have "\<exists>es. wire_log s' = wire_log ?s @ es \<and> list_all fst es"
        using assms(2) n Inr Got by (auto simp: auth_continuation_def Let_def ok_def dest: send_then_logs split: if_splits)
      then show ?thesis unfolding k by (auto simp: list_all_iff)
    next
      case TooLong
      with assms(2) n Inr have "and_then (refuse_long_line E s1) (\<lambda>_. ok AuthClosed) = Some (x, s')"
        by (simp add: auth_continuation_def)
      from refuse_long_line_logs [OF this] w show ?thesis by (auto simp: list_all_iff)
    qed (use assms(2) n w Inr in \<open>auto simp: auth_continuation_def ok_def\<close>)
  qed
qed

end
