(* ===== verification/Session_Account.thy ===== *)
theory Session_Account
  imports Proxy_Session Session_Log
begin

text \<open>
  Session and proxy agree on what the client said. The trace of a session has its calls of the handler; what the
  proxy then asks the API about a message is computed here from these calls alone, and shown to be what it did
  ask: senders and recipients of this transaction, none of an earlier one, none refused, none lost.
\<close>

section \<open>What was said\<close>

text \<open>Sender and recipients of the transaction, as the calls up to now give them.\<close>

fun said_step :: "event \<Rightarrow> bytes \<times> bytes list \<Rightarrow> bytes \<times> bytes list" where
  "said_step ResetCall m = ([], [])"
| "said_step (MailCall a accepted) m = (if accepted then (a, []) else m)"
| "said_step (RcptCall a accepted) m = (if accepted then (fst m, snd m @ [a]) else m)"
| "said_step _ m = m"

definition said :: "event list \<Rightarrow> bytes \<times> bytes list" where
  "said t = fold said_step t ([], [])"

text \<open>What has to be asked: at each message, the sender, the recipients and the headers it came with.\<close>

type_synonym question = "bytes \<times> bytes list \<times> request_header list"

fun questions_from :: "bytes \<times> bytes list \<Rightarrow> event list \<Rightarrow> question list" where
  "questions_from m [] = []"
| "questions_from m (OpenCall hs taken # t) = (fst m, snd m, map to_request (parse_headers hs)) # questions_from m t"
| "questions_from m (e # t) = questions_from (said_step e m) t"

definition questions :: "event list \<Rightarrow> question list" where
  "questions t = questions_from ([], []) t"

definition question_of :: "check_request \<Rightarrow> question" where
  "question_of q = (cr_from q, cr_to q, cr_headers q)"

lemma questions_from_snoc:
  "questions_from m (t @ [e]) = questions_from m t @ questions_from (fold said_step t m) [e]"
proof (induction t arbitrary: m)
  case (Cons x t)
  then show ?case by (cases x) simp_all
qed simp

lemma said_snoc [simp]: "said (t @ [e]) = said_step e (said t)"
  by (simp add: said_def)

lemma questions_snoc [simp]: "questions (t @ [e]) = questions t @ questions_from (said t) [e]"
  by (simp add: questions_def said_def questions_from_snoc)


section \<open>What was asked\<close>

text \<open>The recipients said are as many as the policy of a session counts, at every point.\<close>

definition counted :: "event list \<Rightarrow> bool" where
  "counted t \<longleftrightarrow> (\<forall>i \<le> length t. length (snd (said (take i t))) = snd (tx (take i t)))"

lemma counted_Nil [simp]: "counted []"
  by (simp add: counted_def said_def)

lemma counted_snoc [simp]:
  "counted (t @ [e]) \<longleftrightarrow> counted t \<and> length (snd (said_step e (said t))) = snd (tx_step (tx t) e)"
proof -
  have "(\<forall>i \<le> Suc (length t). P i) \<longleftrightarrow> (\<forall>i \<le> length t. P i) \<and> P (Suc (length t))" for P by (auto simp: le_Suc_eq)
  then show ?thesis by (simp add: counted_def)
qed

lemma counted_now: "counted t \<Longrightarrow> length (snd (said t)) = snd (tx t)"
  unfolding counted_def by (metis order_refl take_all)

lemma questions_have_recipients:
  "counted t \<Longrightarrow> trace_ok c None t \<Longrightarrow> list_all (\<lambda>(a, rs, hs). rs \<noteq> []) (questions t)"
proof (induction t rule: rev_induct)
  case (snoc e t)
  have "length (snd (said t)) = snd (tx t)" using snoc.prems(1) by (intro counted_now) simp
  then show ?case using snoc by (cases e) auto
qed (simp add: questions_def)

definition agrees :: "proxy_handler session \<Rightarrow> bool" where
  "agrees s \<longleftrightarrow>
     said (trace s) = (tr_from (tr (handler s)), map rc_address (tr_recipients (tr (handler s)))) \<and>
     questions (trace s) = map question_of (asked (handler s)) \<and> counted (trace s)"

lemma agrees_counted: "agrees s \<Longrightarrow> snd (tx (trace s)) = length (tr_recipients (tr (handler s)))"
  using counted_now [of "trace s"] by (simp add: agrees_def)

lemma relay_headers_keeps:
  "relay_headers C q r up h = (x, h') \<Longrightarrow> tr h' = tr h \<and> asked h' = asked h"
  using relay_headers_state [of C q r up h] by auto

lemma open_body_asks:
  assumes "open_body C hs h = Some (x, h')"
  shows "tr_from (tr h') = tr_from (tr h)" "tr_recipients (tr h') = tr_recipients (tr h)"
    "asked h' = asked h @ [check_request_of (h\<lparr>tr := (tr h)\<lparr>tr_headers := parse_headers hs\<rparr>\<rparr>)]"
  using assms
  by (auto simp: open_body_def Let_def check_request_of_def dest: relay_headers_keeps
      split: option.splits sum.splits if_splits prod.splits)

lemma proxy_mail_says:
  assumes "proxy_mail a ps h = (v, h')"
  shows "asked h' = asked h" "isl v \<Longrightarrow> tr h' = tr h"
    "\<not> isl v \<Longrightarrow> tr_from (tr h') = a \<and> tr_recipients (tr h') = []"
  using assms
  by (auto simp: proxy_mail_def Let_def proxy_reset_def transaction_default_def split: prod.splits if_splits)

lemma agrees_send: "agrees s \<Longrightarrow> send E r s = Some (x, s') \<Longrightarrow> agrees s'"
  using agrees_counted [of s]
  by (auto simp: send_def agrees_def Let_def emit_def log_lines_def split: option.splits list.splits)

lemma agrees_quiet: "agrees s \<Longrightarrow> quiet_event e \<Longrightarrow> agrees (emit e s)"
  using agrees_counted [of s] by (cases e) (simp_all add: agrees_def emit_def)

lemma agrees_mail:
  assumes "agrees s" "trace s = t @ [ResetCall]" "proxy_mail a ps (sync (handler s)) = (v, h)"
  shows "agrees (emit (MailCall a (\<not> isl v)) (s\<lparr>handler := h\<rparr>))"
proof -
  have "said (trace s) = ([], [])" "snd (tx (trace s)) = 0" using assms(2) by simp_all
  then show ?thesis using assms(1) proxy_mail_says [OF assms(3)] by (cases "isl v") (simp_all add: agrees_def emit_def)
qed

lemma agrees_open:
  assumes "agrees s" "open_body C hs (sync (handler s)) = Some (k, h)"
  shows "agrees (emit (OpenCall hs b) (s\<lparr>handler := h\<rparr>))"
  using assms(1) open_body_asks [OF assms(2)] agrees_counted [OF assms(1)]
  by (simp add: agrees_def emit_def question_of_def check_request_of_def)

lemma agrees_calls:
  assumes "agrees s"
  shows "agrees (emit (AuthCall b) (s\<lparr>handler := (sync (handler s))\<lparr>username := u, password := p\<rparr>\<rparr>))"
    and "agrees (emit (RcptCall a True) (s\<lparr>handler := snd (proxy_rcpt a ps (sync (handler s)))\<rparr>))"
    and "agrees (emit ResetCall (s\<lparr>handler := proxy_reset (sync (handler s))\<rparr>))"
    and "agrees (s\<lparr>handler := sync (handler s)\<rparr>)" and "agrees (log_lines E ls s)"
  using assms agrees_counted [OF assms]
  by (simp_all add: agrees_def emit_def proxy_rcpt_def proxy_reset_def transaction_default_def log_lines_def split: option.split)

interpretation account: session_frame "proxy_env c C d" agrees False for c C d
proof unfold_locales
  fix s a ps v h
  assume s: "agrees s" "h_rcpt (ops (proxy_env c C d)) a ps (handler s) = (v, h)"
  then have "h = snd (proxy_rcpt a ps (sync (handler s)))" "\<not> isl v"
    by (simp_all add: proxy_ops_def proxy_rcpt_def split: prod.splits) auto
  then show "agrees (emit (RcptCall a (\<not> isl v)) (s\<lparr>handler := h\<rparr>))" using agrees_calls(2) [OF s(1)] by simp
qed (auto simp: agrees_send agrees_quiet agrees_mail agrees_open agrees_calls proxy_ops_def proxy_auth_def,
    simp_all add: agrees_def)

text \<open>
  C6. The API is asked about what the client said. In every session of the proxy, with the client, the API, the
  upstream and the other sessions doing as they like, there is one request per message opened, in order, and
  it names the sender and the recipients that were accepted since the transaction began, at least one of
  them, and the headers of that message: nothing is left over from a transaction before a reset, a refused
  \<open>MAIL\<close> or a new greeting, and no accepted recipient is missing.
\<close>

theorem asks_what_was_said:
  "\<exists>r s. run (proxy_env c C d) reads tlso ws drains (proxy_start C xs w) = Some (Some r, s) \<and>
     map question_of (asked (handler s)) = questions (trace s) \<and>
     list_all (\<lambda>(a, rs, hs). rs \<noteq> []) (questions (trace s))"
proof -
  obtain r s where r: "run (proxy_env c C d) reads tlso ws drains (proxy_start C xs w) = Some (Some r, s)"
    "sinv (proxy_env c C d) proxy_inv None (remaining (new_session reads tlso ws drains (proxy_start C xs w))) s"
    using psession.run_safe [OF proxy_start_inv] by metis
  have "agrees (new_session reads tlso ws drains (proxy_start C xs w))"
    by (simp add: agrees_def new_session_def create_def transaction_default_def said_def questions_def)
  from account.run_frame [OF this r(1)] have a: "agrees s" by simp
  have "trace_ok c None (trace s)" using r(2) by (simp add: sinv_def)
  then show ?thesis using r(1) a questions_have_recipients [of "trace s" c] by (auto simp: agrees_def)
qed

text \<open>
  C36. The wire log tells the truth and no secrets. With \<open>--smtplog\<close>, the entries of a session for what was sent,
  each with its line ending put back, are the bytes of its replies in order, those included whose write
  failed. And unless credentials were asked for, no entry for what was received holds the secret of an \<open>AUTH\<close> command: if
  its first word is \<open>AUTH\<close>, in any case and with any white space around it, there is nothing behind its second but the
  mark; and a line read as the response to a challenge leaves nothing but the mark, in whatever state of the
  session.
\<close>

theorem session_log_true:
  assumes "smtplog c = Some credentials"
  shows "\<exists>r s. run (proxy_env c C d) reads tlso ws drains (proxy_start C xs w) = Some (Some r, s) \<and>
     concat (map (\<lambda>l. l @ CRLF) (map snd (filter fst (wire_log s)))) = concat (map written (trace s)) \<and>
     (credentials \<or>
        list_all (\<lambda>e. fst e \<or> no_secret (snd e)) (wire_log s) \<and>
        (\<forall>s1 x s2. auth_continuation (proxy_env c C d) s1 = Some (x, s2) \<longrightarrow>
           (\<exists>es. wire_log s2 = wire_log s1 @ es \<and> list_all (\<lambda>e. fst e \<or> snd e = ''[REDACTED]'') es)))"
proof -
  let ?E = "proxy_env c C d"
  obtain r s where r: "run ?E reads tlso ws drains (proxy_start C xs w) = Some (Some r, s)"
    using psession.run_safe [OF proxy_start_inv] by metis
  have "log_true ?E (new_session reads tlso ws drains (proxy_start C xs w))"
    by (simp add: log_true_def new_session_def split: option.split)
  from logged.run_frame [OF this r] have "log_true ?E s" by simp
  then have l: "concat (map (\<lambda>l. l @ CRLF) (map snd (filter fst (wire_log s)))) = concat (map written (trace s))"
    "credentials \<or> list_all (\<lambda>e. fst e \<or> no_secret (snd e)) (wire_log s)"
    using assms redacted_no_secret by (auto simp: log_true_def list_all_iff)
  have a: "\<exists>es. wire_log s2 = wire_log s1 @ es \<and> list_all (\<lambda>e. fst e \<or> snd e = ''[REDACTED]'') es"
    if "\<not> credentials" "auth_continuation ?E s1 = Some (x, s2)" for s1 x s2
    by (rule auth_continuation_logs [OF _ that(2)]) (use assms that(1) in simp)
  show ?thesis
    by (rule exI [of _ r], rule exI [of _ s], intro conjI r l(1)) (use l(2) a in blast)
qed

text \<open>A client that logs in with its response in the command, and then with it on a line of its own.\<close>

theorem session_log_true_witness:
  "\<exists>r s. run (proxy_env (sample_server\<lparr>smtplog := Some False\<rparr>) sample_config (\<lambda>_. None))
       [Arrives 0 (''EHLO x'' @ CRLF @ ''auth plain c2VjcmV0'' @ CRLF @ ''AUTH PLAIN'' @ CRLF @ ''c2VjcmV0'' @ CRLF)]
       HandshakeFails [] [] (proxy_start sample_config [] sample_world) = Some (Some r, s) \<and>
     concat (map (\<lambda>l. l @ CRLF) (map snd (filter fst (wire_log s)))) = concat (map written (trace s)) \<and>
     list_all (\<lambda>e. fst e \<or> no_secret (snd e)) (wire_log s)"
proof -
  have "smtplog (sample_server\<lparr>smtplog := Some False\<rparr>) = Some False" by simp
  from session_log_true [OF this, of sample_config "\<lambda>_. None"
      "[Arrives 0 (''EHLO x'' @ CRLF @ ''auth plain c2VjcmV0'' @ CRLF @ ''AUTH PLAIN'' @ CRLF @ ''c2VjcmV0'' @ CRLF)]"
      HandshakeFails "[]" "[]" "[]" sample_world]
  show ?thesis unfolding simp_thms by (elim exE conjE) (intro exI conjI; assumption)
qed

end
