(* ===== verification/Command_Forms.thy ===== *)
theory Command_Forms
  imports Command
begin

text \<open>
  The commands the parser of \<open>src/src/smtp/command.rs\<close> can give, as a predicate on \<^typ>\<open>command\<close>: every \<open>String\<close> in
  one is valid UTF-8, as the type demands, and on top of that holds no CR, is not empty where it may not be, and
  consists of the characters its field allows. The rest of the program sees only such commands.
\<close>

definition wf_string :: "bytes \<Rightarrow> bool" where
  "wf_string s \<longleftrightarrow> utf8_valid s \<and> CR \<notin> set s"

definition wf_mechanism :: "bytes \<Rightarrow> bool" where
  "wf_mechanism m \<longleftrightarrow>
     1 \<le> length m \<and> length m \<le> 20 \<and> list_all mechanism_char m \<and> to_ascii_uppercase m = m"

definition wf_address :: "bytes \<Rightarrow> bool" where
  "wf_address a \<longleftrightarrow> wf_string a \<and> CHR ''>'' \<notin> set a"

fun wf_command :: "command \<Rightarrow> bool" where
  "wf_command (Ehlo d) \<longleftrightarrow> d \<noteq> [] \<and> wf_string d"
| "wf_command (Helo d) \<longleftrightarrow> d \<noteq> [] \<and> wf_string d"
| "wf_command (Vrfy d) \<longleftrightarrow> d \<noteq> [] \<and> wf_string d"
| "wf_command (Auth m i) \<longleftrightarrow>
     wf_mechanism m \<and> (case i of None \<Rightarrow> True | Some t \<Rightarrow> t \<noteq> [] \<and> wf_string t)"
| "wf_command (Mail a ps) \<longleftrightarrow> wf_address a \<and> list_all wf_param ps"
| "wf_command (Rcpt a ps) \<longleftrightarrow> wf_address a \<and> a \<noteq> [] \<and> list_all wf_param ps"
| "wf_command _ \<longleftrightarrow> True"

text \<open>The line a client writes for a command.\<close>

fun command_args :: "command \<Rightarrow> bytes option" where
  "command_args (Ehlo d) = Some d"
| "command_args (Helo d) = Some d"
| "command_args (Vrfy d) = Some d"
| "command_args (Auth m i) = Some (m @ (case i of None \<Rightarrow> [] | Some t \<Rightarrow> SP # t))"
| "command_args (Mail a ps) = Some (''FROM:<'' @ a @ ''>'' @ params_suffix ps)"
| "command_args (Rcpt a ps) = Some (''TO:<'' @ a @ ''>'' @ params_suffix ps)"
| "command_args _ = None"

definition command_line :: "command \<Rightarrow> bytes" where
  "command_line c = verb c @ (case command_args c of None \<Rightarrow> [] | Some a \<Rightarrow> SP # a) @ CRLF"


section \<open>Every parsed command is well formed\<close>

lemma wf_string_ascii_prefix: "\<forall>b \<in> set p. is_ascii b \<and> b \<noteq> CR \<Longrightarrow> wf_string (p @ s) \<longleftrightarrow> wf_string s"
  by (auto simp: wf_string_def utf8_valid_ascii_append)

lemma wf_string_split: "wf_string (s @ b # t) \<Longrightarrow> is_ascii b \<Longrightarrow> wf_string s \<and> wf_string t"
  using utf8_valid_split [of s b t] by (simp add: wf_string_def)

lemma line_parts_wf: "line_parts line v (Some a) \<Longrightarrow> wf_string a"
  by (simp add: line_parts_def wf_string_def)

lemma path_args_address:
  assumes "path_args kw ae a address ps" "wf_string a"
  shows "wf_address address \<and> list_all wf_param ps \<and> (address = [] \<longrightarrow> ae)"
proof -
  from assms(1) obtain k w t where a: "a = k @ w @ ''<'' @ address @ ''>'' @ t"
    and r: "CHR ''>'' \<notin> set address" "list_all wf_param ps" "address = [] \<longrightarrow> ae"
    by (auto simp: path_args_def)
  have "wf_string ((k @ w) @ CHR ''<'' # (address @ CHR ''>'' # t))" using assms(2) a by simp
  then have "wf_string (address @ CHR ''>'' # t)"
    using wf_string_split [of "k @ w" "CHR ''<''" "address @ CHR ''>'' # t"] by (simp add: is_ascii_def)
  then have "wf_string address" using wf_string_split [of address "CHR ''>''" t] by (simp add: is_ascii_def)
  with r show ?thesis by (simp add: wf_address_def)
qed

lemma parse_path_wf:
  assumes "parse_path args kw ae = Some (Inr (address, ps))" "list_all is_ascii kw" "\<And>a. args = Some a \<Longrightarrow> wf_string a"
  shows "wf_address address \<and> list_all wf_param ps \<and> (address = [] \<longrightarrow> ae)"
proof -
  from assms(1) obtain a where a: "args = Some a" by (cases args) (simp_all add: parse_path_None_args)
  have "wf_string a" using assms(3) a by blast
  moreover have "path_args kw ae a address ps"
    using parse_path_iff [of a kw] assms(1,2) a \<open>wf_string a\<close> by (simp add: wf_string_def)
  ultimately show ?thesis using path_args_address by blast
qed

lemma ascii_upper_mechanism: "mechanism_char b \<Longrightarrow> mechanism_char (ascii_upper b)"
  by (auto simp: mechanism_char_def byte_defs ascii_upper_def)

lemma parse_auth_wf:
  assumes "parse_auth args = Inr c" "\<And>a. args = Some a \<Longrightarrow> wf_string a"
  shows "wf_command c"
proof (cases args)
  case (Some a)
  have w: "wf_string a" using assms(2) Some .
  show ?thesis
  proof (cases "split_once SP a")
    case None
    with assms(1) Some show ?thesis
      by (auto simp: parse_auth_def Let_def wf_mechanism_def to_ascii_uppercase_idem list_all_iff to_ascii_uppercase_def
          ascii_upper_mechanism split: if_splits) 
  next
    case s: (Some p)
    then obtain m t where p: "split_once SP a = Some (m, t)" by (cases p) auto
    then have "wf_string t" using w wf_string_split [of m SP t] by (simp add: split_once_Some is_ascii_def)
    with assms(1) Some p show ?thesis
      by (auto simp: parse_auth_def Let_def wf_mechanism_def to_ascii_uppercase_idem list_all_iff to_ascii_uppercase_def
          ascii_upper_mechanism split: if_splits)
  qed
qed (use assms in \<open>simp add: parse_auth_def\<close>)

lemma command_of_wf:
  assumes "command_of v args = Some (Inr c)" and w: "\<And>a. args = Some a \<Longrightarrow> wf_string a"
  shows "wf_command c"
proof -
  have "wf_command (Mail a ps)" if "parse_path args ''FROM:'' True = Some (Inr (a, ps))" for a ps
    using parse_path_wf [OF that _ w] by (simp add: is_ascii_def)
  moreover have "wf_command (Rcpt a ps)" if "parse_path args ''TO:'' False = Some (Inr (a, ps))" for a ps
    using parse_path_wf [OF that _ w] by (simp add: is_ascii_def)
  ultimately show ?thesis using assms unfolding command_of_def
    by (elim if_eqE)
       (auto simp: nonempty_def simp del: wf_command.simps(4,5,6) split: option.splits sum.splits if_splits
         dest: parse_auth_wf)
qed

lemma parse_command_wf:
  assumes "parse_command line = Some (Inr c)"
  shows "wf_command c"
proof -
  obtain v args where l: "line_parts line v args" "command_of (to_ascii_uppercase v) args = Some (Inr c)"
    using parse_command_line_parts [OF assms] .
  then show ?thesis using line_parts_wf by (intro command_of_wf [OF l(2)]) simp
qed


section \<open>Every well-formed command is parsed\<close>

lemma params_suffix_plain:
  assumes "list_all wf_param ps"
  shows "\<forall>b \<in> set (params_suffix ps). is_ascii b \<and> b \<noteq> CR"
proof -
  have "is_ascii b \<and> b \<noteq> CR" if "wf_param p" "b \<in> set (param_text p)" for p b
    using param_text_no_ws [OF that] by (auto simp: byte_defs)
  moreover have "is_ascii SP \<and> SP \<noteq> CR" by (simp add: is_ascii_def)
  moreover have "b = SP \<or> (\<exists>p \<in> set ps. b \<in> set (param_text p))" if "b \<in> set (params_suffix ps)" for b
    using that by (auto simp: params_suffix_def split: if_splits)
  ultimately show ?thesis using assms unfolding list_all_iff by metis
qed

lemma wf_string_append: "wf_string s \<Longrightarrow> wf_string t \<Longrightarrow> wf_string (s @ t)"
  using utf8_valid_append [of s t] by (simp add: wf_string_def)

lemma wf_string_ascii: "\<forall>b \<in> set s. is_ascii b \<and> b \<noteq> CR \<Longrightarrow> wf_string s"
  using wf_string_ascii_prefix [of s "[]"] by (simp add: wf_string_def)

lemma wf_path_text:
  assumes "wf_address a" "list_all wf_param ps"
  shows "wf_string (''FROM:<'' @ a @ ''>'' @ params_suffix ps)" "wf_string (''TO:<'' @ a @ ''>'' @ params_suffix ps)"
proof -
  have "wf_string (''>'' @ params_suffix ps)"
    using params_suffix_plain [OF assms(2)] by (intro wf_string_ascii) (auto simp: is_ascii_def)
  then have "wf_string (a @ ''>'' @ params_suffix ps)" 
    using assms(1) by (intro wf_string_append [of a]) (simp_all add: wf_address_def)
  then show "wf_string (''FROM:<'' @ a @ ''>'' @ params_suffix ps)" "wf_string (''TO:<'' @ a @ ''>'' @ params_suffix ps)"
    using wf_string_ascii_prefix [of "''FROM:<''" "a @ ''>'' @ params_suffix ps"]
      wf_string_ascii_prefix [of "''TO:<''" "a @ ''>'' @ params_suffix ps"] by (simp_all add: is_ascii_def)
qed

lemma mechanism_char_plain: "mechanism_char b \<Longrightarrow> is_ascii b \<and> b \<noteq> CR \<and> b \<noteq> SP"
  by (auto simp: mechanism_char_def byte_defs)

lemma wf_command_args:
  assumes "wf_command c" "command_args c = Some a"
  shows "wf_string a"
proof (cases c)
  case (Auth m i)
  then have m: "wf_string m" using assms mechanism_char_plain
    by (intro wf_string_ascii) (auto simp: wf_mechanism_def list_all_iff)
  have "wf_string (case i of None \<Rightarrow> [] | Some t \<Rightarrow> SP # t)"
    using assms(1) Auth by (simp add: wf_string_def split: option.splits)
  then show ?thesis using assms(2) Auth wf_string_append [OF m] by auto
qed (use assms wf_path_text in auto)

lemma path_args_text:
  assumes "wf_address a" "list_all wf_param ps" "a = [] \<longrightarrow> ae"
  shows "path_args kw ae (kw @ ''<'' @ a @ ''>'' @ params_suffix ps) a ps"
proof -
  have "params_suffix ps = [] \<and> ps = [] \<or>
      (\<exists>u. params_suffix ps = SP # u \<and> split_ascii_whitespace u = map param_text ps)"
  proof (cases ps)
    case (Cons p qs)
    have "params_suffix ps = SP # tl (params_suffix ps)" by (simp add: Cons params_suffix_def)
    moreover have "split_ascii_whitespace (tl (params_suffix ps)) = map param_text ps"
      using parse_params_suffix [of p qs] assms(2) Cons by (simp add: parse_params_iff)
    ultimately show ?thesis by blast
  qed (simp add: params_suffix_def)
  moreover have "kw @ ''<'' @ a @ ''>'' @ params_suffix ps = kw @ [] @ ''<'' @ a @ ''>'' @ params_suffix ps" by simp
  moreover have "eq_ignore_ascii_case kw kw" "ws_only []" "CHR ''>'' \<notin> set a"
    using assms(1) by (simp_all add: wf_address_def eq_ignore_ascii_case_def ws_only_def)
  ultimately show ?thesis unfolding path_args_def using assms(2,3) by - (intro exI conjI; assumption)
qed

lemma parse_path_text:
  assumes "wf_address a" "list_all wf_param ps" "a = [] \<longrightarrow> ae" "list_all is_ascii kw"
    and "wf_string (kw @ ''<'' @ a @ ''>'' @ params_suffix ps)"
  shows "parse_path (Some (kw @ ''<'' @ a @ ''>'' @ params_suffix ps)) kw ae = Some (Inr (a, ps))"
  using parse_path_iff [of "kw @ ''<'' @ a @ ''>'' @ params_suffix ps" kw] path_args_text [OF assms(1-3)] assms(4,5)
  by (simp add: wf_string_def)

lemma parse_auth_text:
  assumes "wf_command (Auth m i)"
  shows "parse_auth (command_args (Auth m i)) = Inr (Auth m i)"
proof -
  have "SP \<notin> set m" using assms mechanism_char_plain by (auto simp: wf_mechanism_def list_all_iff)
  then have "split_once SP (m @ (case i of None \<Rightarrow> [] | Some t \<Rightarrow> SP # t)) = map_option (Pair m) i"
    by (cases i) (simp_all add: split_once_Some split_once_None)
  with assms show ?thesis by (cases i) (auto simp: parse_auth_def wf_mechanism_def)
qed

lemma command_of_text:
  assumes "wf_command c"
  shows "command_of (verb c) (command_args c) = Some (Inr c)"
proof (cases c)
  case (Auth m i)
  with parse_auth_text assms show ?thesis by (simp add: command_of_def del: command_args.simps)
next
  case (Mail a ps)
  then have "parse_path (Some (''FROM:'' @ ''<'' @ a @ ''>'' @ params_suffix ps)) ''FROM:'' True = Some (Inr (a, ps))"
    using assms wf_path_text(1) by (intro parse_path_text) (simp_all add: is_ascii_def)
  with Mail show ?thesis by (simp add: command_of_mail)
next
  case (Rcpt a ps)
  then have "parse_path (Some (''TO:'' @ ''<'' @ a @ ''>'' @ params_suffix ps)) ''TO:'' False = Some (Inr (a, ps))"
    using assms wf_path_text(2) by (intro parse_path_text) (simp_all add: is_ascii_def)
  with Rcpt show ?thesis by (simp add: command_of_rcpt)
qed (use assms in \<open>simp_all add: command_of_def nonempty_def\<close>)

lemma parse_command_line:
  assumes "wf_command c"
  shows "parse_command (command_line c) = Some (Inr c)"
proof -
  have "line_parts (command_line c) (verb c) (command_args c)"
    using wf_command_args [OF assms] verb_upper(2,3)
    by (simp add: line_parts_def command_line_def wf_string_def split: option.split)
  from parse_command_parts [OF this] show ?thesis using command_of_text [OF assms] verb_upper(1) by simp
qed

text \<open>
  C32. The type of a parsed command: some line is parsed to a command exactly when the command is well formed, that
  is when its strings are valid UTF-8 without CR, its addresses hold no closing bracket and are not empty in \<open>RCPT\<close>,
  its mechanism is one to twenty upper-case characters, its parameters are those of RFC 5321, and no
  string is empty that may not be. So the rest of the program need not expect any other, and none is out
  of reach of a client.
\<close>

theorem parse_command_type: "(\<exists>line. parse_command line = Some (Inr c)) \<longleftrightarrow> wf_command c"
  using parse_command_wf parse_command_line by metis

end
