(* ===== verification/Net_Addr.thy ===== *)
theory Net_Addr
  imports Prelude "HOL-Library.Word"
begin

unbundle bit_operations_syntax

text \<open>
  Addresses, and the parsers of \<open>std::net\<close> that \<open>parse_listen\<close> of \<open>src/src/config.rs\<close> uses. A reader of the
  standard library's parser takes a string and gives a value with the rest, or \<^const>\<open>None\<close>, where the
  parser is put back to where it was.
\<close>

section \<open>Addresses\<close>

datatype ip_addr = V4 "32 word" | V6 "128 word"

record socket_addr =
  sa_ip :: ip_addr
  sa_port :: "16 word"

text \<open>An address to listen on may name the interface of a link-local address.\<close>

record listen_addr = socket_addr +
  sa_scope :: "32 word"

definition socket_addr_new :: "ip_addr \<Rightarrow> nat \<Rightarrow> listen_addr" where
  "socket_addr_new ip p = \<lparr>sa_ip = ip, sa_port = of_nat p, sa_scope = 0\<rparr>"


section \<open>The readers of the standard library\<close>

definition to_digit :: "nat \<Rightarrow> byte \<Rightarrow> nat option" where
  "to_digit radix b =
     (let d = (if is_ascii_digit b then ord b - 0x30
               else if in_range 0x61 0x66 b then ord b - 0x61 + 10
               else if in_range 0x41 0x46 b then ord b - 0x41 + 10 else 36)
      in if d < radix then Some d else None)"

definition digits_value :: "nat \<Rightarrow> bytes \<Rightarrow> nat" where
  "digits_value radix ds = foldl (\<lambda>n b. radix * n + the (to_digit radix b)) 0 ds"

definition read_number :: "nat \<Rightarrow> nat option \<Rightarrow> bool \<Rightarrow> nat \<Rightarrow> bytes \<Rightarrow> (nat \<times> bytes) option" where
  "read_number radix max_digits allow_zero_prefix bits s =
     (let ds = takeWhile (\<lambda>b. to_digit radix b \<noteq> None) s
      in if ds = [] \<or> (case max_digits of Some m \<Rightarrow> m < length ds | None \<Rightarrow> False) \<or>
            (\<not> allow_zero_prefix \<and> hd ds = CHR ''0'' \<and> 1 < length ds) \<or> 2 ^ bits \<le> digits_value radix ds
         then None else Some (digits_value radix ds, drop (length ds) s))"

definition read_given_char :: "byte \<Rightarrow> bytes \<Rightarrow> bytes option" where
  "read_given_char c s = (case s of b # r \<Rightarrow> if b = c then Some r else None | [] \<Rightarrow> None)"

definition read_separator :: "byte \<Rightarrow> nat \<Rightarrow> (bytes \<Rightarrow> ('a \<times> bytes) option) \<Rightarrow> bytes \<Rightarrow> ('a \<times> bytes) option" where
  "read_separator sep i inner s =
     (if 0 < i then (case read_given_char sep s of None \<Rightarrow> None | Some r \<Rightarrow> inner r) else inner s)"

fun read_octets :: "nat \<Rightarrow> nat \<Rightarrow> bytes \<Rightarrow> (nat list \<times> bytes) option" where
  "read_octets n i s =
     (if n = 0 then Some ([], s)
      else case read_separator CHR ''.'' i (read_number 10 (Some 3) False 8) s of
             None \<Rightarrow> None
           | Some (g, r) \<Rightarrow> map_option (\<lambda>(gs, t). (g # gs, t)) (read_octets (n - 1) (i + 1) r))"

declare read_octets.simps [simp del]

definition from_parts :: "nat \<Rightarrow> nat list \<Rightarrow> nat" where
  "from_parts base gs = foldl (\<lambda>n g. base * n + g) 0 gs"

definition read_ipv4_addr :: "bytes \<Rightarrow> (32 word \<times> bytes) option" where
  "read_ipv4_addr s = map_option (\<lambda>(gs, r). (of_nat (from_parts 256 gs), r)) (read_octets 4 0 s)"

text \<open>\<open>read_groups\<close> with \<open>n\<close> places left: the groups, whether they end in an IPv4 address, the rest.\<close>

fun read_groups :: "nat \<Rightarrow> nat \<Rightarrow> bytes \<Rightarrow> nat list \<times> bool \<times> bytes" where
  "read_groups n i s =
     (if n = 0 then ([], False, s)
      else case (if 1 < n then read_separator CHR '':'' i read_ipv4_addr s else None) of
             Some (v4, r) \<Rightarrow> ([unat v4 div 65536, unat v4 mod 65536], True, r)
           | None \<Rightarrow>
               (case read_separator CHR '':'' i (read_number 16 (Some 4) True 16) s of
                  None \<Rightarrow> ([], False, s)
                | Some (g, r) \<Rightarrow> (case read_groups (n - 1) (i + 1) r of (gs, v, t) \<Rightarrow> (g # gs, v, t))))"

declare read_groups.simps [simp del]

definition read_ipv6_addr :: "bytes \<Rightarrow> (128 word \<times> bytes) option" where
  "read_ipv6_addr s =
     (case read_groups 8 0 s of
        (head, head_ipv4, r) \<Rightarrow>
          if length head = 8 then Some (of_nat (from_parts 65536 head), r)
          else if head_ipv4 then None
          else case read_given_char CHR '':'' r of
                 None \<Rightarrow> None
               | Some r1 \<Rightarrow>
                   (case read_given_char CHR '':'' r1 of
                      None \<Rightarrow> None
                    | Some r2 \<Rightarrow>
                        (case read_groups (8 - (length head + 1)) 0 r2 of
                           (tail, _, t) \<Rightarrow>
                             Some (of_nat (from_parts 65536
                                     (head @ replicate (8 - length head - length tail) 0 @ tail)), t))))"

definition read_ip_addr :: "bytes \<Rightarrow> (ip_addr \<times> bytes) option" where
  "read_ip_addr s =
     (case read_ipv4_addr s of
        Some (a, r) \<Rightarrow> Some (V4 a, r)
      | None \<Rightarrow> map_option (\<lambda>(a, r). (V6 a, r)) (read_ipv6_addr s))"

definition read_port :: "bytes \<Rightarrow> (nat \<times> bytes) option" where
  "read_port s =
     (case read_given_char CHR '':'' s of None \<Rightarrow> None | Some r \<Rightarrow> read_number 10 None True 16 r)"

definition read_scope_id :: "bytes \<Rightarrow> nat \<times> bytes" where
  "read_scope_id s =
     (case read_given_char CHR ''%'' s of
        None \<Rightarrow> (0, s)
      | Some r \<Rightarrow> (case read_number 10 None True 32 r of None \<Rightarrow> (0, s) | Some (n, t) \<Rightarrow> (n, t)))"

definition read_socket_addr_v4 :: "bytes \<Rightarrow> (listen_addr \<times> bytes) option" where
  "read_socket_addr_v4 s =
     (case read_ipv4_addr s of
        None \<Rightarrow> None
      | Some (a, r) \<Rightarrow> map_option (\<lambda>(p, t). (socket_addr_new (V4 a) p, t)) (read_port r))"

definition read_socket_addr_v6 :: "bytes \<Rightarrow> (listen_addr \<times> bytes) option" where
  "read_socket_addr_v6 s =
     (case read_given_char CHR ''['' s of
        None \<Rightarrow> None
      | Some r \<Rightarrow>
          (case read_ipv6_addr r of
             None \<Rightarrow> None
           | Some (a, r1) \<Rightarrow>
               (case read_scope_id r1 of
                  (scope, r2) \<Rightarrow>
                    (case read_given_char CHR '']'' r2 of
                       None \<Rightarrow> None
                     | Some r3 \<Rightarrow>
                         map_option (\<lambda>(p, t). ((socket_addr_new (V6 a) p)\<lparr>sa_scope := of_nat scope\<rparr>, t))
                           (read_port r3)))))"

definition parse_with :: "(bytes \<Rightarrow> ('a \<times> bytes) option) \<Rightarrow> bytes \<Rightarrow> 'a option" where
  "parse_with inner s = (case inner s of Some (a, []) \<Rightarrow> Some a | _ \<Rightarrow> None)"

definition parse_socket_addr :: "bytes \<Rightarrow> listen_addr option" where
  "parse_socket_addr s =
     parse_with (\<lambda>t. case read_socket_addr_v4 t of Some x \<Rightarrow> Some x | None \<Rightarrow> read_socket_addr_v6 t) s"

definition parse_ip_addr :: "bytes \<Rightarrow> ip_addr option" where
  "parse_ip_addr s = parse_with read_ip_addr s"


section \<open>The address to listen on\<close>

definition rsplit_once :: "byte \<Rightarrow> bytes \<Rightarrow> (bytes \<times> bytes) option" where
  "rsplit_once c s =
     (case split_once c (rev s) of None \<Rightarrow> None | Some (a, b) \<Rightarrow> Some (rev b, rev a))"

definition trim_matches :: "(byte \<Rightarrow> bool) \<Rightarrow> bytes \<Rightarrow> bytes" where
  "trim_matches P s = trim_end_matches P (dropWhile P s)"

definition parse_listen :: "bytes \<Rightarrow> bytes + listen_addr" where
  "parse_listen s =
     (case parse_socket_addr s of
        Some addr \<Rightarrow> Inr addr
      | None \<Rightarrow>
          (case rsplit_once CHR '':'' s of
             None \<Rightarrow> Inl (''Could not parse '' @ s)
           | Some (h, p) \<Rightarrow>
               (case parse_uint 16 p of
                  None \<Rightarrow> Inl (''Could not parse '' @ s)
                | Some port \<Rightarrow>
                    (case parse_ip_addr (trim_matches (\<lambda>b. b = CHR ''['' \<or> b = CHR '']'') h) of
                       None \<Rightarrow> Inl (''Could not parse '' @ s)
                     | Some ip \<Rightarrow> Inr (socket_addr_new ip port)))))"


section \<open>Addresses written out are read back\<close>

fun to_parts :: "nat \<Rightarrow> nat \<Rightarrow> nat \<Rightarrow> nat list" where
  "to_parts base n x = (if n = 0 then [] else to_parts base (n - 1) (x div base) @ [x mod base])"

declare to_parts.simps [simp del]

lemma to_parts_0 [simp]: "to_parts base 0 x = []"
  and to_parts_Suc [simp]: "to_parts base (Suc n) x = to_parts base n (x div base) @ [x mod base]"
  by (simp_all add: to_parts.simps)

lemma length_to_parts [simp]: "length (to_parts base n x) = n"
  by (induction n arbitrary: x) simp_all

lemma to_parts_less: "0 < base \<Longrightarrow> g \<in> set (to_parts base n x) \<Longrightarrow> g < base"
  by (induction n arbitrary: x) auto

lemma from_parts_snoc [simp]: "from_parts base (gs @ [g]) = base * from_parts base gs + g"
  and from_parts_Nil [simp]: "from_parts base [] = 0"
  by (simp_all add: from_parts_def)

lemma from_to_parts: "x < base ^ n \<Longrightarrow> from_parts base (to_parts base n x) = x"
proof (induction n arbitrary: x)
  case (Suc n)
  then have "x div base < base ^ n" by (simp add: less_mult_imp_div_less mult.commute)
  then show ?case using Suc.IH by simp
qed simp

text \<open>Pieces with a separator before each but the first.\<close>

fun separated :: "byte \<Rightarrow> nat \<Rightarrow> bytes list \<Rightarrow> bytes" where
  "separated c i [] = []"
| "separated c i (p # ps) = (if 0 < i then [c] else []) @ p @ separated c (Suc i) ps"

definition hex_char :: "nat \<Rightarrow> byte" where
  "hex_char d = (if d < 10 then char_of (0x30 + d) else char_of (0x61 + (d - 10)))"

definition show_group :: "nat \<Rightarrow> bytes" where
  "show_group g = map hex_char (to_parts 16 4 g)"

definition show_v4 :: "32 word \<Rightarrow> bytes" where
  "show_v4 a = separated CHR ''.'' 0 (map show_nat (to_parts 256 4 (unat a)))"

definition show_v6 :: "128 word \<Rightarrow> bytes" where
  "show_v6 a = separated CHR '':'' 0 (map show_group (to_parts 65536 8 (unat a)))"

lemma read_number_digits:
  assumes "ds \<noteq> []" "\<forall>b \<in> set ds. to_digit radix b \<noteq> None" "r = [] \<or> to_digit radix (hd r) = None"
    "case max_digits of Some m \<Rightarrow> length ds \<le> m | None \<Rightarrow> True" "z \<or> hd ds \<noteq> CHR ''0'' \<or> length ds = 1"
    "digits_value radix ds < 2 ^ bits"
  shows "read_number radix max_digits z bits (ds @ r) = Some (digits_value radix ds, r)"
proof -
  have "takeWhile (\<lambda>b. to_digit radix b \<noteq> None) (ds @ r) = ds"
    using assms(2,3) by (cases r) (auto simp: takeWhile_append)
  moreover have "\<not> (case max_digits of Some m \<Rightarrow> m < length ds | None \<Rightarrow> False)"
    using assms(4) by (cases max_digits) simp_all
  moreover have "\<not> (\<not> z \<and> hd ds = CHR ''0'' \<and> 1 < length ds)" using assms(5) by auto
  ultimately show ?thesis using assms(1,6) unfolding read_number_def by (simp add: Let_def)
qed

lemma to_digit_10: "to_digit 10 b = (if is_ascii_digit b then Some (digit_val b) else None)"
  by (auto simp: to_digit_def digit_val_def byte_defs Let_def)

lemma digits_value_10:
  assumes "\<forall>b \<in> set ds. is_ascii_digit b"
  shows "digits_value 10 ds = nat_of_digits ds"
  unfolding digits_value_def nat_of_digits_def using assms by (intro foldl_cong) (simp_all add: to_digit_10)

lemma show_nat_head: "10 \<le> n \<Longrightarrow> hd (show_nat n) \<noteq> CHR ''0''"
proof (induction n rule: show_nat.induct)
  case (1 n)
  show ?case
  proof (cases "n div 10 < 10")
    case True
    have "ord (digit_char (n div 10)) \<noteq> ord (CHR ''0'')" using True 1(2) by (simp add: ord_digit_char)
    then have "digit_char (n div 10) \<noteq> CHR ''0''" by metis
    then show ?thesis using True 1(2) by (simp add: show_nat.simps [of n] show_nat.simps [of "n div 10"])
  next
    case False
    then show ?thesis using 1 by (simp add: show_nat.simps [of n])
  qed
qed

lemma length_show_nat_le: "n < 1000 \<Longrightarrow> length (show_nat n) \<le> 3"
  by (simp add: show_nat.simps [of n] show_nat.simps [of "n div 10"] show_nat.simps [of "n div 10 div 10"])

lemma length_show_nat_1: "n < 10 \<Longrightarrow> length (show_nat n) = 1"
  by (simp add: show_nat.simps [of n])

lemma read_number_show:
  assumes "n < 2 ^ bits" "r = [] \<or> \<not> is_ascii_digit (hd r)" "m = None \<or> m = Some 3 \<and> n < 1000"
  shows "read_number 10 m z bits (show_nat n @ r) = Some (n, r)"
proof -
  have d: "\<forall>b \<in> set (show_nat n). is_ascii_digit b" by (rule show_nat_digits)
  then have v: "digits_value 10 (show_nat n) = n" using digits_value_10 nat_of_digits_show by simp
  have "read_number 10 m z bits (show_nat n @ r) = Some (digits_value 10 (show_nat n), r)"
  proof (rule read_number_digits)
    show "case m of Some k \<Rightarrow> length (show_nat n) \<le> k | None \<Rightarrow> True"
      using assms(3) length_show_nat_le [of n] by (auto split: option.splits)
    show "z \<or> hd (show_nat n) \<noteq> CHR ''0'' \<or> length (show_nat n) = 1"
      using show_nat_head [of n] length_show_nat_1 [of n] by linarith
    show "r = [] \<or> to_digit 10 (hd r) = None" using assms(2) by (auto simp: to_digit_10)
  qed (use assms(1) d v in \<open>simp_all add: to_digit_10\<close>)
  then show ?thesis by (simp only: v)
qed

lemma read_octets_show:
  assumes "\<forall>g \<in> set gs. g < 256" "r = [] \<or> \<not> is_ascii_digit (hd r)"
  shows "read_octets (length gs) i (separated CHR ''.'' i (map show_nat gs) @ r) = Some (gs, r)"
  using assms(1)
proof (induction gs arbitrary: i)
  case Nil
  then show ?case by (simp add: read_octets.simps)
next
  case (Cons g gs)
  let ?t = "separated CHR ''.'' (Suc i) (map show_nat gs) @ r"
  have "?t = [] \<or> \<not> is_ascii_digit (hd ?t)" using assms(2) by (cases gs) (simp_all add: byte_defs)
  then have "read_number 10 (Some 3) False 8 (show_nat g @ ?t) = Some (g, ?t)"
    using Cons.prems by (intro read_number_show) simp_all
  moreover have "read_octets (length gs) (Suc i) ?t = Some (gs, r)" using Cons by simp
  ultimately show ?case
    by (cases "i = 0") (simp_all add: read_octets.simps [of "Suc (length gs)"] read_separator_def read_given_char_def)
qed

lemma read_ipv4_show:
  assumes "r = [] \<or> \<not> is_ascii_digit (hd r)"
  shows "read_ipv4_addr (show_v4 a @ r) = Some (a, r)"
proof -
  let ?gs = "to_parts 256 4 (unat a)"
  have "read_octets (length ?gs) 0 (separated CHR ''.'' 0 (map show_nat ?gs) @ r) = Some (?gs, r)"
    using assms to_parts_less [of 256] by (intro read_octets_show) auto
  moreover have "unat a < 2 ^ LENGTH(32)" by (rule unsigned_less)
  then have "from_parts 256 ?gs = unat a" by (intro from_to_parts) simp
  ultimately show ?thesis by (simp add: read_ipv4_addr_def show_v4_def)
qed

lemma read_ipv4_no_dot:
  assumes "CHR ''.'' \<notin> set s"
  shows "read_ipv4_addr s = None"
proof -
  have "read_octets 3 1 r = None" if "CHR ''.'' \<notin> set r" for r
    using that by (subst read_octets.simps) (auto simp: read_separator_def read_given_char_def split: list.splits)
  moreover have "CHR ''.'' \<notin> set r" if "read_number 10 (Some 3) False 8 s = Some (g, r)" for g r
    using that assms in_set_dropD by (fastforce simp: read_number_def Let_def split: if_splits)
  ultimately have "read_octets 4 0 s = None"
    by (subst read_octets.simps) (auto simp: read_separator_def split: option.splits)
  then show ?thesis by (simp add: read_ipv4_addr_def)
qed


lemma to_digit_hex_char: "d < 16 \<Longrightarrow> to_digit 16 (hex_char d) = Some d"
  by (auto simp: hex_char_def to_digit_def byte_defs Let_def)

lemma hex_char_set: "d < 16 \<Longrightarrow> hex_char d \<in> set ''0123456789abcdef''"
proof -
  assume "d < 16"
  then have "d \<in> set [0 ..< 16]" by simp
  moreover have "list_all (\<lambda>d. hex_char d \<in> set ''0123456789abcdef'') [0 ..< 16]" by code_simp
  ultimately show ?thesis by (simp only: list_all_iff)
qed

lemma digits_value_hex: "\<forall>d \<in> set ds. d < 16 \<Longrightarrow> digits_value 16 (map hex_char ds) = from_parts 16 ds"
  by (induction ds rule: rev_induct) (simp_all add: digits_value_def to_digit_hex_char)

text \<open>
  The spellings of an IPv6 address: groups of one to four hexadecimal digits in either case with colons between, eight of
  them, or fewer with one \<open>::\<close> that stands for the zeros left out, wherever it is.
\<close>

definition group_text :: "bytes \<Rightarrow> bool" where
  "group_text t \<longleftrightarrow> t \<noteq> [] \<and> length t \<le> 4 \<and> (\<forall>b \<in> set t. to_digit 16 b \<noteq> None)"

definition groups_text :: "bytes list \<Rightarrow> bytes" where
  "groups_text ts = separated CHR '':'' 0 ts"

definition v6_value :: "nat list \<Rightarrow> 128 word" where
  "v6_value gs = of_nat (from_parts 65536 gs)"

definition v6_text :: "bytes \<Rightarrow> 128 word \<Rightarrow> bool" where
  "v6_text s a \<longleftrightarrow>
     (\<exists>ts. list_all group_text ts \<and> length ts = 8 \<and> s = groups_text ts \<and> a = v6_value (map (digits_value 16) ts)) \<or>
     (\<exists>us ts. list_all group_text (us @ ts) \<and> length us + length ts \<le> 7 \<and> s = groups_text us @ ''::'' @ groups_text ts \<and>
        a = v6_value (map (digits_value 16) us @ replicate (8 - length us - length ts) 0 @ map (digits_value 16) ts))"

lemma group_value_less: "group_text t \<Longrightarrow> digits_value 16 t < 65536"
proof -
  have d: "the (to_digit 16 b) < 16" if "to_digit 16 b \<noteq> None" for b
    using that by (auto simp: to_digit_def Let_def split: if_splits)
  have "(\<forall>b \<in> set t. to_digit 16 b \<noteq> None) \<Longrightarrow> digits_value 16 t < 16 ^ length t"
  proof (induction t rule: rev_induct)
    case (snoc b t)
    then have "digits_value 16 t < 16 ^ length t" "the (to_digit 16 b) < 16" using d by simp_all
    then show ?case by (simp add: digits_value_def)
  qed (simp add: digits_value_def)
  moreover assume "group_text t"
  moreover then have "(16 :: nat) ^ length t \<le> 16 ^ 4" by (intro power_increasing) (simp_all add: group_text_def)
  ultimately show ?thesis by (simp add: group_text_def)
qed

lemma read_number_group:
  assumes "group_text t" "r = [] \<or> to_digit 16 (hd r) = None"
  shows "read_number 16 (Some 4) True 16 (t @ r) = Some (digits_value 16 t, r)"
  using assms group_value_less [OF assms(1)] by (intro read_number_digits) (simp_all add: group_text_def)

lemma read_number_none: "s = [] \<or> to_digit radix (hd s) = None \<Longrightarrow> read_number radix m z bits s = None"
  by (cases s) (simp_all add: read_number_def)

text \<open>Where no group comes any more, with or without a colon in front of it.\<close>

definition no_group :: "bytes \<Rightarrow> bool" where
  "no_group r \<longleftrightarrow> (r = [] \<or> to_digit 16 (hd r) = None) \<and>
     (\<forall>t. r = CHR '':'' # t \<longrightarrow> t = [] \<or> to_digit 16 (hd t) = None)"

lemma read_separator_none:
  "no_group r \<Longrightarrow> read_separator CHR '':'' i (read_number 16 (Some 4) True 16) r = None"
  by (cases r) (auto simp: read_separator_def read_given_char_def no_group_def read_number_none)

lemma read_separator_v4_none:
  assumes "CHR ''.'' \<notin> set r"
  shows "read_separator c i read_ipv4_addr r = None"
  using assms by (cases r) (auto simp: read_separator_def read_given_char_def read_ipv4_no_dot)

lemma group_no_dot: "group_text t \<Longrightarrow> CHR ''.'' \<notin> set t"
  by (auto simp: group_text_def to_digit_def byte_defs Let_def dest!: bspec)

lemma read_groups_texts:
  assumes "list_all group_text ts" "length ts \<le> n" "length ts = n \<or> no_group r"
    and "r = [] \<or> to_digit 16 (hd r) = None" "CHR ''.'' \<notin> set r"
  shows "read_groups n i (separated CHR '':'' i ts @ r) = (map (digits_value 16) ts, False, r) \<and>
    CHR ''.'' \<notin> set (separated CHR '':'' i ts)"
  using assms(1-3)
proof (induction ts arbitrary: i n)
  case Nil
  then show ?case using read_separator_v4_none [OF assms(5)] read_separator_none [of r]
    by (subst read_groups.simps) (auto split: option.split)
next
  case (Cons t ts)
  obtain m where n: "n = Suc m" using Cons.prems(2) by (cases n) simp_all
  define q where "q = separated CHR '':'' (Suc i) ts @ r"
  have "q = [] \<or> to_digit 16 (hd q) = None"
    using assms(4) unfolding q_def by (cases ts) (simp_all add: to_digit_def byte_defs)
  then have g: "read_number 16 (Some 4) True 16 (t @ q) = Some (digits_value 16 t, q)"
    using Cons.prems by (intro read_number_group) simp_all
  have d: "CHR ''.'' \<notin> set t" using Cons.prems group_no_dot by simp
  have IH: "read_groups m (Suc i) q = (map (digits_value 16) ts, False, r)"
    "CHR ''.'' \<notin> set (separated CHR '':'' (Suc i) ts)" using Cons n unfolding q_def by auto
  then have "read_ipv4_addr (t @ q) = None" using d assms(5) by (intro read_ipv4_no_dot) (simp add: q_def)
  then have "read_groups n i ((if 0 < i then [CHR '':''] else []) @ t @ q) = (digits_value 16 t # map (digits_value 16) ts, False, r)"
    using g IH(1) unfolding n
    by (subst read_groups.simps) (cases "i = 0"; cases "m = 0"; simp add: read_separator_def read_given_char_def)
  then show ?case using IH(2) d unfolding q_def by (cases "i = 0") simp_all
qed

lemma no_group_double: "no_group (CHR '':'' # CHR '':'' # s)"
  by (simp add: no_group_def to_digit_def byte_defs)

lemma read_ipv6_text:
  assumes "v6_text s a" "r = [] \<or> to_digit 16 (hd r) = None \<and> hd r \<noteq> CHR '':''" "CHR ''.'' \<notin> set r"
  shows "read_ipv6_addr (s @ r) = Some (a, r)" "CHR ''.'' \<notin> set s"
proof -
  have r: "r = [] \<or> to_digit 16 (hd r) = None" "no_group r" using assms(2) by (auto simp: no_group_def)
  have "read_ipv6_addr (s @ r) = Some (a, r) \<and> CHR ''.'' \<notin> set s"
    using assms(1) unfolding v6_text_def
  proof (elim disjE exE conjE)
    fix ts assume ts: "list_all group_text ts" "length ts = 8" "s = groups_text ts" "a = v6_value (map (digits_value 16) ts)"
    note g = read_groups_texts [OF ts(1), of 8 r 0]
    then show ?thesis using ts r assms(3) by (simp add: read_ipv6_addr_def groups_text_def v6_value_def)
  next
    fix us ts assume u: "list_all group_text (us @ ts)" "length us + length ts \<le> 7" "s = groups_text us @ ''::'' @ groups_text ts"
      "a = v6_value (map (digits_value 16) us @ replicate (8 - length us - length ts) 0 @ map (digits_value 16) ts)"
    have t: "read_groups (8 - (length us + 1)) 0 (groups_text ts @ r) = (map (digits_value 16) ts, False, r)"
      "CHR ''.'' \<notin> set (groups_text ts)"
      using read_groups_texts [of ts "8 - (length us + 1)" r 0] u(1,2) r assms(3) by (simp_all add: groups_text_def)
    have h: "read_groups 8 0 (groups_text us @ ''::'' @ groups_text ts @ r) = (map (digits_value 16) us, False, ''::'' @ groups_text ts @ r)"
      "CHR ''.'' \<notin> set (groups_text us)"
      using read_groups_texts [of us 8 "''::'' @ groups_text ts @ r" 0] no_group_double [of "groups_text ts @ r"] u(1,2) t(2) assms(3)
      by (simp_all add: groups_text_def to_digit_def byte_defs)
    then show ?thesis using t u by (simp add: read_ipv6_addr_def read_given_char_def v6_value_def)
  qed
  then show "read_ipv6_addr (s @ r) = Some (a, r)" "CHR ''.'' \<notin> set s" by simp_all
qed

lemma set_separated: "set (separated c i ps) \<subseteq> insert c (\<Union> (set (map set ps)))"
proof (induction ps arbitrary: i)
  case (Cons p ps)
  then show ?case using Cons.IH [of "Suc i"] by auto
qed simp

lemma group_chars: "group_text t \<Longrightarrow> b \<in> set t \<Longrightarrow> b \<notin> set ''.[]%''"
proof -
  have "to_digit 16 b = None" if "b \<in> set ''.[]%''" using that by (auto simp: to_digit_def byte_defs Let_def)
  then show "group_text t \<Longrightarrow> b \<in> set t \<Longrightarrow> b \<notin> set ''.[]%''" by (auto simp: group_text_def)
qed

lemma groups_chars: "list_all group_text ts \<Longrightarrow> b \<in> set (groups_text ts) \<Longrightarrow> b \<notin> set ''.[]%''"
  using set_separated [of "CHR '':''" 0 ts] group_chars unfolding groups_text_def list_all_iff by fastforce

lemma v6_chars: "v6_text s a \<Longrightarrow> b \<in> set s \<Longrightarrow> b \<notin> set ''.[]%''"
  unfolding v6_text_def using groups_chars by fastforce

lemma v6_text_nonempty: "v6_text s a \<Longrightarrow> s \<noteq> []"
proof -
  have "groups_text ts \<noteq> []" if "list_all group_text ts" "length ts = 8" for ts
    using that by (cases ts) (auto simp: groups_text_def group_text_def)
  then show "v6_text s a \<Longrightarrow> s \<noteq> []" unfolding v6_text_def by force
qed

text \<open>Every address has a spelling: its eight groups, here with all their digits.\<close>

lemma v6_text_show: "v6_text (show_v6 a) a"
proof -
  let ?gs = "to_parts 65536 8 (unat a)"
  have g: "group_text (show_group g) \<and> digits_value 16 (show_group g) = g" if "g < 65536" for g
  proof -
    have l: "\<forall>d \<in> set (to_parts 16 4 g). d < 16" by (simp add: to_parts_less)
    have "length (show_group g) = 4" by (simp add: show_group_def)
    then show ?thesis
      using digits_value_hex [OF l] from_to_parts [of g 16 4] that l
      by (auto simp: show_group_def group_text_def to_digit_hex_char simp flip: length_0_conv)
  qed
  have all: "\<forall>g \<in> set ?gs. g < 65536" using to_parts_less [of 65536] by auto
  have "map (digits_value 16) (map show_group ?gs) = ?gs" using g all by (simp add: map_idI)
  moreover have "unat a < 2 ^ LENGTH(128)" by (rule unsigned_less)
  then have "from_parts 65536 ?gs = unat a" by (intro from_to_parts) simp
  ultimately have v: "v6_value (map (digits_value 16) (map show_group ?gs)) = a" by (simp only: v6_value_def) simp
  have "list_all group_text (map show_group ?gs)" using g all by (simp add: list_all_iff)
  then show ?thesis unfolding v6_text_def
    using v by (intro disjI1 exI [of _ "map show_group ?gs"]) (simp add: show_v6_def groups_text_def)
qed

lemma read_port_show: "n < 65536 \<Longrightarrow> read_port (CHR '':'' # show_nat n) = Some (n, [])"
  using read_number_show [of n 16 "[]" None True] by (simp add: read_port_def read_given_char_def)


lemma rsplit_once_Some: "c \<notin> set b \<Longrightarrow> rsplit_once c (a @ c # b) = Some (a, b)"
proof -
  assume "c \<notin> set b"
  then have "split_once c (rev b @ c # rev a) = Some (rev b, rev a)" by (subst split_once_Some) simp
  then show ?thesis by (simp add: rsplit_once_def)
qed

lemma trim_matches_id: "\<forall>b \<in> set s. \<not> P b \<Longrightarrow> trim_matches P s = s"
proof -
  assume "\<forall>b \<in> set s. \<not> P b"
  then have "dropWhile P s = s" "dropWhile P (rev s) = rev s" unfolding dropWhile_eq_self_iff
    using last_in_set [of s] by (auto simp: hd_rev)
  then show ?thesis by (simp add: trim_matches_def trim_end_matches_def)
qed

lemma parse_listen_v4: "p < 65536 \<Longrightarrow> parse_listen (show_v4 a @ CHR '':'' # show_nat p) = Inr (socket_addr_new (V4 a) p)"
proof -
  assume p: "p < 65536"
  have "read_ipv4_addr (show_v4 a @ CHR '':'' # show_nat p) = Some (a, CHR '':'' # show_nat p)"
    by (rule read_ipv4_show) (simp add: byte_defs)
  then show ?thesis
    using read_port_show [OF p] by (simp add: parse_listen_def parse_socket_addr_def parse_with_def read_socket_addr_v4_def)
qed

lemma show_nat_avoids: "\<not> is_ascii_digit b \<Longrightarrow> b \<notin> set (show_nat n)"
  using show_nat_digits by blast

lemma parse_listen_v6_brackets:
  assumes "v6_text s a" "p < 65536"
  shows "parse_listen (CHR ''['' # s @ CHR '']'' # CHR '':'' # show_nat p) = Inr (socket_addr_new (V6 a) p)"
proof -
  let ?r = "CHR '']'' # CHR '':'' # show_nat p"
  have n: "CHR ''.'' \<notin> set ?r" using show_nat_avoids [of "CHR ''.''" p] by (simp add: byte_defs)
  have a: "read_ipv6_addr (s @ ?r) = Some (a, ?r)" "CHR ''.'' \<notin> set s"
    using read_ipv6_text [OF assms(1), of ?r] n by (simp_all add: to_digit_def byte_defs)
  then have "read_socket_addr_v6 (CHR ''['' # s @ ?r) = Some (socket_addr_new (V6 a) p, [])"
    using read_port_show [OF assms(2)]
    by (simp add: read_socket_addr_v6_def read_given_char_def read_scope_id_def socket_addr_new_def)
  moreover have "read_ipv4_addr (CHR ''['' # s @ ?r) = None" using n a(2) by (intro read_ipv4_no_dot) simp
  ultimately show ?thesis
    by (simp add: parse_listen_def parse_socket_addr_def parse_with_def read_socket_addr_v4_def)
qed

lemma parse_listen_v6_bare:
  assumes "v6_text s a" "p < 65536"
  shows "parse_listen (s @ CHR '':'' # show_nat p) = Inr (socket_addr_new (V6 a) p)"
proof -
  let ?s = "s @ CHR '':'' # show_nat p"
  note c = v6_chars [OF assms(1)]
  have nd: "CHR ''.'' \<notin> set ?s" using show_nat_avoids [of "CHR ''.''" p] c by (auto simp: byte_defs)
  have "hd s \<noteq> CHR ''[''" using c [of "hd s"] v6_text_nonempty [OF assms(1)] hd_in_set by auto
  then have "read_socket_addr_v6 ?s = None"
    using v6_text_nonempty [OF assms(1)] by (cases s) (simp_all add: read_socket_addr_v6_def read_given_char_def)
  then have none: "parse_socket_addr ?s = None"
    using read_ipv4_no_dot [OF nd] by (simp add: parse_socket_addr_def parse_with_def read_socket_addr_v4_def)
  have split: "rsplit_once CHR '':'' ?s = Some (s, show_nat p)"
    using show_nat_avoids [of "CHR '':''" p] by (intro rsplit_once_Some) (simp add: byte_defs)
  have "trim_matches (\<lambda>b. b = CHR ''['' \<or> b = CHR '']'') s = s"
    using c by (intro trim_matches_id) auto
  moreover have "parse_ip_addr s = Some (V6 a)"
    using read_ipv6_text(1) [OF assms(1), of "[]"] read_ipv4_no_dot [of s] nd
    by (simp add: parse_ip_addr_def parse_with_def read_ip_addr_def)
  ultimately show ?thesis using none split parse_uint_show [of p 16] assms(2) by (simp add: parse_listen_def)
qed

text \<open>
  C29. \<open>--listen\<close> takes an address in each form that is documented: an IPv4 address with a port, an IPv6 address
  in brackets with a port, and an IPv6 address with a port and no brackets, the port being what is
  behind the last colon. The IPv6 address may be spelled in every way with hexadecimal groups, shortened
  by \<open>::\<close> or not, in either case (\<open>[::1]:25\<close> and \<open>::1:25\<close> as well as \<open>fe80:0:0:0:0:0:0:A:25\<close>).
  Each is read as the address and the port that were written.
\<close>

theorem parse_listen_forms:
  assumes "v6_text s a"
  shows
   "parse_listen (show_v4 v @ '':'' @ show_nat (unat p)) = Inr \<lparr>sa_ip = V4 v, sa_port = p, sa_scope = 0\<rparr> \<and>
    parse_listen (''['' @ s @ '']:'' @ show_nat (unat p)) = Inr \<lparr>sa_ip = V6 a, sa_port = p, sa_scope = 0\<rparr> \<and>
    parse_listen (s @ '':'' @ show_nat (unat p)) = Inr \<lparr>sa_ip = V6 a, sa_port = p, sa_scope = 0\<rparr>"
proof -
  have "unat p < 2 ^ LENGTH(16)" by (rule unsigned_less)
  then have "unat p < 65536" by simp
  then show ?thesis
    using parse_listen_v4 [of "unat p" v] parse_listen_v6_brackets [OF assms, of "unat p"]
      parse_listen_v6_bare [OF assms, of "unat p"]
    by (simp add: socket_addr_new_def)
qed

text \<open>The addresses of the documentation.\<close>

theorem parse_listen_forms_witness:
  "parse_listen ''127.0.0.1:25'' = Inr \<lparr>sa_ip = V4 0x7F000001, sa_port = 25, sa_scope = 0\<rparr> \<and>
   parse_listen ''[::1]:25'' = Inr \<lparr>sa_ip = V6 1, sa_port = 25, sa_scope = 0\<rparr> \<and>
   parse_listen ''::1:25'' = Inr \<lparr>sa_ip = V6 1, sa_port = 25, sa_scope = 0\<rparr>"
proof -
  have "groups_text [] @ ''::'' @ groups_text [''1''] = ''::1''" "list_all group_text ([] @ [''1''])"
    "map (digits_value 16) [] @ replicate (8 - length ([] :: bytes list) - length [''1'']) 0 @ map (digits_value 16) [''1''] =
      [0, 0, 0, 0, 0, 0, 0, 1]" by code_simp+
  moreover have "v6_value [0, 0, 0, 0, 0, 0, 0, 1] = 1" by (simp add: v6_value_def from_parts_def)
  ultimately have v: "v6_text ''::1'' 1" unfolding v6_text_def
    by (intro disjI2 exI [of _ "[]"] exI [of _ "[''1'']"]) simp
  have "show_nat 25 = ''25''" by code_simp
  moreover have "show_v4 0x7F000001 = ''127.0.0.1''" by code_simp
  ultimately show ?thesis using parse_listen_forms [OF v, of "0x7F000001" 25] by simp
qed

end
