(* ===== verification/Config.thy ===== *)
theory Config
  imports Net_Addr Relay
begin

text \<open>
  \<open>src/src/config.rs\<close>: the command line. The reading of the flags themselves is third-party code (\<open>clap\<close>), so
  what it gives, an error or a \<open>Cli\<close>, is a parameter, with the usage text it renders; so is the manual that
  is compiled in. What the program does with them is here, down to the text on the standard error and
  the exit status.
\<close>

record cli =
  cli_man :: bool
  cli_listen :: "bytes list"
  cli_user :: "bytes option"
  cli_tohost :: "bytes option"
  cli_toport :: "16 word option"
  cli_tls_cert :: "bytes option"
  cli_tls_key :: "bytes option"
  cli_api :: "bytes option"
  cli_logpath :: "bytes option"
  cli_loglevel :: bytes
  cli_smtplog :: "bytes option"
  cli_credentials :: bool
  cli_max_header_size :: "64 word"
  cli_upstream_tls :: upstream_tls_mode
  cli_upstream_tls_ca :: "bytes option"
  cli_upstream_tls_insecure :: bool
  cli_max_connections :: "64 word"
  cli_max_connections_per_ip :: "64 word"
  cli_max_messages_per_minute :: "32 word"
  cli_max_recipients :: "64 word"
  cli_drain_timeout :: "64 word"
  cli_greeting_timeout :: "64 word"

text \<open>The defaults the flags are declared with: a command line with no flag.\<close>

definition cli_defaults :: cli where
  "cli_defaults =
     \<lparr>cli_man = False, cli_listen = [], cli_user = None, cli_tohost = None, cli_toport = None, cli_tls_cert = None,
      cli_tls_key = None, cli_api = None, cli_logpath = Some ''/dev/stderr'', cli_loglevel = ''debug'',
      cli_smtplog = None, cli_credentials = False, cli_max_header_size = 1048576,
      cli_upstream_tls = Opportunistic, cli_upstream_tls_ca = None, cli_upstream_tls_insecure = False,
      cli_max_connections = 1000, cli_max_connections_per_ip = 50, cli_max_messages_per_minute = 60,
      cli_max_recipients = 1000, cli_drain_timeout = 30, cli_greeting_timeout = 30\<rparr>"

record config =
  cf_listen :: "listen_addr list"
  cf_user :: "bytes option"
  cf_tohost :: bytes
  cf_toport :: "16 word"
  cf_tls_cert :: bytes
  cf_tls_key :: bytes
  cf_api :: bytes
  cf_logpath :: "bytes option"
  cf_loglevel :: bytes
  cf_smtplog :: "bytes option"
  cf_credentials :: bool
  cf_max_header_size :: "64 word"
  cf_upstream_tls :: upstream_tls_mode
  cf_upstream_tls_ca :: "bytes option"
  cf_upstream_tls_insecure :: bool
  cf_max_connections :: "64 word"
  cf_max_connections_per_ip :: "64 word"
  cf_max_messages_per_minute :: "32 word"
  cf_max_recipients :: "64 word"
  cf_drain_timeout :: "64 word"
  cf_greeting_timeout :: "64 word"

record process_exit =
  exit_code :: nat
  exit_stdout :: bytes
  exit_stderr :: bytes

record clap_error =
  use_stderr :: bool
  clap_text :: bytes
  clap_exit :: process_exit


section \<open>The manual\<close>

text \<open>\<open>str::split_once\<close> with a string.\<close>

fun split_once_str :: "bytes \<Rightarrow> bytes \<Rightarrow> (bytes \<times> bytes) option" where
  "split_once_str p s =
     (case strip_prefix p s of
        Some r \<Rightarrow> Some ([], r)
      | None \<Rightarrow> (case s of [] \<Rightarrow> None | b # r \<Rightarrow> map_option (\<lambda>(x, y). (b # x, y)) (split_once_str p r)))"

declare split_once_str.simps [simp del]

definition manual :: "bytes \<Rightarrow> bytes" where
  "manual MANUAL_SOURCE =
     dropWhile ((=) LF)
       (case (case strip_prefix (''---'' @ [LF]) MANUAL_SOURCE of
                None \<Rightarrow> None
              | Some rest \<Rightarrow> split_once_str ([LF] @ ''---'' @ [LF]) rest) of
          None \<Rightarrow> MANUAL_SOURCE
        | Some (_, body) \<Rightarrow> body)"

text \<open>\<open>written\<close> is what came of writing the manual and flushing it.\<close>

definition print_manual :: "bytes \<Rightarrow> (error_kind \<Rightarrow> bytes) \<Rightarrow> error_kind option \<Rightarrow> process_exit" where
  "print_manual MANUAL_SOURCE os_text written =
     (case written of
        None \<Rightarrow> \<lparr>exit_code = 0, exit_stdout = manual MANUAL_SOURCE, exit_stderr = []\<rparr>
      | Some e \<Rightarrow>
          if e = BrokenPipe then \<lparr>exit_code = 0, exit_stdout = [], exit_stderr = []\<rparr>
          else \<lparr>exit_code = 1, exit_stdout = [],
                exit_stderr = ''Could not print the manual: '' @ os_text e @ [LF]\<rparr>)"


section \<open>The checks\<close>

definition MAX_HEADER_SIZE_ZERO :: bytes where
  "MAX_HEADER_SIZE_ZERO =
     ''--max_header_size must be at least 1: unlike the other limits, 0 does not mean unlimited here, because the header block is held in memory''"

definition check_limits :: "cli \<Rightarrow> bytes + unit" where
  "check_limits c = (if cli_max_header_size c = 0 then Inl MAX_HEADER_SIZE_ZERO else Inr ())"

definition usage_exit :: "bytes \<Rightarrow> bytes \<Rightarrow> process_exit" where
  "usage_exit usage message =
     \<lparr>exit_code = 1, exit_stdout = [],
      exit_stderr = message @ [LF] @ usage @ [LF] @ ''Try '' @ [CHR 0x27] @ ''--help'' @ [CHR 0x27] @
        '' for more information.'' @ [LF]\<rparr>"

text \<open>\<open>collect\<close> into a \<open>Result\<close>: the first error, or all the values.\<close>

fun collect_listen :: "bytes list \<Rightarrow> bytes + listen_addr list" where
  "collect_listen [] = Inr []"
| "collect_listen (s # ss) =
     (case parse_listen s of
        Inl e \<Rightarrow> Inl e
      | Inr a \<Rightarrow> (case collect_listen ss of Inl e \<Rightarrow> Inl e | Inr as \<Rightarrow> Inr (a # as)))"

definition required :: "bytes \<Rightarrow> bytes \<Rightarrow> 'a option \<Rightarrow> process_exit + 'a" where
  "required usage flag x =
     (case x of None \<Rightarrow> Inl (usage_exit usage (''--'' @ flag @ '' is required'')) | Some v \<Rightarrow> Inr v)"

text \<open>The rest of \<open>parse_args\<close> behind the listen addresses: the required flags, in the order of the struct.\<close>

definition config_of :: "bytes \<Rightarrow> cli \<Rightarrow> listen_addr list \<Rightarrow> process_exit + config" where
  "config_of usage c addrs =
     (case required usage ''tohost'' (cli_tohost c) of
        Inl e \<Rightarrow> Inl e
      | Inr tohost \<Rightarrow>
     (case required usage ''toport'' (cli_toport c) of
        Inl e \<Rightarrow> Inl e
      | Inr toport \<Rightarrow>
     (case required usage ''tls_cert'' (cli_tls_cert c) of
        Inl e \<Rightarrow> Inl e
      | Inr cert \<Rightarrow>
     (case required usage ''tls_key'' (cli_tls_key c) of
        Inl e \<Rightarrow> Inl e
      | Inr key \<Rightarrow>
     (case required usage ''api'' (cli_api c) of
        Inl e \<Rightarrow> Inl e
      | Inr url \<Rightarrow>
          Inr \<lparr>cf_listen = addrs, cf_user = cli_user c, cf_tohost = tohost, cf_toport = toport, cf_tls_cert = cert,
               cf_tls_key = key, cf_api = url, cf_logpath = cli_logpath c, cf_loglevel = cli_loglevel c,
               cf_smtplog = cli_smtplog c, cf_credentials = cli_credentials c,
               cf_max_header_size = cli_max_header_size c, cf_upstream_tls = cli_upstream_tls c,
               cf_upstream_tls_ca = cli_upstream_tls_ca c, cf_upstream_tls_insecure = cli_upstream_tls_insecure c,
               cf_max_connections = cli_max_connections c,
               cf_max_connections_per_ip = cli_max_connections_per_ip c,
               cf_max_messages_per_minute = cli_max_messages_per_minute c,
               cf_max_recipients = cli_max_recipients c, cf_drain_timeout = cli_drain_timeout c,
               cf_greeting_timeout = cli_greeting_timeout c\<rparr>)))))"

definition parse_args ::
  "bytes \<Rightarrow> bytes \<Rightarrow> (error_kind \<Rightarrow> bytes) \<Rightarrow> error_kind option \<Rightarrow> clap_error + cli \<Rightarrow> process_exit + config" where
  "parse_args usage MANUAL_SOURCE os_text written parsed =
     (case parsed of
        Inl e \<Rightarrow>
          if use_stderr e then Inl \<lparr>exit_code = 1, exit_stdout = [], exit_stderr = clap_text e\<rparr> else Inl (clap_exit e)
      | Inr c \<Rightarrow>
          if cli_man c then Inl (print_manual MANUAL_SOURCE os_text written)
          else case check_limits c of
                 Inl complaint \<Rightarrow> Inl (usage_exit usage complaint)
               | Inr _ \<Rightarrow>
                   if cli_listen c = [] then Inl (usage_exit usage ''--listen is required'')
                   else case collect_listen (cli_listen c) of
                          Inl e \<Rightarrow> Inl (usage_exit usage e)
                        | Inr addrs \<Rightarrow> config_of usage c addrs)"


section \<open>What an accepted command line is\<close>

lemma usage_exit_code [simp]: "exit_code (usage_exit usage message) = 1"
  by (simp add: usage_exit_def)

lemma collect_listen_Inr: "collect_listen ss = Inr as \<Longrightarrow> list_all2 (\<lambda>s a. parse_listen s = Inr a) ss as"
  by (induction ss arbitrary: as) (auto simp: list_all2_Cons1 split: sum.splits)

lemma required_Inr [simp]: "required usage flag x = Inr v \<longleftrightarrow> x = Some v"
  by (simp add: required_def split: option.split)

lemma required_Inl: "required usage flag x = Inl e \<Longrightarrow> exit_code e = 1"
  by (auto simp: required_def split: option.splits)

lemma config_of_Inl: "config_of usage c addrs = Inl e \<Longrightarrow> exit_code e = 1"
  by (auto simp: config_of_def dest: required_Inl split: sum.splits)

lemma config_of_Inr:
  "config_of usage c addrs = Inr g \<Longrightarrow>
   cf_listen g = addrs \<and> cf_max_header_size g = cli_max_header_size c \<and>
   cli_tohost c = Some (cf_tohost g) \<and> cli_toport c = Some (cf_toport g) \<and> cli_tls_cert c = Some (cf_tls_cert g) \<and>
   cli_tls_key c = Some (cf_tls_key g) \<and> cli_api c = Some (cf_api g)"
  by (auto simp: config_of_def split: sum.splits)

text \<open>
  C30. A command line is accepted only when it can be served: there is an address to listen on, each \<open>--listen\<close>
  was read to the address at the same place, the cap on the header block is not zero, and each mandatory
  flag is there. Anything else that is not a request for help, the version or the manual ends the
  process with status 1 before anything is opened.
\<close>

theorem parse_args_checked:
  "case parse_args usage man os_text written (Inr c) of
     Inr g \<Rightarrow> cf_listen g \<noteq> [] \<and> list_all2 (\<lambda>s a. parse_listen s = Inr a) (cli_listen c) (cf_listen g) \<and>
       cf_max_header_size g \<noteq> 0 \<and>
       cli_tohost c = Some (cf_tohost g) \<and> cli_toport c = Some (cf_toport g) \<and> cli_tls_cert c = Some (cf_tls_cert g) \<and>
       cli_tls_key c = Some (cf_tls_key g) \<and> cli_api c = Some (cf_api g)
   | Inl e \<Rightarrow> cli_man c \<or> exit_code e = 1"
proof (cases "cli_man c \<or> cli_max_header_size c = 0 \<or> cli_listen c = []")
  case True
  then show ?thesis by (auto simp: parse_args_def check_limits_def)
next
  case False
  show ?thesis
  proof (cases "collect_listen (cli_listen c)")
    case (Inl e)
    with False show ?thesis by (simp add: parse_args_def check_limits_def)
  next
    case (Inr addrs)
    then have l: "list_all2 (\<lambda>s a. parse_listen s = Inr a) (cli_listen c) addrs" by (simp add: collect_listen_Inr)
    then have "addrs \<noteq> []" using False by auto
    moreover have "parse_args usage man os_text written (Inr c) = config_of usage c addrs"
      using False Inr by (simp add: parse_args_def check_limits_def)
    ultimately show ?thesis
      using l False config_of_Inr [of usage c addrs] config_of_Inl [of usage c addrs]
      by (cases "config_of usage c addrs") auto
  qed
qed

end
