(* ===== verification/Logging.thy ===== *)
theory Logging
  imports Prelude
begin

text \<open>
  \<open>src/src/logging.rs\<close>: the layout of a line of the main log, and which lines are written where. The clock,
  the process id, the spans around an event and the text of its fields come from third-party code and
  are arguments, as is what came of opening the log file. The last step of \<open>init\<close>, which installs the subscriber, is
  in the theory \<open>Process_Globals\<close>.
\<close>

datatype level = TRACE | DEBUG | INFO | WARN | ERROR

record zoned =
  z_date :: bytes
  z_hour :: nat
  z_minute :: nat
  z_second :: nat
  z_subsec_nanosecond :: nat

text \<open>\<open>{:0w}\<close> of a number that is not negative.\<close>

definition pad0 :: "nat \<Rightarrow> nat \<Rightarrow> bytes" where
  "pad0 w n = replicate (w - length (show_nat n)) CHR ''0'' @ show_nat n"

definition format_timestamp :: "zoned \<Rightarrow> bytes" where
  "format_timestamp now =
     z_date now @ '' '' @ pad0 2 (z_hour now) @ '':'' @ pad0 2 (z_minute now) @ '':'' @ pad0 2 (z_second now) @ ''.'' @
     pad0 5 (z_subsec_nanosecond now div 10000)"

fun level_name :: "level \<Rightarrow> bytes" where
  "level_name TRACE = ''debug''"
| "level_name DEBUG = ''debug''"
| "level_name INFO = ''info''"
| "level_name WARN = ''warn''"
| "level_name ERROR = ''error''"

text \<open>The ids of a span: of its rendered fields only those that begin with \<open>cid=\<close>.\<close>

definition span_ids :: "bytes option \<Rightarrow> bytes" where
  "span_ids rendered =
     (case rendered of
        None \<Rightarrow> []
      | Some text \<Rightarrow>
          concat (map (\<lambda>field. case strip_prefix ''cid='' field of None \<Rightarrow> [] | Some cid \<Rightarrow> ''['' @ cid @ ''] '')
            (split_at ((=) SP) text)))"

definition format_event :: "zoned \<Rightarrow> nat \<Rightarrow> level \<Rightarrow> bytes option list option \<Rightarrow> bytes \<Rightarrow> bytes" where
  "format_event now pid lvl scope message =
     ''['' @ format_timestamp now @ ''] ['' @ show_nat pid @ ''] ['' @ level_name lvl @ ''] '' @
     (case scope of None \<Rightarrow> [] | Some spans \<Rightarrow> concat (map span_ids spans)) @ message @ [LF]"

datatype writer = Stderr | LogFile bytes

text \<open>
  \<open>Path\<close> equality goes by components: repeated separators, a trailing one, and a \<open>.\<close> behind the root do not
  count.
\<close>

definition is_dev_stderr :: "bytes \<Rightarrow> bool" where
  "is_dev_stderr p \<longleftrightarrow>
     take 1 p = ''/'' \<and> filter (\<lambda>part. part \<noteq> [] \<and> part \<noteq> ''.'') (split_at ((=) CHR ''/'') p) = [''dev'', ''stderr'']"

text \<open>The most verbose level that is let through; \<open>fatal\<close> lets none through.\<close>

definition level_filter :: "bytes \<Rightarrow> (bytes + level option)" where
  "level_filter lvl =
     (if lvl = ''debug'' then Inr (Some DEBUG)
      else if lvl = ''info'' then Inr (Some INFO)
      else if lvl = ''warn'' then Inr (Some WARN)
      else if lvl = ''error'' then Inr (Some ERROR)
      else if lvl = ''fatal'' then Inr None
      else Inl (''unknown log level '' @ [CHR 0x27] @ lvl @ [CHR 0x27]))"

definition init_logging ::
  "(bytes \<Rightarrow> bytes + unit) \<Rightarrow> bytes option \<Rightarrow> bytes \<Rightarrow> bytes + (writer \<times> level option)" where
  "init_logging open_append path lvl =
     (case level_filter lvl of
        Inl e \<Rightarrow> Inl e
      | Inr filt \<Rightarrow>
          (case path of
             Some p \<Rightarrow>
               if \<not> is_dev_stderr p
               then (case open_append p of Inl e \<Rightarrow> Inl e | Inr _ \<Rightarrow> Inr (LogFile p, filt))
               else Inr (Stderr, filt)
           | None \<Rightarrow> Inr (Stderr, filt)))"


section \<open>The layout\<close>

lemma length_pad0: "length (show_nat n) \<le> w \<Longrightarrow> length (pad0 w n) = w"
  by (simp add: pad0_def)

lemma length_show_nat_less: "n < 10 ^ Suc k \<Longrightarrow> length (show_nat n) \<le> Suc k"
proof (induction k arbitrary: n)
  case 0
  then show ?case by (subst show_nat.simps) simp
next
  case (Suc k)
  then have "n div 10 < 10 ^ Suc k" by simp
  with Suc.IH show ?case by (subst show_nat.simps) (simp add: le_SucI)
qed

text \<open>
  The head of every line has the same width: the date has ten characters, so the bracket that closes the
  timestamp is at position 26, and the log can be read by column.
\<close>

lemma timestamp_width:
  assumes "length (z_date now) = 10" "z_hour now < 24" "z_minute now < 60" "z_second now < 60"
    and "z_subsec_nanosecond now < 1000000000"
  shows "length (format_timestamp now) = 25" and "format_event now pid lvl scope message ! 26 = CHR '']''"
proof -
  have "length (pad0 2 n) = 2" if "n < 100" for n
    using that length_show_nat_less [of n 1] by (intro length_pad0) simp
  moreover have "length (pad0 5 (z_subsec_nanosecond now div 10000)) = 5"
    using assms(5) length_show_nat_less [of "z_subsec_nanosecond now div 10000" 4]
    by (intro length_pad0) (simp add: less_mult_imp_div_less)
  ultimately show l: "length (format_timestamp now) = 25" using assms(1-4) by (simp add: format_timestamp_def)
  have "take 1 (drop 26 (format_event now pid lvl scope message)) = '']''"
    using l by (simp add: format_event_def)
  then show "format_event now pid lvl scope message ! 26 = CHR '']''"
    using l by (simp add: format_event_def nth_Cons' nth_append)
qed

text \<open>A line carries the id of its connection and no other field of the span.\<close>

lemma span_ids_cid:
  assumes "SP \<notin> set cid"
  shows "span_ids (Some (''cid='' @ cid)) = ''['' @ cid @ ''] ''"
proof -
  have "split_at ((=) SP) (''cid='' @ cid) = [''cid='' @ cid]" using assms by (intro split_at_no) auto
  then show ?thesis by (simp add: span_ids_def strip_prefix_def)
qed

end
