(* ===== verification/Listener.thy ===== *)
theory Listener
  imports Session Net_Addr
begin

unbundle bit_operations_syntax

text \<open>
  \<open>src/src/server/listener.rs\<close>: the accept loops, the limits on connections they share, and how \<open>serve\<close>
  ends.

  Accept loops and sessions are tasks that run side by side. A step of the server is one event of one
  task, and a run is any list of events that are possible one after another. The two counters of a
  permit are taken and given back in separate events, in the order of the code, so that other tasks come
  in between. The semaphore of the total limit is third-party code: its operations are a parameter, and
  the locale \<open>counting_semaphore\<close> states its documented behaviour.

  \<open>usize\<close> is \<^typ>\<open>64 word\<close>, with the wrap-around of a release build.
\<close>

section \<open>The bucket of an address\<close>

text \<open>\<open>Ipv6Addr::to_ipv4_mapped\<close>: the prefix \<open>::ffff:0:0/96\<close>.\<close>

definition to_ipv4_mapped :: "128 word \<Rightarrow> 32 word option" where
  "to_ipv4_mapped w = (if drop_bit 32 w = 0xFFFF then Some (ucast w) else None)"

definition limit_key :: "ip_addr \<Rightarrow> ip_addr" where
  "limit_key ip =
     (case ip of
        V4 v4 \<Rightarrow> ip
      | V6 v6 \<Rightarrow>
          (case to_ipv4_mapped v6 of
             Some v4 \<Rightarrow> V4 v4
           | None \<Rightarrow> V6 (v6 AND NOT (mask 64))))"


section \<open>The limits\<close>

text \<open>The operations of a semaphore: \<open>new\<close> panics (\<^const>\<open>None\<close>) on a count it cannot hold.\<close>

record 's semaphore =
  sem_new :: "nat \<Rightarrow> 's option"
  try_acquire_owned :: "'s \<Rightarrow> 's option"
  sem_release :: "'s \<Rightarrow> 's"

record 's connection_limits =
  total :: "'s option"
  per_ip :: "ip_addr \<Rightarrow> 64 word option"
  per_ip_max :: "64 word"

definition limits_new :: "'s semaphore \<Rightarrow> 64 word \<Rightarrow> 64 word \<Rightarrow> 's connection_limits option" where
  "limits_new S most most_per_ip =
     (if most \<noteq> 0
      then map_option (\<lambda>sem. \<lparr>total = Some sem, per_ip = Map.empty, per_ip_max = most_per_ip\<rparr>) (sem_new S (unat most))
      else Some \<lparr>total = None, per_ip = Map.empty, per_ip_max = most_per_ip\<rparr>)"

record connection_permit =
  holds_slot :: bool
  permit_ip :: ip_addr
  counted :: bool

text \<open>The first half of \<open>try_acquire\<close>: a slot of the total limit, if there is one.\<close>

definition acquire_total :: "'s semaphore \<Rightarrow> 's connection_limits \<Rightarrow> (bool \<times> 's connection_limits) option" where
  "acquire_total S l =
     (case total l of
        None \<Rightarrow> Some (False, l)
      | Some sem \<Rightarrow>
          (case try_acquire_owned S sem of
             None \<Rightarrow> None
           | Some sem' \<Rightarrow> Some (True, l\<lparr>total := Some sem'\<rparr>)))"

text \<open>The second half. \<open>entry(key).or_insert(0)\<close> writes a zero before the limit is looked at.\<close>

definition acquire_per_ip ::
  "bool \<Rightarrow> ip_addr \<Rightarrow> 's connection_limits \<Rightarrow> (bytes + connection_permit) \<times> 's connection_limits" where
  "acquire_per_ip slot ip l =
     (let key = limit_key ip;
          permit = \<lparr>holds_slot = slot, permit_ip = key, counted = (per_ip_max l \<noteq> 0)\<rparr>
      in if per_ip_max l \<noteq> 0
         then let count = (case per_ip l key of Some c \<Rightarrow> c | None \<Rightarrow> 0)
              in if count \<ge> per_ip_max l
                 then (Inl ''per-ip'', l\<lparr>per_ip := (per_ip l)(key \<mapsto> count)\<rparr>)
                 else (Inr permit, l\<lparr>per_ip := (per_ip l)(key \<mapsto> count + 1)\<rparr>)
         else (Inr permit, l))"

definition release_total :: "'s semaphore \<Rightarrow> bool \<Rightarrow> 's connection_limits \<Rightarrow> 's connection_limits" where
  "release_total S slot l = (if slot then l\<lparr>total := map_option (sem_release S) (total l)\<rparr> else l)"

definition try_acquire ::
  "'s semaphore \<Rightarrow> ip_addr \<Rightarrow> 's connection_limits \<Rightarrow> (bytes + connection_permit) \<times> 's connection_limits" where
  "try_acquire S ip l =
     (case acquire_total S l of
        None \<Rightarrow> (Inl ''total'', l)
      | Some (slot, l1) \<Rightarrow>
          (case acquire_per_ip slot ip l1 of
             (Inl which, l2) \<Rightarrow> (Inl which, release_total S slot l2)
           | (Inr permit, l2) \<Rightarrow> (Inr permit, l2)))"

text \<open>\<open>Drop for ConnectionPermit\<close>, and then the drop of its field \<open>_total\<close>.\<close>

definition uncount :: "connection_permit \<Rightarrow> 's connection_limits \<Rightarrow> 's connection_limits" where
  "uncount p l =
     (if \<not> counted p then l
      else case per_ip l (permit_ip p) of
             None \<Rightarrow> l
           | Some count \<Rightarrow>
               if count - 1 = 0 then l\<lparr>per_ip := (per_ip l)(permit_ip p := None)\<rparr>
               else l\<lparr>per_ip := (per_ip l)(permit_ip p \<mapsto> count - 1)\<rparr>)"

definition drop_permit :: "'s semaphore \<Rightarrow> connection_permit \<Rightarrow> 's connection_limits \<Rightarrow> 's connection_limits" where
  "drop_permit S p l = release_total S (holds_slot p) (uncount p l)"


section \<open>The accept loops\<close>

text \<open>
  An accept loop waits for a connection, or holds one between the two halves of \<open>try_acquire\<close>, or it
  has left its loop on a drain, has panicked, or was aborted with the others.
\<close>

datatype accept_loop = Waiting | Admitting socket_addr bool | Left | Died | Aborted

datatype serve_outcome = Clean | ListenerFailed

record 'h task =
  task_client :: socket_addr
  task_id :: bytes
  task_permit :: connection_permit
  task_handler :: 'h

text \<open>
  \<open>releasing\<close> counts the semaphore permits whose owner is gone and that are not yet back;
  \<open>refused\<close> is what was written to the connections over the limit; \<open>joined\<close> the results of the loops, in
  the order they ended.
\<close>

record ('s, 'h) server =
  limits :: "'s connection_limits"
  loops :: "accept_loop list"
  tasks :: "'h task list"
  releasing :: nat
  refused :: "(socket_addr \<times> bytes) list"
  cancelled :: bool
  joined :: "accept_loop list"

definition new_connection_id :: "bytes \<Rightarrow> bytes" where
  "new_connection_id random = concat (map (\<lambda>b. [hex_char (ord b div 16), hex_char (ord b mod 16)]) random)"

definition too_many :: "server_config \<Rightarrow> reply" where
  "too_many c = Reply_new 421 (service_name c @ '' Too many connections, try again later'')"

definition loop_ends :: "nat \<Rightarrow> accept_loop \<Rightarrow> ('s, 'h) server \<Rightarrow> ('s, 'h) server" where
  "loop_ends i how s = s\<lparr>loops := (loops s)[i := how], joined := joined s @ [how]\<rparr>"

text \<open>A connection over the limit: 421 and close. A panic of \<open>Reply::wire\<close> would end the loop.\<close>

definition refuse :: "server_config \<Rightarrow> nat \<Rightarrow> socket_addr \<Rightarrow> ('s, 'h) server \<Rightarrow> ('s, 'h) server" where
  "refuse c i client s =
     (case wire (too_many c) of
        None \<Rightarrow> loop_ends i Died s
      | Some w \<Rightarrow> s\<lparr>loops := (loops s)[i := Waiting], refused := refused s @ [(client, w)]\<rparr>)"

text \<open>The \<open>join_next\<close> loop at the end of \<open>serve\<close>; \<^const>\<open>None\<close> while it waits. A loop that left on a drain joins with \<open>Ok\<close>.\<close>

fun join_next :: "nat \<Rightarrow> accept_loop list \<Rightarrow> serve_outcome option" where
  "join_next n [] = (if n = 0 then Some Clean else None)"
| "join_next n (e # ends) =
     (if n = 0 then Some Clean else if e = Left then join_next (n - 1) ends else Some ListenerFailed)"

definition serve_outcome_of :: "('s, 'h) server \<Rightarrow> serve_outcome option" where
  "serve_outcome_of s = join_next (length (loops s)) (joined s)"

text \<open>
  The events: an accept loop gets a connection, or an error, or goes on with the connection it holds, or
  sees the cancelled token, or panics, or is aborted; a session ends, for whatever reason, and its
  future is dropped; a semaphore permit comes back; the token is cancelled.
\<close>

datatype serve_event =
    Accepts nat socket_addr
  | AcceptFails nat
  | Admits nat bytes
  | Leaves nat
  | Panics nat
  | Aborts nat
  | SessionEnds nat
  | SlotReturns
  | Cancels

text \<open>\<open>cancelled\<close>: a server without a drain never sees the token.\<close>

definition drain_begun :: "server_config \<Rightarrow> ('s, 'h) server \<Rightarrow> bool" where
  [simp]: "drain_begun c s \<longleftrightarrow> has_drain c \<and> cancelled s"

text \<open>\<open>Drain::connections\<close>: the tracker holds the sessions and nothing else.\<close>

definition connections :: "('s, 'h) server \<Rightarrow> nat" where
  "connections s = length (tasks s)"

definition in_state :: "('s, 'h) server \<Rightarrow> nat \<Rightarrow> accept_loop \<Rightarrow> bool" where
  "in_state s i x \<longleftrightarrow> i < length (loops s) \<and> loops s ! i = x"

fun serve_step ::
  "'s semaphore \<Rightarrow> server_config \<Rightarrow> (socket_addr \<Rightarrow> bytes \<Rightarrow> 'h) \<Rightarrow> serve_event \<Rightarrow> ('s, 'h) server \<Rightarrow>
   ('s, 'h) server option" where
  "serve_step S c mk (Accepts i client) s =
     (if in_state s i Waiting \<and> \<not> drain_begun c s
      then Some (case acquire_total S (limits s) of
                   None \<Rightarrow> refuse c i client s
                 | Some (slot, l) \<Rightarrow> s\<lparr>limits := l, loops := (loops s)[i := Admitting client slot]\<rparr>)
      else None)"
| "serve_step S c mk (AcceptFails i) s =
     (if in_state s i Waiting \<and> \<not> drain_begun c s then Some s else None)"
| "serve_step S c mk (Admits i random) s =
     (if i < length (loops s)
      then case loops s ! i of
             Admitting client slot \<Rightarrow>
               (case acquire_per_ip slot (sa_ip client) (limits s) of
                  (Inl which, l) \<Rightarrow>
                    Some (refuse c i client (s\<lparr>limits := l, releasing := releasing s + of_bool slot\<rparr>))
                | (Inr permit, l) \<Rightarrow>
                    (let id = new_connection_id random
                     in Some (s\<lparr>limits := l, loops := (loops s)[i := Waiting],
                                tasks := tasks s @ [\<lparr>task_client = client, task_id = id, task_permit = permit,
                                                     task_handler = mk client id\<rparr>]\<rparr>)))
           | _ \<Rightarrow> None
      else None)"
| "serve_step S c mk (Leaves i) s =
     (if in_state s i Waiting \<and> drain_begun c s then Some (loop_ends i Left s) else None)"
| "serve_step S c mk (Panics i) s =
     (if i < length (loops s)
      then case loops s ! i of
             Waiting \<Rightarrow> Some (loop_ends i Died s)
           | Admitting client slot \<Rightarrow> Some (loop_ends i Died (s\<lparr>releasing := releasing s + of_bool slot\<rparr>))
           | _ \<Rightarrow> None
      else None)"
| "serve_step S c mk (Aborts i) s =
     (if in_state s i Waiting \<and> serve_outcome_of s = Some ListenerFailed then Some (loop_ends i Aborted s) else None)"
| "serve_step S c mk (SessionEnds j) s =
     (if j < length (tasks s)
      then let p = task_permit (tasks s ! j)
           in Some (s\<lparr>limits := uncount p (limits s), releasing := releasing s + of_bool (holds_slot p),
                      tasks := take j (tasks s) @ drop (Suc j) (tasks s)\<rparr>)
      else None)"
| "serve_step S c mk SlotReturns s =
     (if 0 < releasing s then Some (s\<lparr>limits := release_total S True (limits s), releasing := releasing s - 1\<rparr>)
      else None)"
| "serve_step S c mk Cancels s = Some (s\<lparr>cancelled := True\<rparr>)"

fun serve_steps ::
  "'s semaphore \<Rightarrow> server_config \<Rightarrow> (socket_addr \<Rightarrow> bytes \<Rightarrow> 'h) \<Rightarrow> serve_event list \<Rightarrow> ('s, 'h) server \<Rightarrow>
   ('s, 'h) server option" where
  "serve_steps S c mk [] s = Some s"
| "serve_steps S c mk (e # es) s =
     (case serve_step S c mk e s of None \<Rightarrow> None | Some s' \<Rightarrow> serve_steps S c mk es s')"

text \<open>\<open>serve\<close> on \<open>n\<close> listeners, as it is when every loop was spawned.\<close>

definition serve_start :: "'s semaphore \<Rightarrow> server_config \<Rightarrow> nat \<Rightarrow> ('s, 'h) server option" where
  "serve_start S c n =
     map_option
       (\<lambda>l. \<lparr>limits = l, loops = replicate n Waiting, tasks = [], releasing = 0, refused = [], cancelled = False,
             joined = []\<rparr>)
       (limits_new S (max_connections c) (max_connections_per_ip c))"


section \<open>Buckets\<close>

lemma key_prefix_iff: "(v AND NOT (mask 64) = w AND NOT (mask 64)) \<longleftrightarrow> drop_bit 64 v = drop_bit 64 w" for v w :: "128 word"
proof
  assume e: "v AND NOT (mask 64) = w AND NOT (mask 64)"
  show "drop_bit 64 v = drop_bit 64 w"
  proof (rule bit_eqI)
    fix n
    have "bit (v AND NOT (mask 64)) (64 + n) = bit (w AND NOT (mask 64)) (64 + n)" using e by simp
    then show "bit (drop_bit 64 v) n = bit (drop_bit 64 w) n"
      by (auto simp: bit_simps dest: bit_imp_le_length)
  qed
next
  assume e: "drop_bit 64 v = drop_bit 64 w"
  show "v AND NOT (mask 64) = w AND NOT (mask 64)"
  proof (rule bit_eqI)
    fix n
    show "bit (v AND NOT (mask 64)) n = bit (w AND NOT (mask 64)) n"
    proof (cases "n < 64")
      case True then show ?thesis by (simp add: bit_simps)
    next
      case False
      then have "bit (drop_bit 64 v) (n - 64) = bit (drop_bit 64 w) (n - 64)" using e by simp
      with False show ?thesis by (simp add: bit_simps)
    qed
  qed
qed

text \<open>Every address of the machine is a \<open>/64\<close> of IPv6 or an IPv4 address, however it is written.\<close>

definition bucket_of :: "ip_addr \<Rightarrow> 32 word + 64 word" where
  "bucket_of ip =
     (case ip of
        V4 v4 \<Rightarrow> Inl v4
      | V6 v6 \<Rightarrow> if unat v6 div 2 ^ 32 = 0xFFFF then Inl (of_nat (unat v6 mod 2 ^ 32)) else Inr (of_nat (unat v6 div 2 ^ 64)))"

lemma unat_drop: "unat (drop_bit n w) = unat w div 2 ^ n" for w :: "'a::len word"
  by (simp only: unat_drop_bit_eq drop_bit_nat_def)

lemma mapped_iff: "to_ipv4_mapped v6 = (if unat v6 div 2 ^ 32 = 0xFFFF then Some (of_nat (unat v6 mod 2 ^ 32)) else None)"
proof -
  have "drop_bit 32 v6 = 0xFFFF \<longleftrightarrow> unat (drop_bit 32 v6) = unat (0xFFFF :: 128 word)" by (simp only: word_unat_eq_iff)
  then have "drop_bit 32 v6 = 0xFFFF \<longleftrightarrow> unat v6 div 2 ^ 32 = 0xFFFF" unfolding unat_drop by simp
  moreover have "(ucast v6 :: 32 word) = of_nat (unat v6 mod 2 ^ 32)"
    by (rule word_unat_eq_iff [THEN iffD2]) (simp add: unsigned_ucast_eq unat_of_nat take_bit_nat_def)
  ultimately show ?thesis by (simp add: to_ipv4_mapped_def)
qed

lemma prefix_word_iff:
  "(of_nat (unat v div 2 ^ 64) :: 64 word) = of_nat (unat w div 2 ^ 64) \<longleftrightarrow> drop_bit 64 v = drop_bit 64 w" for v w :: "128 word"
proof -
  have small: "unat u div 2 ^ 64 < 2 ^ 64" for u :: "128 word"
  proof -
    have "unat u < 2 ^ LENGTH(128)" by (rule unsigned_less)
    then have "unat u < 2 ^ 64 * 2 ^ 64" by simp
    then show ?thesis by (simp only: less_mult_imp_div_less)
  qed
  have "(of_nat (unat v div 2 ^ 64) :: 64 word) = of_nat (unat w div 2 ^ 64) \<longleftrightarrow> unat v div 2 ^ 64 = unat w div 2 ^ 64"
    using small by (simp add: of_nat_inverse word_unat_eq_iff unat_of_nat)
  also have "\<dots> \<longleftrightarrow> drop_bit 64 v = drop_bit 64 w" unfolding unat_drop [symmetric] by (simp add: word_unat_eq_iff)
  finally show ?thesis .
qed

text \<open>
  C28. The bucket a connection counts against is the IPv4 address, or the IPv6 \<open>/64\<close>, that the numbers of the
  address say: two clients share a bucket exactly when these agree. An IPv4 client is the same client on
  a dual-stack listener, where it shows up as \<open>::ffff:a.b.c.d\<close>.
\<close>

theorem limit_key_buckets: "limit_key a = limit_key b \<longleftrightarrow> bucket_of a = bucket_of b"
  by (cases a; cases b) (simp_all add: limit_key_def bucket_of_def mapped_iff key_prefix_iff prefix_word_iff [simplified])



section \<open>The contract of the semaphore, and of the limits\<close>

text \<open>
  \<open>tokio::sync::Semaphore\<close> as it is documented: a number of permits, at most \<open>MAX_PERMITS\<close> of them.
\<close>

locale counting_semaphore =
  fixes S :: "'s semaphore" and available :: "'s \<Rightarrow> nat" and max_permits :: nat
  assumes new_ok: "n \<le> max_permits \<Longrightarrow> \<exists>sem. sem_new S n = Some sem \<and> available sem = n"
    and new_panics: "max_permits < n \<Longrightarrow> sem_new S n = None"
    and acquire_none: "try_acquire_owned S sem = None \<longleftrightarrow> available sem = 0"
    and acquire_some: "try_acquire_owned S sem = Some sem' \<Longrightarrow> available sem = Suc (available sem')"
    and release: "available (sem_release S sem) = Suc (available sem)"

text \<open>\<open>n\<close> permits of the semaphore are held; \<open>ks\<close> are the buckets of the permits that count.\<close>

definition slots_ok :: "('s \<Rightarrow> nat) \<Rightarrow> 64 word \<Rightarrow> nat \<Rightarrow> 's connection_limits \<Rightarrow> bool" where
  "slots_ok available most n l \<longleftrightarrow>
     (case total l of None \<Rightarrow> most = 0 \<and> n = 0 | Some sem \<Rightarrow> most \<noteq> 0 \<and> available sem + n = unat most)"

definition counts_ok :: "64 word \<Rightarrow> ip_addr list \<Rightarrow> 's connection_limits \<Rightarrow> bool" where
  "counts_ok most ks l \<longleftrightarrow>
     per_ip_max l = most \<and>
     (if most = 0 then per_ip l = Map.empty
      else (\<forall>k. count_list ks k \<le> unat most \<and>
                per_ip l k = (if count_list ks k = 0 then None else Some (of_nat (count_list ks k)))))"

lemma counts_bound: "counts_ok most ks l \<Longrightarrow> most \<noteq> 0 \<Longrightarrow> count_list ks k \<le> unat most"
  by (simp add: counts_ok_def)

lemma counts_entry:
  "counts_ok most ks l \<Longrightarrow> most \<noteq> 0 \<Longrightarrow>
   per_ip l k = (if count_list ks k = 0 then None else Some (of_nat (count_list ks k)))"
  by (simp add: counts_ok_def)

lemma counts_perm:
  assumes "counts_ok most ks l" "\<And>k. count_list ks k = count_list ks' k"
  shows "counts_ok most ks' l"
proof -
  have "count_list ks = count_list ks'" using assms(2) by (rule ext)
  then show ?thesis using assms(1) by (auto simp only: counts_ok_def)
qed

lemma small_count: "n \<le> unat m \<Longrightarrow> unat (of_nat n :: 64 word) = n" for m :: "64 word"
proof -
  have "unat m < 2 ^ LENGTH(64)" by (rule unsigned_less)
  then show "n \<le> unat m \<Longrightarrow> unat (of_nat n :: 64 word) = n" by (simp add: unat_of_nat)
qed

text \<open>The number the second half of \<open>try_acquire\<close> compares is the number of live permits of the bucket.\<close>

lemma counts_current:
  assumes "counts_ok most ks l" "most \<noteq> 0"
  shows "(case per_ip l k of Some c \<Rightarrow> c | None \<Rightarrow> 0) = of_nat (count_list ks k)"
    and "(of_nat (count_list ks k) :: 64 word) \<ge> most \<longleftrightarrow> count_list ks k = unat most"
  using counts_entry [OF assms, of k] counts_bound [OF assms, of k]
  by (auto simp: word_le_nat_alt small_count)

lemma acquire_per_ip_grants:
  assumes "counts_ok most ks l" "most = 0 \<or> count_list ks (limit_key ip) < unat most"
  shows "\<exists>l'. acquire_per_ip slot ip l = (Inr \<lparr>holds_slot = slot, permit_ip = limit_key ip, counted = (most \<noteq> 0)\<rparr>, l') \<and>
           total l' = total l \<and> counts_ok most (ks @ [limit_key ip]) l'"
proof (cases "most = 0")
  case True
  then show ?thesis using assms(1) by (simp add: acquire_per_ip_def counts_ok_def Let_def)
next
  case False
  note cur = counts_current [OF assms(1) False, of "limit_key ip"]
  have m: "per_ip_max l = most" using assms(1) by (simp add: counts_ok_def)
  show ?thesis using False assms cur m
    by (auto simp: acquire_per_ip_def Let_def counts_ok_def less_imp_le_nat Suc_leI algebra_simps)
qed

lemma acquire_per_ip_refuses:
  assumes "counts_ok most ks l" "most \<noteq> 0" "count_list ks (limit_key ip) = unat most"
  shows "acquire_per_ip slot ip l = (Inl ''per-ip'', l)"
proof -
  note cur = counts_current [OF assms(1,2), of "limit_key ip"]
  have m: "per_ip_max l = most" using assms(1) by (simp add: counts_ok_def)
  have "count_list ks (limit_key ip) \<noteq> 0" using assms(2,3) by (simp add: unat_eq_0)
  then have "per_ip l (limit_key ip) = Some (of_nat (count_list ks (limit_key ip)))"
    using counts_entry [OF assms(1,2)] by simp
  then show ?thesis using assms cur m by (simp add: acquire_per_ip_def Let_def fun_upd_idem)
qed

lemma uncount_counts:
  assumes "counts_ok most (ks @ [permit_ip p]) l" "counted p = (most \<noteq> 0)"
  shows "counts_ok most ks (uncount p l)" "total (uncount p l) = total l"
proof -
  let ?n = "count_list ks (permit_ip p)"
  have "counts_ok most ks (uncount p l) \<and> total (uncount p l) = total l"
  proof (cases "most = 0")
    case True then show ?thesis using assms by (simp add: uncount_def counts_ok_def)
  next
    case False
    note e = counts_entry [OF assms(1) False] and b = counts_bound [OF assms(1) False]
    have p: "per_ip l (permit_ip p) = Some (of_nat (Suc ?n))" using e [of "permit_ip p"] by simp
    have z: "(of_nat ?n :: 64 word) = 0 \<longleftrightarrow> ?n = 0"
      using small_count [of ?n most] b [of "permit_ip p"] by (simp add: word_unat_eq_iff)
    have b': "count_list ks k \<le> unat most" for k using b [of k] by (simp split: if_splits)
    show ?thesis using False assms p z b' e by (simp add: uncount_def counts_ok_def)
  qed
  then show "counts_ok most ks (uncount p l)" "total (uncount p l) = total l" by simp_all
qed


context counting_semaphore
begin

lemma acquire_total_cases:
  assumes "slots_ok available most n l"
  obtains (full) "acquire_total S l = None" "most \<noteq> 0" "n = unat most"
  | (slot) l' where "acquire_total S l = Some (most \<noteq> 0, l')" "slots_ok available most (n + of_bool (most \<noteq> 0)) l'"
      "per_ip l' = per_ip l" "per_ip_max l' = per_ip_max l" "most \<noteq> 0 \<Longrightarrow> n < unat most"
proof (cases "total l")
  case None
  with assms slot [of l] show thesis by (simp add: slots_ok_def acquire_total_def)
next
  case (Some sem)
  then have a: "most \<noteq> 0" "available sem + n = unat most" using assms by (simp_all add: slots_ok_def)
  show thesis
  proof (cases "try_acquire_owned S sem")
    case None
    with Some a full show thesis using acquire_none [of sem] by (simp add: acquire_total_def)
  next
    case (Some sem')
    then show thesis using \<open>total l = Some sem\<close> a slot [of "l\<lparr>total := Some sem'\<rparr>"] acquire_some [OF Some]
      by (simp add: acquire_total_def slots_ok_def)
  qed
qed

lemma release_slots:
  assumes "slots_ok available most (n + of_bool slot) l"
  shows "slots_ok available most n (release_total S slot l)"
  using assms release by (cases "total l"; cases slot) (auto simp: release_total_def slots_ok_def)

lemma limits_new_ok:
  assumes "unat most \<le> max_permits"
  obtains l where "limits_new S most most_ip = Some l" "slots_ok available most 0 l" "counts_ok most_ip [] l"
  using assms new_ok [of "unat most"] that
  by (cases "most = 0") (auto simp: limits_new_def slots_ok_def counts_ok_def)

lemma limits_new_Some:
  assumes "limits_new S most most_ip = Some l"
  shows "slots_ok available most 0 l \<and> counts_ok most_ip [] l"
proof (cases "unat most \<le> max_permits")
  case True
  then show ?thesis using limits_new_ok [OF True, of most_ip] assms by auto
next
  case False
  then have "most \<noteq> 0" by auto
  with False assms new_panics [of "unat most"] show ?thesis by (simp add: limits_new_def)
qed

end

lemma release_total_keeps [simp]: "per_ip (release_total S slot l) = per_ip l" "per_ip_max (release_total S slot l) = per_ip_max l"
  by (simp_all add: release_total_def)

lemma counts_ok_cong: "per_ip l' = per_ip l \<Longrightarrow> per_ip_max l' = per_ip_max l \<Longrightarrow> counts_ok most ks l' = counts_ok most ks l"
  by (simp add: counts_ok_def)

lemma slots_ok_cong: "total l' = total l \<Longrightarrow> slots_ok a most n l' = slots_ok a most n l"
  by (simp add: slots_ok_def)

definition gate_admits :: "64 word \<Rightarrow> 64 word \<Rightarrow> ip_addr list \<Rightarrow> ip_addr \<Rightarrow> bool" where
  "gate_admits most most_ip ks k \<longleftrightarrow>
     (most = 0 \<or> length ks < unat most) \<and> (most_ip = 0 \<or> count_list ks k < unat most_ip)"

definition gate_abs :: "('s \<Rightarrow> nat) \<Rightarrow> 64 word \<Rightarrow> 64 word \<Rightarrow> ip_addr list \<Rightarrow> 's connection_limits \<Rightarrow> bool" where
  "gate_abs available most most_ip ks l \<longleftrightarrow>
     slots_ok available most (if most = 0 then 0 else length ks) l \<and> counts_ok most_ip ks l"

context counting_semaphore
begin

lemma drop_permit_abs:
  assumes "gate_abs available most most_ip (ks @ [permit_ip p]) l"
    and "holds_slot p = (most \<noteq> 0)" "counted p = (most_ip \<noteq> 0)"
  shows "gate_abs available most most_ip ks (drop_permit S p l)"
proof -
  let ?l = "uncount p l" and ?n = "if most = 0 then 0 else length ks"
  have u: "counts_ok most_ip ks ?l" "total ?l = total l"
    using assms uncount_counts [of most_ip ks p l] by (simp_all add: gate_abs_def)
  have "slots_ok available most (?n + of_bool (holds_slot p)) ?l"
    using assms slots_ok_cong [OF u(2)] by (cases "most = 0") (simp_all add: gate_abs_def)
  then show ?thesis
    using release_slots u(1) counts_ok_cong [of "release_total S (holds_slot p) ?l" ?l]
    unfolding gate_abs_def drop_permit_def by simp
qed

lemma try_acquire_admits:
  assumes "gate_abs available most most_ip ks l" "gate_admits most most_ip ks (limit_key ip)"
  shows "\<exists>p l'. try_acquire S ip l = (Inr p, l') \<and> permit_ip p = limit_key ip \<and>
           gate_abs available most most_ip (ks @ [permit_ip p]) l' \<and>
           gate_abs available most most_ip ks (drop_permit S p l')"
proof -
  let ?n = "if most = 0 then 0 else length ks"
  have s: "slots_ok available most ?n l" and k: "counts_ok most_ip ks l" using assms(1) by (simp_all add: gate_abs_def)
  from s show ?thesis
  proof (cases rule: acquire_total_cases)
    case full
    with assms(2) show ?thesis by (simp add: gate_admits_def)
  next
    case (slot l1)
    have "counts_ok most_ip ks l1" using k slot by (simp add: counts_ok_def)
    then obtain l2 where l2: "acquire_per_ip (most \<noteq> 0) ip l1 =
        (Inr \<lparr>holds_slot = (most \<noteq> 0), permit_ip = limit_key ip, counted = (most_ip \<noteq> 0)\<rparr>, l2)"
      "total l2 = total l1" "counts_ok most_ip (ks @ [limit_key ip]) l2"
      using acquire_per_ip_grants [of most_ip ks l1 ip "most \<noteq> 0"] assms(2) by (auto simp: gate_admits_def)
    let ?p = "\<lparr>holds_slot = (most \<noteq> 0), permit_ip = limit_key ip, counted = (most_ip \<noteq> 0)\<rparr>"
    have "slots_ok available most (?n + of_bool (most \<noteq> 0)) l2"
      using slot(2) slots_ok_cong [OF l2(2)] by simp
    then have a: "gate_abs available most most_ip (ks @ [permit_ip ?p]) l2"
      using l2(3) by (cases "most = 0") (simp_all add: gate_abs_def)
    then have "gate_abs available most most_ip ks (drop_permit S ?p l2)" by (rule drop_permit_abs) simp_all
    then show ?thesis using a slot(1) l2(1) by (intro exI [of _ ?p] exI [of _ l2]) (simp add: try_acquire_def)
  qed
qed

lemma try_acquire_refuses:
  assumes "gate_abs available most most_ip ks l" "\<not> gate_admits most most_ip ks (limit_key ip)"
  shows "\<exists>l'. try_acquire S ip l = (Inl (if most \<noteq> 0 \<and> length ks = unat most then ''total'' else ''per-ip''), l') \<and>
           gate_abs available most most_ip ks l' \<and> per_ip l' = per_ip l"
proof -
  let ?n = "if most = 0 then 0 else length ks"
  have s: "slots_ok available most ?n l" and k: "counts_ok most_ip ks l" using assms(1) by (simp_all add: gate_abs_def)
  from s show ?thesis
  proof (cases rule: acquire_total_cases)
    case full
    with assms(1) show ?thesis by (simp add: try_acquire_def)
  next
    case (slot l1)
    have k1: "counts_ok most_ip ks l1" using k slot by (simp add: counts_ok_def)
    have "most_ip \<noteq> 0" "unat most_ip \<le> count_list ks (limit_key ip)"
      using assms(2) slot(5) by (auto simp: gate_admits_def split: if_splits)
    then have "acquire_per_ip (most \<noteq> 0) ip l1 = (Inl ''per-ip'', l1)"
      using counts_bound [OF k1] by (intro acquire_per_ip_refuses [OF k1]) (simp_all add: le_antisym)
    then have "try_acquire S ip l = (Inl ''per-ip'', release_total S (most \<noteq> 0) l1)"
      using slot(1) by (simp add: try_acquire_def)
    moreover have "gate_abs available most most_ip ks (release_total S (most \<noteq> 0) l1)"
      using release_slots [OF slot(2)] k1 counts_ok_cong [of "release_total S (most \<noteq> 0) l1" l1]
      unfolding gate_abs_def by simp
    ultimately show ?thesis using slot(3,5) by auto
  qed
qed

end

text \<open>
  C15. The limits on connections are what they promise to be. Over the list of buckets of the live
  permits, \<open>try_acquire\<close> grants a permit exactly when there are fewer live connections than \<open>--max_connections\<close>
  and fewer from this bucket than \<open>--max_connections_per_ip\<close>, zero meaning no limit. A grant adds the bucket,
  dropping the permit takes it away again, and a refusal changes nothing, the map of counts included,
  and names the limit that was hit.
\<close>

theorem try_acquire_refines:
  assumes "counting_semaphore S available max_permits" "gate_abs available most most_ip ks l"
  shows "if gate_admits most most_ip ks (limit_key ip)
         then \<exists>p l'. try_acquire S ip l = (Inr p, l') \<and> permit_ip p = limit_key ip \<and>
                gate_abs available most most_ip (ks @ [permit_ip p]) l' \<and>
                gate_abs available most most_ip ks (drop_permit S p l')
         else \<exists>l'. try_acquire S ip l = (Inl (if most \<noteq> 0 \<and> length ks = unat most then ''total'' else ''per-ip''), l') \<and>
                gate_abs available most most_ip ks l' \<and> per_ip l' = per_ip l"
  using counting_semaphore.try_acquire_admits [OF assms] counting_semaphore.try_acquire_refuses [OF assms] by simp

text \<open>A counter is such a semaphore.\<close>

definition counter :: "nat semaphore" where
  "counter =
     \<lparr>sem_new = (\<lambda>n. if n \<le> 2 ^ 61 - 1 then Some n else None),
      try_acquire_owned = (\<lambda>n. if n = 0 then None else Some (n - 1)), sem_release = Suc\<rparr>"

interpretation counter: counting_semaphore counter "\<lambda>n. n" "2 ^ 61 - 1"
  by unfold_locales (auto simp: counter_def split: if_splits)

definition sample_limits :: "nat connection_limits" where
  "sample_limits = \<lparr>total = Some 1, per_ip = [V4 7 \<mapsto> 2], per_ip_max = 2\<rparr>"

theorem try_acquire_refines_witness:
  "gate_abs (\<lambda>n. n) 3 2 [V4 7, V4 7] sample_limits \<and> fst (try_acquire counter (V4 7) sample_limits) = Inl ''per-ip'' \<and>
   (\<exists>p. fst (try_acquire counter (V4 8) sample_limits) = Inr p)"
proof -
  have a: "gate_abs (\<lambda>n. n) 3 2 [V4 7, V4 7] sample_limits"
    by (simp add: gate_abs_def slots_ok_def counts_ok_def sample_limits_def)
  show ?thesis
    using a try_acquire_refines [OF counter.counting_semaphore_axioms a, of "V4 7"]
      try_acquire_refines [OF counter.counting_semaphore_axioms a, of "V4 8"]
    by (auto simp: gate_admits_def limit_key_def)
qed

end
