(* ===== verification/Startup.thy ===== *)
theory Startup
  imports Config Logging Listener Proxy
begin

text \<open>
  \<open>src/src/main.rs\<close> and \<open>src/src/privdrop.rs\<close>, with the loading of certificates (\<open>ServerConfig::load_tls\<close> of
  \<open>src/src/server/mod.rs\<close>, \<open>UpstreamTls::build\<close> of \<open>src/src/relay.rs\<close>) and \<open>listener::bind\<close>: from a configuration to
  a program that serves, and from a signal to the exit status.

  The start-up is a sequence of steps of which each may fail; a failure ends it. The operating system
  and the TLS and HTTP packages are the fields of \<open>boot_env\<close>. The events that matter outside are kept in
  a trace: files opened, sockets bound, privileges dropped, tasks started; and where the crypto provider of the process
  is installed (\<open>install_crypto_provider\<close>) and where TLS is set up with it.
\<close>

section \<open>Steps that may fail, with a trace\<close>

datatype boot_event =
    Opens bytes
  | InstallsProvider
  | UsesProvider
  | Binds listen_addr
  | InitGroups bytes "32 word"
  | SetGid "32 word"
  | SetUid "32 word"
  | StartsPruner
  | StartsProbe
  | HandlesSignals
  | Prints bytes
  | Serves

text \<open>An error that \<open>run\<close> returns, or a panic.\<close>

datatype boot_failure = Failed bytes | Panicked

type_synonym 'a boot = "boot_event list \<times> (boot_failure + 'a)"

definition boot_return :: "'a \<Rightarrow> 'a boot" where
  "boot_return a = ([], Inr a)"

definition boot_fail :: "bytes \<Rightarrow> 'a boot" where
  "boot_fail e = ([], Inl (Failed e))"

definition boot_event :: "boot_event \<Rightarrow> unit boot" where
  "boot_event e = ([e], Inr ())"

definition boot_then :: "'a boot \<Rightarrow> ('a \<Rightarrow> 'b boot) \<Rightarrow> 'b boot" where
  "boot_then m k =
     (case m of
        (t, Inl e) \<Rightarrow> (t, Inl e)
      | (t, Inr a) \<Rightarrow> (case k a of (t', r) \<Rightarrow> (t @ t', r)))"

text \<open>A system call: it is in the trace whether it succeeds or not. Its error is put into a message.\<close>

definition boot_call :: "boot_event \<Rightarrow> bytes \<Rightarrow> bytes + 'a \<Rightarrow> 'a boot" where
  "boot_call e message r = ([e], case r of Inl t \<Rightarrow> Inl (Failed (message @ t)) | Inr a \<Rightarrow> Inr a)"

definition boot_try :: "bytes \<Rightarrow> bytes + 'a \<Rightarrow> 'a boot" where
  "boot_try message r = ([], case r of Inl t \<Rightarrow> Inl (Failed (message @ t)) | Inr a \<Rightarrow> Inr a)"


section \<open>What is outside\<close>

record user_entry =
  entry_uid :: "32 word"
  entry_gid :: "32 word"

record priv_ops =
  init_groups :: "bytes \<Rightarrow> 32 word \<Rightarrow> bytes + unit"
  set_gid :: "32 word \<Rightarrow> bytes + unit"
  set_uid :: "32 word \<Rightarrow> bytes + unit"

record boot_env =
  pem_file_iter :: "bytes \<Rightarrow> bytes + (bytes + bytes) list"
  key_from_pem_file :: "bytes \<Rightarrow> bytes + bytes"
  with_single_cert :: "bytes list \<Rightarrow> bytes \<Rightarrow> bytes + unit"
  safe_protocol_versions :: "bytes + unit"
  native_certs :: "bytes list"
  add_root :: "bytes \<Rightarrow> bytes + unit"
  open_append :: "bytes \<Rightarrow> bytes + unit"
  tcp_bind :: "listen_addr \<Rightarrow> bytes + listen_addr option"
  from_name :: "bytes \<Rightarrow> bytes + user_entry option"
  syscalls :: priv_ops
  http_client :: "bytes + unit"
  signal_handlers :: bool
  show_addr :: "listen_addr \<Rightarrow> bytes"
  codec :: api_env
  io_text :: "error_kind \<Rightarrow> bytes"


section \<open>TLS\<close>

fun collect_certs :: "(bytes + bytes) list \<Rightarrow> bytes + bytes list" where
  "collect_certs [] = Inr []"
| "collect_certs (Inl e # cs) = Inl e"
| "collect_certs (Inr c # cs) = map_sum (\<lambda>e. e) (\<lambda>ds. c # ds) (collect_certs cs)"

definition load_tls :: "boot_env \<Rightarrow> bytes \<Rightarrow> bytes \<Rightarrow> unit boot" where
  "load_tls E cert key =
     boot_then (boot_try (''cannot read certificate '' @ cert @ '': '') (pem_file_iter E cert)) (\<lambda>entries.
     boot_then (boot_try (''bad certificate in '' @ cert @ '': '') (collect_certs entries)) (\<lambda>certs.
     boot_then (boot_try (''cannot read key '' @ key @ '': '') (key_from_pem_file E key)) (\<lambda>private_key.
     boot_call UsesProvider [] (with_single_cert E certs private_key))))"

text \<open>How a certificate of the upstream is verified: not at all, or against these roots.\<close>

datatype verifier = NoVerify | RootStore "bytes list"

fun add_roots :: "boot_env \<Rightarrow> bytes \<Rightarrow> (bytes + bytes) list \<Rightarrow> bytes list \<Rightarrow> bytes list boot" where
  "add_roots E path [] roots = boot_return roots"
| "add_roots E path (c # cs) roots =
     boot_then (boot_try (''bad certificate in '' @ path @ '': '') c) (\<lambda>cert.
     boot_then (boot_try [] (add_root E cert)) (\<lambda>_.
     add_roots E path cs (roots @ [cert])))"

definition is_ok :: "'e + 'a \<Rightarrow> bool" where
  "is_ok r = (case r of Inl _ \<Rightarrow> False | Inr _ \<Rightarrow> True)"

definition upstream_tls_build ::
  "boot_env \<Rightarrow> upstream_tls_mode \<Rightarrow> bytes option \<Rightarrow> bool \<Rightarrow> (upstream_tls \<times> verifier option) boot" where
  "upstream_tls_build E m extra_ca insecure =
     (if m = Off then boot_return (upstream_tls_off, None)
      else boot_then (boot_try [] (safe_protocol_versions E)) (\<lambda>_.
           boot_then
             (if insecure then boot_return NoVerify
              else let roots = filter (\<lambda>cert. is_ok (add_root E cert)) (native_certs E)
                   in case extra_ca of
                        None \<Rightarrow> boot_return (RootStore roots)
                      | Some path \<Rightarrow>
                          boot_then (boot_try (''cannot read CA file '' @ path @ '': '') (pem_file_iter E path))
                            (\<lambda>certs. boot_then (add_roots E path certs roots) (\<lambda>all. boot_return (RootStore all))))
             (\<lambda>v. boot_return (\<lparr>mode = m, has_client_config = True\<rparr>, Some v))))"


section \<open>Sockets and privileges\<close>

fun bind_all :: "boot_env \<Rightarrow> listen_addr list \<Rightarrow> listen_addr option list boot" where
  "bind_all E [] = boot_return []"
| "bind_all E (a # as) =
     boot_then (boot_call (Binds a) [] (tcp_bind E a)) (\<lambda>l.
     boot_then (bind_all E as) (\<lambda>ls. boot_return (l # ls)))"

definition listener_bind :: "boot_env \<Rightarrow> listen_addr list \<Rightarrow> listen_addr option list boot" where
  "listener_bind E addrs = boot_then (boot_event InstallsProvider) (\<lambda>_. bind_all E addrs)"

text \<open>\<open>CString::new\<close> refuses a name with a zero byte.\<close>

definition c_string :: "bytes \<Rightarrow> bytes + bytes" where
  "c_string s =
     (case position ((=) CHR 0x00) s of
        None \<Rightarrow> Inr s
      | Some i \<Rightarrow> Inl (''nul byte found in provided data at position: '' @ show_nat i))"

definition quoted :: "bytes \<Rightarrow> bytes" where
  "quoted s = [CHR 0x27] @ s @ [CHR 0x27]"

definition drop_with :: "priv_ops \<Rightarrow> bytes \<Rightarrow> 32 word \<Rightarrow> 32 word \<Rightarrow> unit boot" where
  "drop_with sys user uid gid =
     boot_then (boot_try (''Cannot resolve username '' @ quoted user @ '': '') (c_string user)) (\<lambda>name.
     boot_then (boot_call (InitGroups name gid) (''Failed to initgroups for '' @ quoted user @ '': '') (init_groups sys name gid)) (\<lambda>_.
     boot_then (boot_call (SetGid gid) (''Failed to setgid to '' @ show_nat (unat gid) @ '': '') (set_gid sys gid)) (\<lambda>_.
     boot_call (SetUid uid) (''Failed to setuid to '' @ show_nat (unat uid) @ '': '') (set_uid sys uid))))"

definition drop_to :: "boot_env \<Rightarrow> bytes \<Rightarrow> unit boot" where
  "drop_to E user =
     boot_then (boot_try (''Cannot resolve username '' @ quoted user @ '': '') (from_name E user)) (\<lambda>found.
     case found of
       None \<Rightarrow> boot_fail (''Cannot resolve username '' @ quoted user)
     | Some entry \<Rightarrow> drop_with (syscalls E) user (entry_uid entry) (entry_gid entry))"


section \<open>\<open>run\<close>, up to the accept loops\<close>

definition RATE_LIMIT_PRUNE_INTERVAL :: nat where
  "RATE_LIMIT_PRUNE_INTERVAL = 60 * NANOS_PER_SEC"

definition RATE_LIMIT_IDLE :: nat where
  "RATE_LIMIT_IDLE = 600 * NANOS_PER_SEC"

text \<open>The sweep: \<open>tick\<close> of an \<open>interval\<close> at each of these times.\<close>

definition pruner :: "nat list \<Rightarrow> shared \<Rightarrow> shared" where
  "pruner ticks S = fold (\<lambda>now. prune_rate_limits now RATE_LIMIT_IDLE) ticks S"

text \<open>Times of a session are in milliseconds.\<close>

definition server_config_of :: "config \<Rightarrow> bool option \<Rightarrow> server_config" where
  "server_config_of g wirelog =
     \<lparr>service_name = ''smtp-proxy'', require_starttls = True, require_auth = True, tls_offered = True,
      cfg_max_header_size = unat (cf_max_header_size g), smtplog = wirelog, idle_timeout = 600 * 1000,
      greeting_timeout = (if cf_greeting_timeout g = 0 then 600 * 1000 else unat (cf_greeting_timeout g) * 1000),
      max_connections = cf_max_connections g, max_connections_per_ip = cf_max_connections_per_ip g,
      max_recipients = unat (cf_max_recipients g), has_drain = True\<rparr>"

definition proxy_config_of :: "boot_env \<Rightarrow> config \<Rightarrow> upstream_tls \<Rightarrow> proxy_config" where
  "proxy_config_of E g t =
     \<lparr>api = codec E,
      relay = \<lparr>host = cf_tohost g, port = unat (cf_toport g), relay_timeout = 60 * 1000, tls = t, tls_server_name = None\<rparr>,
      messages_per_minute = cf_max_messages_per_minute g, os_text = io_text E\<rparr>"

definition drain_timeout_of :: "config \<Rightarrow> nat option" where
  "drain_timeout_of g = (if cf_drain_timeout g \<noteq> 0 then Some (unat (cf_drain_timeout g) * 1000) else None)"

record program =
  prog_server :: server_config
  prog_proxy :: proxy_config
  prog_verifier :: "verifier option"
  prog_listeners :: "listen_addr option list"
  prog_drain_timeout :: "nat option"

fun join_comma :: "bytes list \<Rightarrow> bytes" where
  "join_comma [] = []"
| "join_comma [x] = x"
| "join_comma (x # y # xs) = x @ '', '' @ join_comma (y # xs)"

definition smtplog_open :: "boot_env \<Rightarrow> bytes \<Rightarrow> bool \<Rightarrow> bytes \<Rightarrow> bool boot" where
  "smtplog_open E path credentials message =
     boot_then (boot_call (Opens path) message (open_append E path)) (\<lambda>_. boot_return credentials)"

definition open_smtplog :: "boot_env \<Rightarrow> config \<Rightarrow> bool option boot" where
  "open_smtplog E g =
     (case cf_smtplog g of
        None \<Rightarrow> boot_return None
      | Some path \<Rightarrow>
          boot_then (smtplog_open E path (cf_credentials g) (''Could not open '' @ path @ '': ''))
            (\<lambda>credentials. boot_return (Some credentials)))"

text \<open>\<open>ApiClient::new\<close>: the HTTP client may fail to be built.\<close>

definition api_client_new :: "boot_env \<Rightarrow> unit boot" where
  "api_client_new E = boot_then (boot_event InstallsProvider) (\<lambda>_. boot_call UsesProvider [] (http_client E))"

definition signals_new :: "boot_env \<Rightarrow> unit boot" where
  "signals_new E = ([HandlesSignals], if signal_handlers E then Inr () else Inl Panicked)"

definition announce_listeners :: "boot_env \<Rightarrow> config \<Rightarrow> listen_addr option list \<Rightarrow> unit boot" where
  "announce_listeners E g ls =
     boot_then
       (boot_event (Prints (''Waiting for connections on '' @
          join_comma (map (\<lambda>l. case l of None \<Rightarrow> [] | Some a \<Rightarrow> show_addr E a) ls) @ [LF]))) (\<lambda>_.
     boot_event (Prints (''Will forward mails to '' @ cf_tohost g @ '':'' @ show_nat (unat (cf_toport g)) @ [LF])))"

definition run_boot :: "boot_env \<Rightarrow> config \<Rightarrow> program boot" where
  "run_boot E g =
     boot_then (load_tls E (cf_tls_cert g) (cf_tls_key g)) (\<lambda>_.
     boot_then (upstream_tls_build E (cf_upstream_tls g) (cf_upstream_tls_ca g) (cf_upstream_tls_insecure g)) (\<lambda>(t, v).
     boot_then (open_smtplog E g) (\<lambda>wirelog.
     boot_then (listener_bind E (cf_listen g)) (\<lambda>ls.
     boot_then (case cf_user g of None \<Rightarrow> boot_return () | Some user \<Rightarrow> drop_to E user) (\<lambda>_.
     boot_then (api_client_new E) (\<lambda>_.
     boot_then (boot_event StartsPruner) (\<lambda>_.
     boot_then (boot_event StartsProbe) (\<lambda>_.
     boot_then (signals_new E) (\<lambda>_.
     boot_then (announce_listeners E g ls) (\<lambda>_.
     boot_then (boot_event Serves) (\<lambda>_.
     boot_return \<lparr>prog_server = server_config_of g wirelog, prog_proxy = proxy_config_of E g t, prog_verifier = v,
                  prog_listeners = ls, prog_drain_timeout = drain_timeout_of g\<rparr>)))))))))))"


section \<open>The end\<close>

text \<open>\<open>Drain::wait_drained\<close>; \<open>ended\<close> is the time at which the tracker is empty, if it ever is.\<close>

definition wait_drained :: "nat option \<Rightarrow> nat option \<Rightarrow> bool option" where
  "wait_drained timeout ended =
     (case timeout of
        Some limit \<Rightarrow> Some (case ended of Some t \<Rightarrow> t \<le> limit | None \<Rightarrow> False)
      | None \<Rightarrow> (case ended of Some t \<Rightarrow> Some True | None \<Rightarrow> None))"

definition listener_outcome :: "serve_outcome \<Rightarrow> boot_failure + unit" where
  "listener_outcome r =
     (case r of Clean \<Rightarrow> Inr () | ListenerFailed \<Rightarrow> Inl (Failed ''An accept loop ended abnormally''))"

text \<open>
  What each \<open>select!\<close> of \<open>run\<close> wakes up on. The first: \<open>serve\<close> gave up on its own, or a signal came, and with it
  the drain begins. The second: \<open>serve\<close> returned and the drain is waited for, or another signal came. A
  drain without a limit may be waited for for ever: \<^const>\<open>None\<close>.

  \<open>serve\<close> is a future: calling it runs nothing, its body (the limits, the accept loops) starts when a \<open>select!\<close> first
  asks it. A \<open>select!\<close> asks its branches in a random order and does not ask the rest once one is ready, so a
  signal that was already there may win before \<open>serve\<close> has been asked at all: the flag of a signal says whether
  \<open>serve\<close> was asked in the wait that it ended.
\<close>

datatype wake = ServeEnded serve_outcome | Signal bool

datatype drain_end = Drains serve_outcome "nat option" | SecondSignal bool

definition serve_polled :: "wake \<Rightarrow> drain_end \<Rightarrow> bool" where
  "serve_polled first second =
     (case first of
        ServeEnded r \<Rightarrow> True
      | Signal was_polled \<Rightarrow> was_polled \<or> (case second of Drains r ended \<Rightarrow> True | SecondSignal was_polled' \<Rightarrow> was_polled'))"

definition run_serve :: "'s semaphore \<Rightarrow> program \<Rightarrow> wake \<Rightarrow> drain_end \<Rightarrow> (boot_failure + unit) option" where
  "run_serve S p first second =
     (if serve_polled first second \<and>
         (serve_start S (prog_server p) (length (prog_listeners p)) :: ('s, proxy_handler) server option) = None
      then Some (Inl Panicked)
      else
        (case first of
           ServeEnded r \<Rightarrow> Some (listener_outcome r)
         | Signal was_polled \<Rightarrow>
             (case second of
                Drains r ended \<Rightarrow>
                  (case wait_drained (prog_drain_timeout p) ended of
                     None \<Rightarrow> None
                   | Some in_time \<Rightarrow> Some (listener_outcome r))
              | SecondSignal was_polled' \<Rightarrow> Some (listener_outcome Clean))))"

definition exit_status :: "boot_failure + 'a \<Rightarrow> nat" where
  "exit_status r = (case r of Inr _ \<Rightarrow> 0 | Inl (Failed _) \<Rightarrow> 1 | Inl Panicked \<Rightarrow> 101)"

definition main_status ::
  "boot_env \<Rightarrow> 's semaphore \<Rightarrow> process_exit + config \<Rightarrow> wake \<Rightarrow> drain_end \<Rightarrow> nat option" where
  "main_status E S args first second =
     (case args of
        Inl e \<Rightarrow> Some (exit_code e)
      | Inr g \<Rightarrow>
          (case init_logging (open_append E) (cf_logpath g) (cf_loglevel g) of
             Inl e \<Rightarrow> Some 1
           | Inr _ \<Rightarrow>
               (case run_boot E g of
                  (_, Inl e) \<Rightarrow> Some (exit_status (Inl e :: boot_failure + unit))
                | (_, Inr p) \<Rightarrow> map_option exit_status (run_serve S p first second))))"


section \<open>Traces\<close>

lemma boot_then_Inr:
  "boot_then m k = (t, Inr b) \<longleftrightarrow> (\<exists>t1 a t2. m = (t1, Inr a) \<and> k a = (t2, Inr b) \<and> t = t1 @ t2)"
  by (cases m) (auto simp: boot_then_def split: sum.splits prod.splits)

lemma boot_simps [simp]:
  "boot_return a = (t, Inr b) \<longleftrightarrow> t = [] \<and> b = a"
  "boot_fail e \<noteq> (t, Inr b)"
  "boot_event ev = (t, Inr u) \<longleftrightarrow> t = [ev]"
  "boot_try msg r = (t, Inr b) \<longleftrightarrow> t = [] \<and> r = Inr b"
  "boot_call ev msg r = (t, Inr b) \<longleftrightarrow> t = [ev] \<and> r = Inr b"
  by (auto simp: boot_return_def boot_fail_def boot_event_def boot_try_def boot_call_def split: sum.splits)

text \<open>The steps that only read files leave no event of their own.\<close>

lemma load_tls_trace: "load_tls E cert key = (t, Inr u) \<Longrightarrow> t = [UsesProvider]"
  by (auto simp: load_tls_def boot_then_Inr)

lemma add_roots_Inr:
  "add_roots E path cs roots = (t, Inr all) \<Longrightarrow> t = [] \<and> (\<exists>ds. cs = map Inr ds \<and> all = roots @ ds)"
proof (induction cs arbitrary: t roots)
  case (Cons c cs)
  then obtain d where "c = Inr d" "add_roots E path cs (roots @ [d]) = (t, Inr all)"
    by (auto simp: boot_then_Inr)
  with Cons.IH [of "roots @ [d]" t] show ?case by (auto intro: exI [of _ "d # _"])
qed simp

lemma bind_all_Inr: "bind_all E as = (t, Inr ls) \<Longrightarrow> t = map Binds as \<and> length ls = length as"
  by (induction as arbitrary: t ls) (auto simp: boot_then_Inr)

lemma open_smtplog_Inr: "open_smtplog E g = (t, Inr wirelog) \<Longrightarrow> list_all (\<lambda>e. \<exists>p. e = Opens p) t"
  by (auto simp: open_smtplog_def smtplog_open_def boot_then_Inr split: option.splits)

lemma upstream_tls_build_Inr:
  assumes "upstream_tls_build E m ca insecure = (t, Inr (u, v))"
  shows "t = []" "mode u = m" "v = None \<longleftrightarrow> m = Off" "v = Some NoVerify \<longleftrightarrow> m \<noteq> Off \<and> insecure"
proof -
  have "t = [] \<and> mode u = m \<and> (v = None \<longleftrightarrow> m = Off) \<and> (v = Some NoVerify \<longleftrightarrow> m \<noteq> Off \<and> insecure)"
    using assms add_roots_Inr
    by (cases ca) (fastforce simp: upstream_tls_build_def upstream_tls_off_def boot_then_Inr Let_def split: if_splits)+
  then show "t = []" "mode u = m" "v = None \<longleftrightarrow> m = Off" "v = Some NoVerify \<longleftrightarrow> m \<noteq> Off \<and> insecure" by simp_all
qed

lemma drop_to_Inr:
  assumes "drop_to E user = (t, Inr u)"
  obtains entry where "from_name E user = Inr (Some entry)" "CHR 0x00 \<notin> set user"
    "t = [InitGroups user (entry_gid entry), SetGid (entry_gid entry), SetUid (entry_uid entry)]"
    "init_groups (syscalls E) user (entry_gid entry) = Inr ()" "set_gid (syscalls E) (entry_gid entry) = Inr ()"
    "set_uid (syscalls E) (entry_uid entry) = Inr ()"
proof -
  have c: "c_string user = Inr n \<Longrightarrow> n = user \<and> CHR 0x00 \<notin> set user" for n
    by (auto simp: c_string_def position_None split: option.splits)
  show thesis using assms that c
    by (fastforce simp: drop_to_def drop_with_def boot_then_Inr split: option.splits)
qed

text \<open>A step that never serves; a step that serves only if it does not fail.\<close>

definition quiet :: "'a boot \<Rightarrow> bool" where
  "quiet m \<longleftrightarrow> Serves \<notin> set (fst m)"

definition serves_or_fails :: "'a boot \<Rightarrow> bool" where
  "serves_or_fails m \<longleftrightarrow> (\<forall>t e. m = (t, Inl e) \<longrightarrow> Serves \<notin> set t)"

lemma quiet_then [intro]: "quiet m \<Longrightarrow> (\<And>a. quiet (k a)) \<Longrightarrow> quiet (boot_then m k)"
  by (auto simp: quiet_def boot_then_def split: prod.splits sum.splits) (metis fst_conv)+

lemma serves_then: "quiet m \<Longrightarrow> (\<And>a. serves_or_fails (k a)) \<Longrightarrow> serves_or_fails (boot_then m k)"
  by (auto simp: quiet_def serves_or_fails_def boot_then_def split: prod.splits sum.splits)

lemma quiet_simps [simp]:
  "quiet (boot_return a)" "quiet (boot_fail e)" "quiet (boot_try msg r)"
  "quiet (boot_event ev) \<longleftrightarrow> ev \<noteq> Serves" "quiet (boot_call ev msg q) \<longleftrightarrow> ev \<noteq> Serves"
  by (auto simp: quiet_def boot_return_def boot_fail_def boot_try_def boot_event_def boot_call_def)

lemma quiet_add_roots: "quiet (add_roots E path cs roots)"
  by (induction cs arbitrary: roots) (simp_all add: quiet_then)

lemma quiet_bind_all: "quiet (bind_all E as)"
  by (induction as) (simp_all add: quiet_then)

lemma quiet_listener_bind: "quiet (listener_bind E as)"
  unfolding listener_bind_def by (intro quiet_then quiet_bind_all) simp

lemma quiet_drop_to: "quiet (drop_to E user)"
  unfolding drop_to_def drop_with_def
  by (rule quiet_then, simp, simp split: option.split) (intro allI impI quiet_then; simp)

lemma quiet_load_tls: "quiet (load_tls E cert key)"
  unfolding load_tls_def by (intro quiet_then; simp)

lemma quiet_upstream_tls_build: "quiet (upstream_tls_build E m ca insecure)"
proof -
  have "quiet (boot_then (boot_try msg (pem_file_iter E path))
      (\<lambda>certs. boot_then (add_roots E path certs roots) (\<lambda>all. boot_return (RootStore all))))" for msg path roots
    by (intro quiet_then; simp add: quiet_add_roots)
  then have "quiet (if insecure then boot_return NoVerify
      else let roots = filter (\<lambda>cert. is_ok (add_root E cert)) (native_certs E)
           in case ca of
                None \<Rightarrow> boot_return (RootStore roots)
              | Some path \<Rightarrow>
                  boot_then (boot_try (''cannot read CA file '' @ path @ '': '') (pem_file_iter E path))
                    (\<lambda>certs. boot_then (add_roots E path certs roots) (\<lambda>all. boot_return (RootStore all))))"
    by (simp add: Let_def split: option.split)
  then show ?thesis unfolding upstream_tls_build_def by (simp add: quiet_then)
qed

lemma quiet_open_smtplog: "quiet (open_smtplog E g)"
  unfolding open_smtplog_def smtplog_open_def by (simp split: option.split) (intro allI impI quiet_then; simp)

lemma quiet_signals_new: "quiet (signals_new E)"
  by (simp add: quiet_def signals_new_def)

lemma quiet_announce_listeners: "quiet (announce_listeners E g ls)"
  unfolding announce_listeners_def by (intro quiet_then; simp)

lemma quiet_user: "quiet (case u of None \<Rightarrow> boot_return () | Some user \<Rightarrow> drop_to E user)"
  by (simp add: quiet_drop_to split: option.split)

lemma quiet_api_client: "quiet (api_client_new E)"
  unfolding api_client_new_def by (intro quiet_then) simp_all

lemma quiet_spawns: "quiet (boot_event StartsPruner)" "quiet (boot_event StartsProbe)"
  by simp_all

lemmas quiet_steps = quiet_load_tls quiet_upstream_tls_build quiet_open_smtplog quiet_listener_bind quiet_user
  quiet_api_client quiet_spawns quiet_signals_new quiet_announce_listeners

lemma serves_case: "(\<And>x y. serves_or_fails (k x y)) \<Longrightarrow> serves_or_fails (case a of (x, y) \<Rightarrow> k x y)"
  by (cases a) simp

lemma serves_last: "serves_or_fails (boot_then (boot_event Serves) (\<lambda>_. boot_return p))"
  by (simp add: serves_or_fails_def boot_then_def boot_event_def boot_return_def)

lemma run_boot_serves_last: "serves_or_fails (run_boot E g)"
  unfolding run_boot_def
  by (rule serves_case | (rule serves_then, rule quiet_steps) | rule serves_last)+

definition drops_to :: "boot_env \<Rightarrow> bytes option \<Rightarrow> boot_event list \<Rightarrow> bool" where
  "drops_to E u t \<longleftrightarrow>
     (case u of
        None \<Rightarrow> t = []
      | Some user \<Rightarrow>
          (\<exists>entry. from_name E user = Inr (Some entry) \<and>
             t = [InitGroups user (entry_gid entry), SetGid (entry_gid entry), SetUid (entry_uid entry)] \<and>
             init_groups (syscalls E) user (entry_gid entry) = Inr () \<and>
             set_gid (syscalls E) (entry_gid entry) = Inr () \<and> set_uid (syscalls E) (entry_uid entry) = Inr ()))"

lemma run_boot_Inr:
  assumes "run_boot E g = (t, Inr p)"
  obtains wirelog u v fs ls ds a b where
    "p = \<lparr>prog_server = server_config_of g wirelog, prog_proxy = proxy_config_of E g u, prog_verifier = v,
          prog_listeners = ls, prog_drain_timeout = drain_timeout_of g\<rparr>"
    "upstream_tls_build E (cf_upstream_tls g) (cf_upstream_tls_ca g) (cf_upstream_tls_insecure g) = ([], Inr (u, v))"
    "t = UsesProvider # fs @ InstallsProvider # map Binds (cf_listen g) @ ds @
       [InstallsProvider, UsesProvider, StartsPruner, StartsProbe, HandlesSignals, Prints a, Prints b, Serves]"
    "list_all (\<lambda>e. \<exists>f. e = Opens f) fs" "drops_to E (cf_user g) ds" "length ls = length (cf_listen g)"
proof -
  obtain t1 t2 t3 t4 t5 t6 t7 u v wirelog ls where
    s: "load_tls E (cf_tls_cert g) (cf_tls_key g) = (t1, Inr ())"
      "upstream_tls_build E (cf_upstream_tls g) (cf_upstream_tls_ca g) (cf_upstream_tls_insecure g) = (t2, Inr (u, v))"
      "open_smtplog E g = (t3, Inr wirelog)" "bind_all E (cf_listen g) = (t4, Inr ls)"
      "(case cf_user g of None \<Rightarrow> boot_return () | Some user \<Rightarrow> drop_to E user) = (t5, Inr ())"
      "signals_new E = (t6, Inr ())" "announce_listeners E g ls = (t7, Inr ())"
    and t: "t = t1 @ t2 @ t3 @ [InstallsProvider] @ t4 @ t5 @ [InstallsProvider, UsesProvider, StartsPruner, StartsProbe] @ t6 @ t7 @ [Serves]"
    and p: "p = \<lparr>prog_server = server_config_of g wirelog, prog_proxy = proxy_config_of E g u, prog_verifier = v,
          prog_listeners = ls, prog_drain_timeout = drain_timeout_of g\<rparr>"
    using assms unfolding run_boot_def by (auto simp: boot_then_Inr api_client_new_def listener_bind_def)
  have "t1 = [UsesProvider]" "t2 = []" using s(1,2) load_tls_trace upstream_tls_build_Inr(1) by blast+
  moreover have "t6 = [HandlesSignals]" using s(6) by (simp add: signals_new_def split: if_splits)
  moreover obtain a b where "t7 = [Prints a, Prints b]" using s(7) by (auto simp: announce_listeners_def boot_then_Inr)
  moreover have "t4 = map Binds (cf_listen g) \<and> length ls = length (cf_listen g)" using s(4) by (rule bind_all_Inr)
  moreover have "drops_to E (cf_user g) t5"
    using s(5) drop_to_Inr by (fastforce simp: drops_to_def split: option.splits)
  ultimately show thesis using that [of wirelog u v ls t3 t5 a b] s t p open_smtplog_Inr by simp
qed

text \<open>
  C18. The order of the start-up is the safe one, and a failure stops it. The program comes to accept
  connections only when every step went well. Then all sockets were bound first; with \<open>--user\<close> the process
  set its groups, its group and its user, in this order and each successfully, to those of that user,
  before it talked to anyone or served; and signals were handled before the first connection. The crypto provider
  is installed before the HTTP client is built, but the server's TLS is set up before that.
\<close>

theorem start_up_order:
  "case run_boot E g of
     (t, Inl e) \<Rightarrow> Serves \<notin> set t
   | (t, Inr p) \<Rightarrow>
       \<exists>fs ds a b.
         t = UsesProvider # fs @ InstallsProvider # map Binds (cf_listen g) @ ds @
           [InstallsProvider, UsesProvider, StartsPruner, StartsProbe, HandlesSignals, Prints a, Prints b, Serves] \<and>
         list_all (\<lambda>e. \<exists>f. e = Opens f) fs \<and> drops_to E (cf_user g) ds"
proof (cases "run_boot E g")
  case (Pair t r)
  show ?thesis
  proof (cases r)
    case (Inl e)
    then show ?thesis using Pair run_boot_serves_last [of E g] by (simp add: serves_or_fails_def)
  next
    case (Inr p)
    then have "run_boot E g = (t, Inr p)" using Pair by simp
    then show ?thesis by (rule run_boot_Inr) (use Pair Inr in auto)
  qed
qed

text \<open>
  C31. \<open>--max_connections\<close> is not checked against what the semaphore can hold: a value above its limit is
  accepted on the command line, the sockets are bound, the privileges dropped, and then the process
  panics (status 101) where the limits are set up, which is when \<open>serve\<close> is first asked. The one way out is an operator
  who has sent two signals before that: then nothing was ever served, and the status is 0.
\<close>

theorem max_connections_panics:
  assumes "counting_semaphore S available max_permits"
    and "parse_args usage man texts written parsed = Inr g" "max_permits < unat (cf_max_connections g)"
    and "init_logging (open_append E) (cf_logpath g) (cf_loglevel g) = Inr logs" "run_boot E g = (t, Inr p)"
  shows "main_status E S (parse_args usage man texts written parsed) first second =
           Some (if serve_polled first second then 101 else 0)"
proof -
  have m: "max_connections (prog_server p) = cf_max_connections g"
    by (rule run_boot_Inr [OF assms(5)]) (simp add: server_config_of_def)
  have "sem_new S (unat (cf_max_connections g)) = None"
    using counting_semaphore.new_panics [OF assms(1,3)] .
  moreover have "cf_max_connections g \<noteq> 0" using assms(3) by auto
  ultimately have "limits_new S (max_connections (prog_server p)) (max_connections_per_ip (prog_server p)) = None"
    using m by (simp add: limits_new_def)
  then show ?thesis using assms(2,4,5)
    by (simp add: main_status_def run_serve_def serve_start_def exit_status_def serve_polled_def listener_outcome_def
        split: wake.split drain_end.split)
qed

definition sample_boot :: boot_env where
  "sample_boot =
     \<lparr>pem_file_iter = (\<lambda>_. Inr [Inr ''c'']), key_from_pem_file = (\<lambda>_. Inr ''k''), with_single_cert = (\<lambda>_ _. Inr ()),
      safe_protocol_versions = Inr (), native_certs = [''r''], add_root = (\<lambda>_. Inr ()), open_append = (\<lambda>_. Inr ()),
      tcp_bind = (\<lambda>a. Inr (Some a)), from_name = (\<lambda>_. Inr (Some \<lparr>entry_uid = 8, entry_gid = 9\<rparr>)),
      syscalls = \<lparr>init_groups = (\<lambda>_ _. Inr ()), set_gid = (\<lambda>_. Inr ()), set_uid = (\<lambda>_. Inr ())\<rparr>,
      http_client = Inr (), signal_handlers = True, show_addr = (\<lambda>_. ''addr''), codec = sample_api,
      io_text = (\<lambda>_. ''os'')\<rparr>"

definition sample_cli :: cli where
  "sample_cli =
     cli_defaults\<lparr>cli_listen := [''127.0.0.1:25''], cli_user := Some ''mail'', cli_tohost := Some ''mx'', cli_toport := Some 25,
       cli_tls_cert := Some ''c.pem'', cli_tls_key := Some ''k.pem'', cli_api := Some ''http://a'',
       cli_max_connections := 0xFFFFFFFFFFFFFFFF\<rparr>"

abbreviation sample_args :: "process_exit + config" where
  "sample_args \<equiv> parse_args ''usage'' ''man'' (\<lambda>_. ''os'') None (Inr sample_cli)"

lemma sample_args_accepted:
  obtains g where "sample_args = Inr g" "unat (cf_max_connections g) = 18446744073709551615"
    "cf_logpath g = Some ''/dev/stderr''" "cf_loglevel g = ''debug''"
    "\<exists>t p. run_boot sample_boot g = (t, Inr p)"
proof -
  have "case sample_args of Inl _ \<Rightarrow> False
      | Inr g \<Rightarrow> cf_max_connections g = 0xFFFFFFFFFFFFFFFF \<and> cf_logpath g = Some ''/dev/stderr'' \<and>
          cf_loglevel g = ''debug'' \<and> (case run_boot sample_boot g of (_, Inr _) \<Rightarrow> True | _ \<Rightarrow> False)" by code_simp
  then show thesis using that by (cases sample_args) (auto split: prod.splits sum.splits)
qed

theorem max_connections_panics_witness:
  "main_status sample_boot counter sample_args (Signal True) (SecondSignal True) = Some 101 \<and>
   main_status sample_boot counter sample_args (Signal False) (SecondSignal False) = Some 0"
proof -
  obtain g t p where g: "sample_args = Inr g" "unat (cf_max_connections g) = 18446744073709551615"
    "cf_logpath g = Some ''/dev/stderr''" "cf_loglevel g = ''debug''" "run_boot sample_boot g = (t, Inr p)"
    using sample_args_accepted by metis
  have "init_logging (open_append sample_boot) (Some ''/dev/stderr'') ''debug'' = Inr (Stderr, Some DEBUG)" by code_simp
  then have "init_logging (open_append sample_boot) (cf_logpath g) (cf_loglevel g) = Inr (Stderr, Some DEBUG)"
    using g(3,4) by (simp only:)
  moreover have "2 ^ 61 - 1 < unat (cf_max_connections g)" using g(2) by simp
  ultimately have m: "main_status sample_boot counter sample_args first second =
      Some (if serve_polled first second then 101 else 0)" for first second
    using max_connections_panics [OF counter.counting_semaphore_axioms g(1) _ _ g(5)] by blast
  show ?thesis by (simp add: m serve_polled_def)
qed

text \<open>An accept loop that panicked is never reported as a clean exit.\<close>

lemma listener_failure_status:
  "main_status E S (Inr g) (ServeEnded ListenerFailed) d \<noteq> Some 0"
  by (auto simp: main_status_def run_serve_def listener_outcome_def exit_status_def split: sum.splits prod.splits option.splits boot_failure.splits)

end
