(* ===== verification/Shutdown.thy ===== *)
theory Shutdown
  imports Startup
begin

text \<open>
  \<open>src/src/shutdown.rs\<close>: the operator's stop signals, and the two waits of \<open>run\<close> in \<open>src/src/main.rs\<close> that they end. The
  point of \<open>Signals\<close> is that one value serves both waits: a signal that comes between them, while nobody
  waits, is not lost.

  The streams of tokio are a parameter, with what their documentation promises as the locale \<open>signal_stream\<close>: a
  receiver hears a signal delivered after it was registered, at the latest when it is asked next, and asking
  in vain changes nothing. That signals of one kind which nobody has asked for yet come out as one is
  allowed, and true of the interpretation.
\<close>

record 'q signal_ops =
  listening :: 'q
  delivered_to :: "'q \<Rightarrow> 'q"
  poll :: "'q \<Rightarrow> bool \<times> 'q"

locale signal_stream =
  fixes S :: "'q signal_ops"
  assumes silent: "\<not> fst (poll S (listening S))"
    and heard: "fst (poll S (delivered_to S q))"
    and in_vain: "\<not> fst (poll S q) \<Longrightarrow> snd (poll S q) = q"

datatype stop_signal = Sigterm | Sigint

record 'q signals =
  term_stream :: 'q
  interrupt_stream :: 'q

definition signals_fresh :: "'q signal_ops \<Rightarrow> 'q signals" where
  "signals_fresh S = \<lparr>term_stream = listening S, interrupt_stream = listening S\<rparr>"

text \<open>A signal arrives; the process does nothing yet.\<close>

definition raise_signal :: "'q signal_ops \<Rightarrow> 'q signals \<Rightarrow> stop_signal \<Rightarrow> 'q signals" where
  "raise_signal S s g =
     (case g of
        Sigterm \<Rightarrow> s\<lparr>term_stream := delivered_to S (term_stream s)\<rparr>
      | Sigint \<Rightarrow> s\<lparr>interrupt_stream := delivered_to S (interrupt_stream s)\<rparr>)"

definition raised :: "'q signal_ops \<Rightarrow> stop_signal list \<Rightarrow> 'q signals \<Rightarrow> 'q signals" where
  "raised S gs s = fold (\<lambda>g s. raise_signal S s g) gs s"

text \<open>\<open>Signals::recv\<close>, asked once. \<open>select!\<close> asks its branches in an order of its own; the first that is ready wins.\<close>

definition recv :: "'q signal_ops \<Rightarrow> bool \<Rightarrow> 'q signals \<Rightarrow> bool \<times> 'q signals" where
  "recv S term_first s =
     (let (t, q) = poll S (term_stream s); (i, p) = poll S (interrupt_stream s)
      in if term_first
         then (if t then (True, s\<lparr>term_stream := q\<rparr>)
               else if i then (True, s\<lparr>term_stream := q, interrupt_stream := p\<rparr>)
               else (False, s\<lparr>term_stream := q, interrupt_stream := p\<rparr>))
         else (if i then (True, s\<lparr>interrupt_stream := p\<rparr>)
               else if t then (True, s\<lparr>term_stream := q, interrupt_stream := p\<rparr>)
               else (False, s\<lparr>term_stream := q, interrupt_stream := p\<rparr>)))"

text \<open>
  A \<open>select!\<close> between \<open>signals.recv()\<close> and another future, over what happens while it waits: a signal is raised, or the
  other future completes. The result is \<open>Some None\<close> for a signal, \<open>Some (Some d)\<close> for the other, \<^const>\<open>None\<close> when neither
  ever comes. Where both are ready \<open>tie\<close> says which one is asked first.
\<close>

datatype 'd moment = Raised stop_signal | Completes 'd

fun select_signal ::
  "'q signal_ops \<Rightarrow> bool \<Rightarrow> bool \<Rightarrow> 'd moment list \<Rightarrow> 'q signals \<Rightarrow> ('d option \<times> 'q signals) option" where
  "select_signal S f tie [] s = (case recv S f s of (woken, s') \<Rightarrow> if woken then Some (None, s') else None)"
| "select_signal S f tie (Raised g # ms) s =
     (case recv S f s of
        (woken, s') \<Rightarrow> if woken then Some (None, s') else select_signal S f tie ms (raise_signal S s' g))"
| "select_signal S f tie (Completes d # ms) s =
     (case recv S f s of (woken, s') \<Rightarrow> if woken \<and> tie then Some (None, s') else Some (Some d, s))"

text \<open>
  Whether a \<open>select!\<close> that a signal ends has asked its other future at all: not when the signal was there at the first asking
  and was asked for first.
\<close>

definition other_asked :: "'q signal_ops \<Rightarrow> bool \<Rightarrow> bool \<Rightarrow> 'q signals \<Rightarrow> bool" where
  "other_asked S f tie s \<longleftrightarrow> \<not> (tie \<and> fst (recv S f s))"

text \<open>
  The end of \<open>run\<close>, from the registration of the signals: what is raised before the first wait, that wait, what is raised
  while the drain is begun, the second wait. The other future of the second wait is \<open>serve\<close> and then the drain, which
  completes with what \<open>serve\<close> returned and when the tracker was empty.
\<close>

definition run_shutdown ::
  "'q signal_ops \<Rightarrow> bool \<Rightarrow> bool \<Rightarrow> bool \<Rightarrow> 's semaphore \<Rightarrow> program \<Rightarrow> stop_signal list \<Rightarrow> serve_outcome moment list \<Rightarrow>
   stop_signal list \<Rightarrow> (serve_outcome \<times> nat option) moment list \<Rightarrow> (boot_failure + unit) option" where
  "run_shutdown S f tie tie' M p early serving between draining =
     (let s = raised S early (signals_fresh S)
      in case select_signal S f tie serving s of
           None \<Rightarrow> None
         | Some (Some r, _) \<Rightarrow> run_serve M p (ServeEnded r) (SecondSignal True)
         | Some (None, s1) \<Rightarrow>
             (let s2 = raised S between s1; woken_by = Signal (other_asked S f tie s)
              in case select_signal S f tie' draining s2 of
                   None \<Rightarrow> None
                 | Some (Some (r, ended), _) \<Rightarrow> run_serve M p woken_by (Drains r ended)
                 | Some (None, _) \<Rightarrow> run_serve M p woken_by (SecondSignal (other_asked S f tie' s2))))"

context signal_stream
begin

lemma recv_fresh: "\<not> fst (recv S f (signals_fresh S))"
  using silent by (simp add: recv_def signals_fresh_def split_beta)

lemma recv_raised: "fst (recv S f (raise_signal S s g))"
  using heard by (cases g) (simp_all add: recv_def raise_signal_def split_beta)

lemma recv_in_vain: "\<not> fst (recv S f s) \<Longrightarrow> snd (recv S f s) = s"
  using in_vain by (auto simp: recv_def split_beta split: if_splits)

text \<open>A signal that is waiting to be asked for ends the wait, unless the other future is ready too.\<close>

lemma select_pending:
  assumes "fst (recv S f s)"
  shows "\<exists>r s'. select_signal S f tie ms s = Some (r, s') \<and> (r = None \<or> (\<exists>d ms'. r = Some d \<and> ms = Completes d # ms'))"
  using assms by (cases "(S, f, tie, ms, s)" rule: select_signal.cases) (auto split: prod.split)

lemma select_wakes: "\<exists>g. Raised g \<in> set ms \<Longrightarrow> \<exists>r s'. select_signal S f tie ms s = Some (r, s')"
proof (induction ms arbitrary: s)
  case (Cons m ms)
  show ?case
  proof (cases m)
    case (Raised g)
    have "\<exists>r s'. select_signal S f tie ms (raise_signal S t g) = Some (r, s')" for t
      using select_pending [OF recv_raised] by blast
    then show ?thesis by (auto simp: Raised split: prod.split)
  qed (auto split: prod.split)
qed simp

lemma select_completes: "select_signal S f tie ms s = Some (Some d, s') \<Longrightarrow> Completes d \<in> set ms"
  by (induction S f tie ms s rule: select_signal.induct) (auto split: prod.splits if_splits)

text \<open>Nothing but a signal wakes the first wait as a signal does.\<close>

lemma select_fresh: "select_signal S f tie ms (signals_fresh S) = Some (None, s) \<Longrightarrow> \<exists>g. Raised g \<in> set ms"
  using recv_fresh [of f] recv_in_vain [of f "signals_fresh S"]
  by (cases "(S, f, tie, ms, signals_fresh S)" rule: select_signal.cases) (auto split: prod.splits if_splits)

lemma raised_between: "gs \<noteq> [] \<Longrightarrow> fst (recv S f (raised S gs s))"
  by (cases gs rule: rev_cases) (simp_all add: raised_def recv_raised)

text \<open>
  A second signal ends the process at once: whether it comes between the two waits or in the second, that wait ends,
  also when the drain has no limit and some session never ends. In between it ends before anything else is waited for.
\<close>

lemma second_signal_ends:
  assumes "select_signal S f tie serving (raised S early (signals_fresh S)) = Some (None, s)"
    and "between \<noteq> [] \<or> (\<exists>g. Raised g \<in> set draining)"
    and "\<And>r t. Completes (r, t) \<in> set draining \<Longrightarrow> wait_drained (prog_drain_timeout p) t \<noteq> None"
  shows "\<exists>x. run_shutdown S f tie tie' M p early serving between draining = Some x"
proof -
  let ?s = "raised S between s"
  obtain r s' where sel: "select_signal S f tie' draining ?s = Some (r, s')"
    using assms(2) select_wakes [of draining f tie' ?s] select_pending [OF raised_between, of between f tie' draining s] by blast
  show ?thesis
  proof (cases r)
    case None
    then show ?thesis using assms(1) sel by (auto simp: run_shutdown_def run_serve_def Let_def split: option.split)
  next
    case (Some d)
    have "Completes d \<in> set draining" by (rule select_completes [OF sel [unfolded Some]])
    then obtain b where "wait_drained (prog_drain_timeout p) (snd d) = Some b" using assms(3) [of "fst d" "snd d"] by auto
    then show ?thesis using assms(1) sel Some
      by (cases d) (auto simp: run_shutdown_def run_serve_def Let_def split: option.split)
  qed
qed

end

text \<open>A stream that remembers whether there was a signal since it was asked.\<close>

definition flag_stream :: "bool signal_ops" where
  "flag_stream = \<lparr>listening = False, delivered_to = (\<lambda>_. True), poll = (\<lambda>q. (q, False))\<rparr>"

interpretation flag: signal_stream flag_stream
  by unfold_locales (simp_all add: flag_stream_def)

end
