(* ===== verification/Process_Globals.thy ===== *)
theory Process_Globals
  imports Startup
begin

text \<open>
  What the process has one of: the crypto provider of \<open>src/src/lib.rs\<close> and the subscriber that \<open>init\<close> of
  \<open>src/src/logging.rs\<close> installs. Both are kept by a package (rustls, tracing) in a cell that can be set once,
  and that cell is a parameter, with what its documentation says as the locale \<open>set_once\<close>: the first value
  stays, and a later attempt to set it is told so. An option interprets it.
\<close>

record ('v, 'g) cell_ops =
  cell_new :: 'g
  cell_get :: "'g \<Rightarrow> 'v option"
  cell_set :: "'v \<Rightarrow> 'g \<Rightarrow> bool \<times> 'g"

locale set_once =
  fixes K :: "('v, 'g) cell_ops"
  assumes cell_empty: "cell_get K (cell_new K) = None"
    and cell_first: "cell_get K g = None \<Longrightarrow> fst (cell_set K v g) \<and> cell_get K (snd (cell_set K v g)) = Some v"
    and cell_later: "cell_get K g = Some u \<Longrightarrow> \<not> fst (cell_set K v g) \<and> cell_get K (snd (cell_set K v g)) = Some u"


section \<open>The crypto provider\<close>

text \<open>\<open>ONCE\<close>, whether its closure has run, and the provider of the process.\<close>

record 'g crypto =
  once_done :: bool
  provider :: 'g

definition crypto_fresh :: "('v, 'g) cell_ops \<Rightarrow> 'g crypto" where
  "crypto_fresh K = \<lparr>once_done = False, provider = cell_new K\<rparr>"

definition install_crypto_provider :: "('v, 'g) cell_ops \<Rightarrow> 'v \<Rightarrow> 'g crypto \<Rightarrow> 'g crypto" where
  "install_crypto_provider K ring c =
     (if once_done c then c else c\<lparr>once_done := True, provider := snd (cell_set K ring (provider c))\<rparr>)"

text \<open>
  The provider along a start-up. Where TLS is set up without one, rustls takes the one that was compiled in, if
  it was just one (\<open>builtin\<close>), and installs it; else it panics (\<^const>\<open>None\<close>).
\<close>

fun provider_run :: "('v, 'g) cell_ops \<Rightarrow> 'v \<Rightarrow> 'v option \<Rightarrow> boot_event list \<Rightarrow> 'g crypto \<Rightarrow> 'g crypto option" where
  "provider_run K ring builtin [] c = Some c"
| "provider_run K ring builtin (InstallsProvider # t) c =
     provider_run K ring builtin t (install_crypto_provider K ring c)"
| "provider_run K ring builtin (UsesProvider # t) c =
     (case cell_get K (provider c) of
        Some _ \<Rightarrow> provider_run K ring builtin t c
      | None \<Rightarrow>
          (case builtin of
             None \<Rightarrow> None
           | Some b \<Rightarrow> provider_run K ring builtin t (c\<lparr>provider := snd (cell_set K b (provider c))\<rparr>)))"
| "provider_run K ring builtin (_ # t) c = provider_run K ring builtin t c"


section \<open>The subscriber\<close>

text \<open>\<open>init\<close> with its last step: \<open>SubscriberInitExt::init\<close> panics when there is a subscriber already.\<close>

definition logging_init ::
  "(writer \<times> level option, 'g) cell_ops \<Rightarrow> (bytes \<Rightarrow> bytes + unit) \<Rightarrow> bytes option \<Rightarrow> bytes \<Rightarrow> 'g \<Rightarrow>
   ((bytes + unit) \<times> 'g) option" where
  "logging_init K opens path lvl g =
     (case init_logging opens path lvl of
        Inl e \<Rightarrow> Some (Inl e, g)
      | Inr subscriber \<Rightarrow>
          (case cell_set K subscriber g of (installed, g') \<Rightarrow> if installed then Some (Inr (), g') else None))"

context set_once
begin

definition ready :: "'g crypto \<Rightarrow> bool" where
  "ready c \<longleftrightarrow> (once_done c \<longrightarrow> cell_get K (provider c) \<noteq> None)"

lemma ready_fresh: "ready (crypto_fresh K)"
  by (simp add: ready_def crypto_fresh_def)

text \<open>After a call there is a provider, and the one that was there before stays.\<close>

lemma install_ready:
  assumes "ready c"
  shows "ready (install_crypto_provider K ring c)" "cell_get K (provider (install_crypto_provider K ring c)) \<noteq> None"
  using assms cell_first [of "provider c" ring] cell_later [of "provider c" _ ring]
  by (cases "cell_get K (provider c)"; auto simp: ready_def install_crypto_provider_def)+

lemma install_keeps:
  "cell_get K (provider c) = Some p \<Longrightarrow> cell_get K (provider (install_crypto_provider K ring c)) = Some p"
  using cell_later [of "provider c" p ring] by (simp add: install_crypto_provider_def)

lemma install_idem:
  "install_crypto_provider K ring (install_crypto_provider K ring c) = install_crypto_provider K ring c"
  by (simp add: install_crypto_provider_def)

text \<open>Once there is a provider, nothing on the way takes it away or panics for want of it.\<close>

lemma provider_run_keeps:
  assumes "cell_get K (provider c) = Some p"
  shows "\<exists>c'. provider_run K ring builtin t c = Some c' \<and> cell_get K (provider c') = Some p"
  using assms
proof (induction t arbitrary: c)
  case (Cons e t)
  then show ?case using install_keeps [OF Cons.prems, of ring] by (cases e) simp_all
qed simp

text \<open>
  So the first use decides. A start-up sets up the TLS of the server before \<open>install_crypto_provider\<close> is called: the
  process panics there unless one provider was compiled in, and then runs with that one.
\<close>

lemma boot_provider:
  assumes "run_boot E g = (t, Inr p)"
  shows "provider_run K ring None t (crypto_fresh K) = None"
    and "\<exists>c. provider_run K ring (Some b) t (crypto_fresh K) = Some c \<and> cell_get K (provider c) = Some b"
proof -
  obtain t' where t: "t = UsesProvider # t'" by (rule run_boot_Inr [OF assms]) simp
  have e: "cell_get K (provider (crypto_fresh K)) = None" by (simp add: crypto_fresh_def cell_empty)
  then show "provider_run K ring None t (crypto_fresh K) = None" by (simp add: t)
  have "cell_get K (provider ((crypto_fresh K)\<lparr>provider := snd (cell_set K b (provider (crypto_fresh K)))\<rparr>)) = Some b"
    using cell_first [OF e] by simp
  from provider_run_keeps [OF this] show "\<exists>c. provider_run K ring (Some b) t (crypto_fresh K) = Some c \<and> cell_get K (provider c) = Some b"
    by (simp add: t e)
qed

text \<open>The cell as a whole step.\<close>

lemma set_first: "cell_get K g = None \<Longrightarrow> \<exists>g'. cell_set K v g = (True, g') \<and> cell_get K g' = Some v"
  using cell_first [of g v] by (cases "cell_set K v g") simp

lemma set_later: "cell_get K g \<noteq> None \<Longrightarrow> \<exists>g'. cell_set K v g = (False, g')"
  using cell_later [of g _ v] by (cases "cell_set K v g") auto

end

definition option_cell :: "('v, 'v option) cell_ops" where
  "option_cell =
     \<lparr>cell_new = None, cell_get = (\<lambda>g. g), cell_set = (\<lambda>v g. case g of None \<Rightarrow> (True, Some v) | Some _ \<Rightarrow> (False, g))\<rparr>"

interpretation option_cell: set_once option_cell
  by unfold_locales (simp_all add: option_cell_def)

text \<open>In a process that has none yet the subscriber is installed, with the writer and the filter of the command line.\<close>

lemma logging_init_first:
  assumes "set_once K"
  shows "logging_init K opens path lvl (cell_new K) =
    (case init_logging opens path lvl of
       Inl e \<Rightarrow> Some (Inl e, cell_new K)
     | Inr subscriber \<Rightarrow> Some (Inr (), snd (cell_set K subscriber (cell_new K))))"
    and "logging_init K opens path lvl (cell_new K) = Some (Inr (), g) \<Longrightarrow>
      \<exists>subscriber. init_logging opens path lvl = Inr subscriber \<and> cell_get K g = Some subscriber"
proof -
  have f: "\<exists>g'. cell_set K v (cell_new K) = (True, g') \<and> cell_get K g' = Some v" for v
    using set_once.set_first [OF assms set_once.cell_empty [OF assms]] .
  show e: "logging_init K opens path lvl (cell_new K) =
    (case init_logging opens path lvl of
       Inl e \<Rightarrow> Some (Inl e, cell_new K)
     | Inr subscriber \<Rightarrow> Some (Inr (), snd (cell_set K subscriber (cell_new K))))"
    using f by (cases "init_logging opens path lvl") (auto simp: logging_init_def split: prod.split, metis prod.inject)
  show "\<exists>subscriber. init_logging opens path lvl = Inr subscriber \<and> cell_get K g = Some subscriber"
    if "logging_init K opens path lvl (cell_new K) = Some (Inr (), g)"
    using that f unfolding e by (auto split: sum.splits) (metis snd_conv)
qed

text \<open>A second \<open>init\<close> with arguments that are in order would panic; \<open>main\<close> calls it once.\<close>

lemma logging_init_again:
  assumes "set_once K" "cell_get K g \<noteq> None" "init_logging opens path lvl = Inr subscriber"
  shows "logging_init K opens path lvl g = None"
  using set_once.set_later [OF assms(1,2), of subscriber] assms(3) by (auto simp: logging_init_def)

end
