(* ===== verification/Receipt_Log.thy ===== *)
theory Receipt_Log
  imports Prelude
begin

text \<open>
  \<open>ReceiptLog\<close> of \<open>src/src/server/session.rs\<close>: the debug line for each megabyte of \<open>DATA\<close>. It only logs, so the
  session is modelled without it; what it logs is a function of the lengths of the lines read. The count is
  a \<open>usize\<close> in the source and does not reach its limit.
\<close>

record receipt_log =
  received_bytes :: nat
  logged_mb :: nat

definition receipt_default :: receipt_log where
  "receipt_default = \<lparr>received_bytes = 0, logged_mb = 0\<rparr>"

text \<open>\<open>note\<close>, with the line it logs, if any.\<close>

definition note_bytes :: "nat \<Rightarrow> receipt_log \<Rightarrow> bytes option \<times> receipt_log" where
  "note_bytes n l =
     (let total = received_bytes l + n; l1 = l\<lparr>received_bytes := total\<rparr>
      in if total div 1000000 > logged_mb l
         then (Some (''received '' @ show_nat (total div 1000000) @ '' MB data''), l1\<lparr>logged_mb := total div 1000000\<rparr>)
         else (None, l1))"

text \<open>The lines of a message, one length after the other.\<close>

fun note_all :: "nat list \<Rightarrow> receipt_log \<Rightarrow> bytes list \<times> receipt_log" where
  "note_all [] l = ([], l)"
| "note_all (n # ns) l =
     (let (line, l1) = note_bytes n l; (rest, l2) = note_all ns l1
      in ((case line of None \<Rightarrow> [] | Some t \<Rightarrow> [t]) @ rest, l2))"

text \<open>The count logged last is the number of whole megabytes, and there are never more lines than megabytes.\<close>

lemma note_all_counts:
  assumes "logged_mb l = received_bytes l div 1000000" "note_all ns l = (ls, l')"
  shows "received_bytes l' = received_bytes l + sum_list ns" "logged_mb l' = received_bytes l' div 1000000"
    "length ls + logged_mb l \<le> logged_mb l'"
proof -
  have "received_bytes l' = received_bytes l + sum_list ns \<and> logged_mb l' = received_bytes l' div 1000000 \<and>
      length ls + logged_mb l \<le> logged_mb l'"
    using assms
  proof (induction ns arbitrary: l ls l')
    case (Cons n ns)
    obtain x l1 where n: "note_bytes n l = (x, l1)" by (cases "note_bytes n l")
    obtain rs l2 where r: "note_all ns l1 = (rs, l2)" by (cases "note_all ns l1")
    have "received_bytes l div 1000000 \<le> (received_bytes l + n) div 1000000" by (intro div_le_mono) simp
    then have l1: "received_bytes l1 = received_bytes l + n" "logged_mb l1 = received_bytes l1 div 1000000"
      "(case x of None \<Rightarrow> 0 | Some _ \<Rightarrow> 1) + logged_mb l \<le> logged_mb l1"
      using n Cons.prems(1) by (auto simp: note_bytes_def Let_def split: if_splits)
    show ?case using Cons.IH [OF l1(2) r] l1 Cons.prems(2) n r by (auto split: option.splits)
  qed simp
  then show "received_bytes l' = received_bytes l + sum_list ns" "logged_mb l' = received_bytes l' div 1000000"
    "length ls + logged_mb l \<le> logged_mb l'" by blast+
qed

lemma note_all_default:
  assumes "note_all ns receipt_default = (ls, l)"
  shows "logged_mb l = sum_list ns div 1000000" "length ls \<le> sum_list ns div 1000000"
  using note_all_counts [OF _ assms] by (simp_all add: receipt_default_def)

end
