(* ===== verification/Listener_Safety.thy ===== *)
theory Listener_Safety
  imports Listener
begin

text \<open>
  The accept loops, the sessions and the limits together: an invariant of every run of the server, and
  from it the bounds on connections, that no slot leaks, and what the end of \<open>serve\<close> means for a shutdown.
\<close>

section \<open>The running server\<close>

lemma length_filter_nth:
  assumes "i < length xs"
  shows "length (filter P xs) = length (filter P (take i xs @ drop (Suc i) xs)) + of_bool (P (xs ! i))"
proof -
  have "filter P xs = filter P (take i xs @ xs ! i # drop (Suc i) xs)" using id_take_nth_drop [OF assms] by simp
  then show ?thesis by simp
qed

lemma length_filter_update:
  assumes "i < length xs"
  shows "length (filter P (xs[i := x])) + of_bool (P (xs ! i)) = length (filter P xs) + of_bool (P x)"
  using length_filter_nth [OF assms, of P] by (simp add: upd_conv_take_nth_drop [OF assms])

lemma count_list_removed:
  assumes "j < length xs"
  shows "count_list (take j xs @ drop (Suc j) xs @ [xs ! j]) k = count_list xs k"
proof -
  have "count_list xs k = count_list (take j xs @ xs ! j # drop (Suc j) xs) k" using id_take_nth_drop [OF assms] by simp
  then show ?thesis by simp
qed

fun holding :: "accept_loop \<Rightarrow> bool" where
  "holding (Admitting client slot) = slot"
| "holding _ = False"

fun finished :: "accept_loop \<Rightarrow> bool" where
  "finished Left = True"
| "finished Died = True"
| "finished Aborted = True"
| "finished _ = False"

definition keys :: "('s, 'h) server \<Rightarrow> ip_addr list" where
  "keys s = map (permit_ip \<circ> task_permit) (tasks s)"

definition held :: "('s, 'h) server \<Rightarrow> nat" where
  "held s = releasing s + length (filter holding (loops s)) + length (filter (holds_slot \<circ> task_permit) (tasks s))"

definition flags_ok :: "server_config \<Rightarrow> ('s, 'h) server \<Rightarrow> bool" where
  "flags_ok c s \<longleftrightarrow>
     (\<forall>t \<in> set (tasks s). holds_slot (task_permit t) = (max_connections c \<noteq> 0) \<and>
        counted (task_permit t) = (max_connections_per_ip c \<noteq> 0) \<and>
        permit_ip (task_permit t) = limit_key (sa_ip (task_client t))) \<and>
     (\<forall>a b. Admitting a b \<in> set (loops s) \<longrightarrow> b = (max_connections c \<noteq> 0))"

definition ends_ok :: "server_config \<Rightarrow> ('s, 'h) server \<Rightarrow> bool" where
  "ends_ok c s \<longleftrightarrow>
     length (joined s) = length (filter finished (loops s)) \<and>
     (\<forall>x \<in> set (loops s). finished x \<longrightarrow> x \<in> set (joined s)) \<and>
     (Left \<in> set (joined s) \<longrightarrow> has_drain c \<and> cancelled s)"

definition server_ok :: "('s \<Rightarrow> nat) \<Rightarrow> server_config \<Rightarrow> ('s, 'h) server \<Rightarrow> bool" where
  "server_ok available c s \<longleftrightarrow>
     slots_ok available (max_connections c) (held s) (limits s) \<and>
     counts_ok (max_connections_per_ip c) (keys s) (limits s) \<and> flags_ok c s \<and> ends_ok c s"

lemma wire_too_many: "\<exists>w. wire (too_many c) = Some w"
  unfolding too_many_def by (rule wire_Reply_new) simp_all

lemma refuse_eq:
  obtains w where "refuse c i client s = s\<lparr>loops := (loops s)[i := Waiting], refused := refused s @ [(client, w)]\<rparr>"
  using wire_too_many [of c] that by (auto simp: refuse_def)

text \<open>A loop moves on, without ending: the counters follow.\<close>

lemma ends_ok_move:
  assumes "ends_ok c s" "i < length (loops s)" "\<not> finished (loops s ! i)" "\<not> finished x"
    "loops s' = (loops s)[i := x]" "joined s' = joined s" "cancelled s' = cancelled s"
  shows "ends_ok c s'"
proof -
  have "set (loops s') \<subseteq> insert x (set (loops s))" using assms(5) set_update_subset_insert by metis
  then show ?thesis using assms length_filter_update [of i "loops s" finished x] by (auto simp: ends_ok_def)
qed

lemma ends_ok_end:
  assumes "ends_ok c s" "i < length (loops s)" "\<not> finished (loops s ! i)" "finished x"
    "x = Left \<Longrightarrow> has_drain c \<and> cancelled s"
  shows "ends_ok c (loop_ends i x s)"
proof -
  have "set ((loops s)[i := x]) \<subseteq> insert x (set (loops s))" by (rule set_update_subset_insert)
  then show ?thesis using assms length_filter_update [of i "loops s" finished x]
    by (auto simp: ends_ok_def loop_ends_def)
qed

lemma flags_ok_move:
  assumes "flags_ok c s" "tasks s' = tasks s" "loops s' = (loops s)[i := x]"
    "\<And>a b. x = Admitting a b \<Longrightarrow> b = (max_connections c \<noteq> 0)"
  shows "flags_ok c s'"
proof -
  have "set (loops s') \<subseteq> insert x (set (loops s))" using assms(3) set_update_subset_insert by metis
  then have "b = (max_connections c \<noteq> 0)" if "Admitting a b \<in> set (loops s')" for a b
    using that assms(1,4) unfolding flags_ok_def by blast
  then show ?thesis using assms(1,2) unfolding flags_ok_def by simp
qed

lemma held_loop:
  assumes "i < length (loops s)" "loops s' = (loops s)[i := x]" "tasks s' = tasks s" "releasing s' = releasing s + n"
  shows "held s' + of_bool (holding (loops s ! i)) = held s + n + of_bool (holding x)"
  using assms length_filter_update [of i "loops s" holding x] by (simp add: held_def)


context counting_semaphore
begin

lemma step_accepts:
  assumes "server_ok available c s" "serve_step S c mk (Accepts i client) s = Some s'"
  shows "server_ok available c s'"
proof -
  have i: "i < length (loops s)" "loops s ! i = Waiting" using assms(2) by (simp_all add: in_state_def split: if_splits)
  have ok: "slots_ok available (max_connections c) (held s) (limits s)"
    "counts_ok (max_connections_per_ip c) (keys s) (limits s)" "flags_ok c s" "ends_ok c s"
    using assms(1) by (simp_all add: server_ok_def)
  from ok(1) show ?thesis
  proof (cases rule: acquire_total_cases)
    case full
    obtain w where s': "s' = s\<lparr>loops := (loops s)[i := Waiting], refused := refused s @ [(client, w)]\<rparr>"
      using assms(2) full refuse_eq [of c i client s] by (auto split: if_splits)
    have h: "held s' = held s" using held_loop [OF i(1), of s' Waiting 0] i(2) s' by simp
    have "ends_ok c s'" by (rule ends_ok_move [OF ok(4) i(1), of Waiting]) (simp_all add: s' i)
    moreover have "flags_ok c s'" by (rule flags_ok_move [OF ok(3), of _ i Waiting]) (simp_all add: s')
    ultimately show ?thesis using ok h by (simp add: server_ok_def s' keys_def)
  next
    case (slot l)
    let ?x = "Admitting client (max_connections c \<noteq> 0)"
    have s': "s' = s\<lparr>limits := l, loops := (loops s)[i := ?x]\<rparr>"
      using assms(2) slot by (simp split: if_splits)
    have h: "held s' = held s + of_bool (max_connections c \<noteq> 0)" using held_loop [OF i(1), of s' ?x 0] i(2) s' by simp
    have "ends_ok c s'" by (rule ends_ok_move [OF ok(4) i(1), of ?x]) (simp_all add: s' i)
    moreover have "flags_ok c s'" by (rule flags_ok_move [OF ok(3), of _ i ?x]) (simp_all add: s')
    moreover have "counts_ok (max_connections_per_ip c) (keys s') (limits s')"
      using ok(2) slot(3,4) counts_ok_cong [of l "limits s"] by (simp add: s' keys_def)
    moreover have "slots_ok available (max_connections c) (held s') (limits s')" using slot(2) h by (simp add: s')
    ultimately show ?thesis by (simp add: server_ok_def)
  qed
qed

lemma step_admits:
  assumes "server_ok available c s" "serve_step S c mk (Admits i random) s = Some s'"
  shows "server_ok available c s'"
proof -
  obtain client slot where i: "i < length (loops s)" "loops s ! i = Admitting client slot"
    using assms(2) by (simp split: if_splits accept_loop.splits)
  have ok: "slots_ok available (max_connections c) (held s) (limits s)"
    "counts_ok (max_connections_per_ip c) (keys s) (limits s)" "flags_ok c s" "ends_ok c s"
    using assms(1) by (simp_all add: server_ok_def)
  have slot: "slot = (max_connections c \<noteq> 0)" using i ok(3) unfolding flags_ok_def by (metis nth_mem)
  let ?k = "limit_key (sa_ip client)" and ?m = "max_connections_per_ip c"
  show ?thesis
  proof (cases "?m = 0 \<or> count_list (keys s) ?k < unat ?m")
    case True
    let ?p = "\<lparr>holds_slot = slot, permit_ip = ?k, counted = (?m \<noteq> 0)\<rparr>"
    obtain l where l: "acquire_per_ip slot (sa_ip client) (limits s) = (Inr ?p, l)" "total l = total (limits s)"
      "counts_ok ?m (keys s @ [?k]) l"
      using acquire_per_ip_grants [OF ok(2) True, of slot] by auto
    let ?t = "\<lparr>task_client = client, task_id = new_connection_id random, task_permit = ?p,
        task_handler = mk client (new_connection_id random)\<rparr>"
    have s': "s' = s\<lparr>limits := l, loops := (loops s)[i := Waiting], tasks := tasks s @ [?t]\<rparr>"
      using assms(2) i l(1) by (simp add: Let_def)
    have "held s' + of_bool slot = held s + of_bool slot"
      using length_filter_update [OF i(1), of holding Waiting] i(2) by (cases slot) (simp_all add: held_def s')
    then have "slots_ok available (max_connections c) (held s') (limits s')"
      using ok(1) slots_ok_cong [OF l(2)] by (simp add: s')
    moreover have "counts_ok ?m (keys s') (limits s')" using l(3) by (simp add: s' keys_def)
    moreover have "ends_ok c s'" by (rule ends_ok_move [OF ok(4) i(1), of Waiting]) (simp_all add: s' i)
    moreover have "flags_ok c (s\<lparr>loops := (loops s)[i := Waiting]\<rparr>)"
      by (rule flags_ok_move [OF ok(3), of _ i Waiting]) simp_all
    then have "flags_ok c s'" by (auto simp: flags_ok_def s' slot)
    ultimately show ?thesis by (simp add: server_ok_def)
  next
    case False
    then have "acquire_per_ip slot (sa_ip client) (limits s) = (Inl ''per-ip'', limits s)"
      using counts_bound [OF ok(2)] by (intro acquire_per_ip_refuses [OF ok(2)]) (simp_all add: le_antisym)
    then obtain w where s': "s' = s\<lparr>releasing := releasing s + of_bool slot, loops := (loops s)[i := Waiting],
        refused := refused s @ [(client, w)]\<rparr>"
      using assms(2) i refuse_eq [of c i client "s\<lparr>releasing := releasing s + of_bool slot\<rparr>"] by auto
    have h: "held s' = held s" using held_loop [OF i(1), of s' Waiting "of_bool slot"] i(2) s' by simp
    have "ends_ok c s'" by (rule ends_ok_move [OF ok(4) i(1), of Waiting]) (simp_all add: s' i)
    moreover have "flags_ok c s'" by (rule flags_ok_move [OF ok(3), of _ i Waiting]) (simp_all add: s')
    ultimately show ?thesis using ok h by (simp add: server_ok_def s' keys_def)
  qed
qed

lemma step_loop_ends:
  assumes "server_ok available c s" "i < length (loops s)" "\<not> finished (loops s ! i)" "finished x"
    "x = Left \<Longrightarrow> has_drain c \<and> cancelled s"
  shows "server_ok available c (loop_ends i x (s\<lparr>releasing := releasing s + of_bool (holding (loops s ! i))\<rparr>))"
proof -
  let ?s = "s\<lparr>releasing := releasing s + of_bool (holding (loops s ! i))\<rparr>"
  have ok: "slots_ok available (max_connections c) (held s) (limits s)"
    "counts_ok (max_connections_per_ip c) (keys s) (limits s)" "flags_ok c s" "ends_ok c s"
    using assms(1) by (simp_all add: server_ok_def)
  have "\<not> holding x" using assms(4) by (cases x) simp_all
  then have h: "held (loop_ends i x ?s) = held s"
    using held_loop [OF assms(2), of "loop_ends i x ?s" x "of_bool (holding (loops s ! i))"] by (simp add: loop_ends_def)
  have "ends_ok c ?s" using ok(4) by (simp add: ends_ok_def)
  then have "ends_ok c (loop_ends i x ?s)" by (rule ends_ok_end) (use assms in simp_all)
  moreover have "flags_ok c (loop_ends i x ?s)"
    by (rule flags_ok_move [OF ok(3), of _ i x]) (use assms(4) in \<open>auto simp: loop_ends_def\<close>)
  ultimately show ?thesis using ok h by (simp add: server_ok_def keys_def loop_ends_def)
qed

lemma step_session_ends:
  assumes "server_ok available c s" "serve_step S c mk (SessionEnds j) s = Some s'"
  shows "server_ok available c s'"
proof -
  let ?p = "task_permit (tasks s ! j)" and ?m = "max_connections_per_ip c"
  have j: "j < length (tasks s)" and s': "s' = s\<lparr>limits := uncount ?p (limits s),
      releasing := releasing s + of_bool (holds_slot ?p), tasks := take j (tasks s) @ drop (Suc j) (tasks s)\<rparr>"
    using assms(2) by (auto simp: Let_def split: if_splits)
  have ok: "slots_ok available (max_connections c) (held s) (limits s)"
    "counts_ok (max_connections_per_ip c) (keys s) (limits s)" "flags_ok c s" "ends_ok c s"
    using assms(1) by (simp_all add: server_ok_def)
  have k: "keys s' = take j (keys s) @ drop (Suc j) (keys s)" "keys s ! j = permit_ip ?p" "j < length (keys s)"
    using j by (simp_all add: keys_def s' take_map drop_map)
  have "counts_ok ?m (keys s' @ [permit_ip ?p]) (limits s)"
    by (rule counts_perm [OF ok(2)]) (use count_list_removed [OF k(3)] k(1,2) in simp)
  then have u: "counts_ok ?m (keys s') (limits s')" "total (limits s') = total (limits s)"
    using uncount_counts [of ?m "keys s'" ?p "limits s"] ok(3) j by (auto simp: flags_ok_def s')
  have "held s' = held s"
    using length_filter_nth [OF j, of "holds_slot \<circ> task_permit"] by (simp add: held_def s')
  then have "slots_ok available (max_connections c) (held s') (limits s')" using ok(1) slots_ok_cong [OF u(2)] by simp
  moreover have "set (tasks s') \<subseteq> set (tasks s)" using set_take_subset set_drop_subset by (fastforce simp: s')
  then have "flags_ok c s'" using ok(3) by (auto simp: flags_ok_def s')
  moreover have "ends_ok c s'" using ok(4) by (simp add: ends_ok_def s')
  ultimately show ?thesis using u(1) by (simp add: server_ok_def)
qed

lemma step_slot_returns:
  assumes "server_ok available c s" "serve_step S c mk SlotReturns s = Some s'"
  shows "server_ok available c s'"
proof -
  have r: "0 < releasing s" and s': "s' = s\<lparr>limits := release_total S True (limits s), releasing := releasing s - 1\<rparr>"
    using assms(2) by (simp_all split: if_splits)
  have "held s = held s' + of_bool True" using r by (simp add: held_def s')
  then have "slots_ok available (max_connections c) (held s') (limits s')"
    using release_slots [of _ "held s'" True] assms(1) by (simp add: server_ok_def s')
  then show ?thesis using assms(1) counts_ok_cong [of "limits s'" "limits s"]
    by (simp add: server_ok_def keys_def flags_ok_def ends_ok_def s')
qed

lemma serve_step_ok:
  assumes "server_ok available c s" "serve_step S c mk e s = Some s'"
  shows "server_ok available c s'"
proof (cases e)
  case (Leaves i)
  then show ?thesis using assms step_loop_ends [OF assms(1), of i Left] by (auto simp: in_state_def split: if_splits)
next
  case (Panics i)
  then show ?thesis using assms step_loop_ends [OF assms(1), of i Died] by (auto split: if_splits accept_loop.splits)
next
  case (Aborts i)
  then show ?thesis using assms step_loop_ends [OF assms(1), of i Aborted] by (auto simp: in_state_def split: if_splits)
next
  case Cancels
  then have s': "s' = s\<lparr>cancelled := True\<rparr>" using assms(2) by simp
  then have "held s' = held s" "keys s' = keys s" "flags_ok c s' = flags_ok c s"
    by (simp_all add: held_def keys_def flags_ok_def)
  moreover have "ends_ok c s'" using assms(1) by (simp add: server_ok_def ends_ok_def s')
  ultimately show ?thesis using assms(1) by (simp add: server_ok_def s')
next
  case (AcceptFails i)
  then show ?thesis using assms by (simp split: if_splits)
next
  case (Accepts i client)
  then show ?thesis using step_accepts [OF assms(1)] assms(2) by blast
next
  case (Admits i random)
  then show ?thesis using step_admits [OF assms(1)] assms(2) by blast
next
  case (SessionEnds j)
  then show ?thesis using step_session_ends [OF assms(1)] assms(2) by blast
next
  case SlotReturns
  then show ?thesis using step_slot_returns [OF assms(1)] assms(2) by blast
qed

lemma serve_steps_ok: "server_ok available c s \<Longrightarrow> serve_steps S c mk es s = Some s' \<Longrightarrow> server_ok available c s'"
  by (induction es arbitrary: s) (auto dest: serve_step_ok split: option.splits)

lemma serve_start_ok: "serve_start S c n = Some s \<Longrightarrow> server_ok available c s"
  by (auto simp: serve_start_def server_ok_def held_def keys_def flags_ok_def ends_ok_def dest: limits_new_Some)

end

definition clients_of :: "ip_addr \<Rightarrow> ('s, 'h) server \<Rightarrow> nat" where
  "clients_of k s = length (filter (\<lambda>t. limit_key (sa_ip (task_client t)) = k) (tasks s))"

lemma count_keys:
  assumes "flags_ok c s"
  shows "count_list (keys s) k = clients_of k s"
proof -
  have "count_list (map (permit_ip \<circ> task_permit) ts) k = length (filter (\<lambda>t. limit_key (sa_ip (task_client t)) = k) ts)"
    if "\<forall>t \<in> set ts. permit_ip (task_permit t) = limit_key (sa_ip (task_client t))" for ts :: "'b task list"
    using that by (induction ts) auto
  then show ?thesis using assms by (simp add: flags_ok_def keys_def clients_of_def)
qed

lemma all_hold:
  assumes "flags_ok c s" "max_connections c \<noteq> 0"
  shows "length (tasks s) \<le> held s"
proof -
  have "filter (holds_slot \<circ> task_permit) (tasks s) = tasks s" using assms by (simp add: flags_ok_def filter_id_conv)
  then show ?thesis by (simp add: held_def)
qed

lemma server_ok_bounds:
  assumes "server_ok available c s"
  shows "(max_connections c = 0 \<or> length (tasks s) \<le> unat (max_connections c)) \<and>
         (max_connections_per_ip c = 0 \<or> clients_of k s \<le> unat (max_connections_per_ip c))"
proof -
  have f: "flags_ok c s" and sl: "slots_ok available (max_connections c) (held s) (limits s)"
    and ct: "counts_ok (max_connections_per_ip c) (keys s) (limits s)" using assms by (simp_all add: server_ok_def)
  have "max_connections c = 0 \<or> held s \<le> unat (max_connections c)"
    using sl by (auto simp: slots_ok_def split: option.splits)
  then show ?thesis using all_hold [OF f] counts_bound [OF ct, of k] count_keys [OF f, of k] by fastforce
qed

text \<open>
  C14. The limits hold at every moment of every run of the server, whatever connects, ends, panics or is
  aborted, in whatever order: never more than \<open>--max_connections\<close> sessions over all listeners, and never
  more than \<open>--max_connections_per_ip\<close> from one bucket.
\<close>

theorem connections_bounded:
  assumes "counting_semaphore S available max_permits" "serve_start S c n = Some s0" "serve_steps S c mk es s0 = Some s"
  shows "(max_connections c = 0 \<or> connections s \<le> unat (max_connections c)) \<and>
         (max_connections_per_ip c = 0 \<or> clients_of k s \<le> unat (max_connections_per_ip c))"
  unfolding connections_def using counting_semaphore.serve_steps_ok [OF assms(1) counting_semaphore.serve_start_ok [OF assms(1,2)] assms(3)]
  by (rule server_ok_bounds)

text \<open>
  C16. No slot leaks. Once the sessions are over and no loop holds a connection, every slot of the
  semaphore is back and the map of counts is empty, however the sessions ended and whoever was refused.
\<close>

theorem limits_no_leak:
  assumes "counting_semaphore S available max_permits" "serve_start S c n = Some s0" "serve_steps S c mk es s0 = Some s"
    and "tasks s = []" "list_all (\<lambda>x. \<not> holding x) (loops s)" "releasing s = 0"
  shows "per_ip (limits s) = Map.empty \<and>
         (case total (limits s) of None \<Rightarrow> max_connections c = 0 | Some sem \<Rightarrow> available sem = unat (max_connections c))"
proof -
  have "server_ok available c s"
    using counting_semaphore.serve_steps_ok [OF assms(1) counting_semaphore.serve_start_ok [OF assms(1,2)] assms(3)] .
  moreover have "held s = 0" using assms(4-6) by (simp add: held_def list_all_iff)
  moreover have "keys s = []" using assms(4) by (simp add: keys_def)
  ultimately show ?thesis
    by (auto simp: server_ok_def slots_ok_def counts_ok_def fun_eq_iff split: option.splits if_splits)
qed

lemma join_next_Clean: "length js \<le> n \<Longrightarrow> join_next n js = Some Clean \<longleftrightarrow> js = replicate n Left"
proof (induction n js rule: join_next.induct)
  case (2 n e ends)
  then obtain m where "n = Suc m" by (cases n) auto
  with 2 show ?case by auto
qed simp

lemma join_next_failed: "length js \<le> n \<Longrightarrow> x \<in> set js \<Longrightarrow> x \<noteq> Left \<Longrightarrow> join_next n js = Some ListenerFailed"
  by (induction n js rule: join_next.induct) auto

lemma serve_step_loops: "serve_step S c mk e s = Some s' \<Longrightarrow> length (loops s') = length (loops s)"
  by (cases e) (auto simp: refuse_def loop_ends_def Let_def split: if_splits option.splits accept_loop.splits prod.splits sum.splits)

lemma serve_steps_loops: "serve_steps S c mk es s = Some s' \<Longrightarrow> length (loops s') = length (loops s)"
  by (induction es arbitrary: s) (auto dest: serve_step_loops split: option.splits)

lemma ends_ok_outcome:
  assumes "ends_ok c s"
  shows "serve_outcome_of s = Some Clean \<Longrightarrow> loops s \<noteq> [] \<Longrightarrow> has_drain c \<and> cancelled s"
    and "serve_outcome_of s = Some Clean \<Longrightarrow> x \<in> set (loops s) \<Longrightarrow> x = Left"
    and "Died \<in> set (loops s) \<Longrightarrow> serve_outcome_of s = Some ListenerFailed"
proof -
  have n: "length (joined s) \<le> length (loops s)" using assms by (simp add: ends_ok_def)
  note cl = join_next_Clean [OF n] and fl = join_next_failed [OF n]
  show "has_drain c \<and> cancelled s" if "serve_outcome_of s = Some Clean" "loops s \<noteq> []"
    using that cl assms by (auto simp: serve_outcome_of_def ends_ok_def)
  show "x = Left" if c: "serve_outcome_of s = Some Clean" and x: "x \<in> set (loops s)" for x
  proof -
    have j: "joined s = replicate (length (loops s)) Left" using c cl by (simp add: serve_outcome_of_def)
    then have "length (filter finished (loops s)) = length (loops s)" using assms by (simp add: ends_ok_def)
    then have "finished x" using x by (metis filter_id_conv length_filter_less less_irrefl)
    then show ?thesis using assms x j by (auto simp: ends_ok_def)
  qed
  show "serve_outcome_of s = Some ListenerFailed" if "Died \<in> set (loops s)"
    using that assms fl [of Died] by (auto simp: ends_ok_def serve_outcome_of_def)
qed

text \<open>
  C27. What \<open>serve\<close> reports is the truth about its listeners. It reports \<open>Clean\<close> only when every accept loop
  left because a drain had begun, and \<open>ListenerFailed\<close> as soon as one of them has panicked, whatever the
  others did before.
\<close>

theorem serve_outcome_true:
  assumes "counting_semaphore S available max_permits" "serve_start S c n = Some s0" "serve_steps S c mk es s0 = Some s"
  shows "(serve_outcome_of s = Some Clean \<longrightarrow>
            list_all (\<lambda>x. x = Left) (loops s) \<and> (n = 0 \<or> has_drain c \<and> cancelled s)) \<and>
         (Died \<in> set (loops s) \<longrightarrow> serve_outcome_of s = Some ListenerFailed)"
proof -
  have "server_ok available c s"
    using counting_semaphore.serve_steps_ok [OF assms(1) counting_semaphore.serve_start_ok [OF assms(1,2)] assms(3)] .
  then have "ends_ok c s" by (simp add: server_ok_def)
  note out = ends_ok_outcome [OF this]
  have "length (loops s) = n" using serve_steps_loops [OF assms(3)] assms(2) by (auto simp: serve_start_def)
  then show ?thesis using out by (auto simp: list_all_iff)
qed

fun is_session_end :: "serve_event \<Rightarrow> bool" where
  "is_session_end (SessionEnds j) = True"
| "is_session_end _ = False"

lemma left_step:
  assumes "list_all (\<lambda>x. x = Left) (loops s)" "serve_step S c mk e s = Some s'"
  shows "loops s' = loops s \<and> set (tasks s') \<subseteq> set (tasks s) \<and>
         length (tasks s') + of_bool (is_session_end e) = length (tasks s)"
proof -
  have l: "loops s ! i = Left" if "i < length (loops s)" for i using assms(1) that by (simp add: list_all_length)
  show ?thesis
  proof (cases e)
    case (SessionEnds j)
    have "set (take j (tasks s)) \<subseteq> set (tasks s)" "set (drop (Suc j) (tasks s)) \<subseteq> set (tasks s)"
      by (rule set_take_subset, rule set_drop_subset)
    then show ?thesis using SessionEnds assms(2) by (auto simp: Let_def split: if_splits)
  qed (use assms(2) l in \<open>auto simp: in_state_def split: if_splits\<close>)
qed

text \<open>
  C17. The order of a shutdown is safe. When \<open>serve\<close> has returned cleanly, no session is ever started
  again: whatever happens then, the live sessions are among those of that moment, and the tracker is empty
  exactly when each of them has ended. So waiting for the tracker after \<open>serve\<close> waits for every message.
\<close>

theorem drain_after_serve:
  assumes "list_all (\<lambda>x. x = Left) (loops s)" "serve_steps S c mk es s = Some s'"
  shows "set (tasks s') \<subseteq> set (tasks s) \<and> connections s' + length (filter is_session_end es) = connections s"
  unfolding connections_def
  using assms
proof (induction es arbitrary: s)
  case (Cons e es)
  then obtain s1 where s1: "serve_step S c mk e s = Some s1" "serve_steps S c mk es s1 = Some s'"
    by (auto split: option.splits)
  note st = left_step [OF Cons.prems(1) s1(1)]
  then have "list_all (\<lambda>x. x = Left) (loops s1)" using Cons.prems(1) by simp
  then show ?case using Cons.IH s1(2) st by fastforce
qed simp

section \<open>A small run\<close>

definition sample_limits_config :: server_config where
  "sample_limits_config =
     \<lparr>service_name = ''p'', require_starttls = True, require_auth = True, tls_offered = True,
      cfg_max_header_size = 100, smtplog = None, idle_timeout = 600, greeting_timeout = 30,
      max_connections = 2, max_connections_per_ip = 1, max_recipients = 0, has_drain = True\<rparr>"

abbreviation sample_addr :: "128 word \<Rightarrow> socket_addr" where
  "sample_addr a \<equiv> \<lparr>sa_ip = V6 a, sa_port = 1000\<rparr>"

abbreviation sample_server0 :: "(nat, unit) server" where
  "sample_server0 \<equiv>
     \<lparr>limits = \<lparr>total = Some 2, per_ip = Map.empty, per_ip_max = 1\<rparr>, loops = [Waiting, Waiting], tasks = [],
      releasing = 0, refused = [], cancelled = False, joined = []\<rparr>"

abbreviation sample_mk :: "socket_addr \<Rightarrow> bytes \<Rightarrow> unit" where
  "sample_mk a i \<equiv> ()"

lemma sample_start: "serve_start counter sample_limits_config 2 = Some sample_server0"
proof -
  have "replicate 2 Waiting = [Waiting, Waiting]" by (simp add: numeral_2_eq_2)
  then show ?thesis by (simp add: serve_start_def limits_new_def counter_def sample_limits_config_def)
qed

abbreviation sample_busy :: "serve_event list" where
  "sample_busy \<equiv>
     [Accepts 0 (sample_addr 1), Admits 0 [CHR 0x2A], Accepts 0 (sample_addr 2), Admits 0 [],
      SlotReturns, Accepts 1 (sample_addr 0x10000000000000000)]"

theorem connections_bounded_witness:
  "\<exists>s. serve_steps counter sample_limits_config sample_mk sample_busy sample_server0 = Some s \<and>
     length (tasks s) = 1 \<and> length (refused s) = 1 \<and> clients_of (V6 0) s \<le> 1"
proof -
  have "map_option (\<lambda>s. (length (tasks s), length (refused s)))
      (serve_steps counter sample_limits_config sample_mk sample_busy sample_server0) = Some (1, 1)" by code_simp
  then obtain s where s: "serve_steps counter sample_limits_config sample_mk sample_busy sample_server0 = Some s"
    "length (tasks s) = 1" "length (refused s) = 1"
    by (auto simp only: map_option_eq_Some prod.inject)
  then have "clients_of (V6 0) s \<le> 1"
    using connections_bounded [OF counter.counting_semaphore_axioms sample_start s(1), of "V6 0"]
    by (simp add: sample_limits_config_def)
  with s show ?thesis by blast
qed

abbreviation sample_over :: "serve_event list" where
  "sample_over \<equiv>
     sample_busy @ [Panics 1, SlotReturns, SessionEnds 0, SlotReturns]"

theorem limits_no_leak_witness:
  "\<exists>s. serve_steps counter sample_limits_config sample_mk sample_over sample_server0 = Some s \<and>
     per_ip (limits s) = Map.empty \<and> total (limits s) = Some 2"
proof -
  have "map_option (\<lambda>s. (length (tasks s), list_all (\<lambda>x. \<not> holding x) (loops s), releasing s, total (limits s)))
      (serve_steps counter sample_limits_config sample_mk sample_over sample_server0) = Some (0, True, 0, Some 2)"
    by code_simp
  then obtain s where s: "serve_steps counter sample_limits_config sample_mk sample_over sample_server0 = Some s"
    "tasks s = []" "list_all (\<lambda>x. \<not> holding x) (loops s)" "releasing s = 0" "total (limits s) = Some 2"
    by (auto simp only: map_option_eq_Some prod.inject length_0_conv)
  then show ?thesis
    using limits_no_leak [OF counter.counting_semaphore_axioms sample_start s(1-4)] by blast
qed

abbreviation sample_drain :: "serve_event list" where
  "sample_drain \<equiv>
     [Accepts 0 (sample_addr 1), Cancels, Leaves 1, Admits 0 [CHR 0x2A], Leaves 0]"

theorem serve_outcome_true_witness:
  "\<exists>s. serve_steps counter sample_limits_config sample_mk sample_drain sample_server0 = Some s \<and>
     serve_outcome_of s = Some Clean \<and> cancelled s"
proof -
  have "map_option serve_outcome_of (serve_steps counter sample_limits_config sample_mk sample_drain sample_server0) =
      Some (Some Clean)" by code_simp
  then obtain s where s: "serve_steps counter sample_limits_config sample_mk sample_drain sample_server0 = Some s"
    "serve_outcome_of s = Some Clean" by (auto simp only: map_option_eq_Some)
  then show ?thesis
    using serve_outcome_true [OF counter.counting_semaphore_axioms sample_start s(1)] by auto
qed

theorem drain_after_serve_witness:
  "\<exists>s s'. serve_steps counter sample_limits_config sample_mk sample_drain sample_server0 = Some s \<and>
     length (tasks s) = 1 \<and> serve_steps counter sample_limits_config sample_mk [SessionEnds 0, SlotReturns] s = Some s' \<and>
     tasks s' = []"
proof -
  have "map_option (\<lambda>s. (list_all (\<lambda>x. x = Left) (loops s), length (tasks s),
        \<not> Option.is_none (serve_steps counter sample_limits_config sample_mk [SessionEnds 0, SlotReturns] s)))
      (serve_steps counter sample_limits_config sample_mk sample_drain sample_server0) = Some (True, 1, True)"
    by code_simp
  then obtain s where s: "serve_steps counter sample_limits_config sample_mk sample_drain sample_server0 = Some s"
    "list_all (\<lambda>x. x = Left) (loops s)" "length (tasks s) = 1"
    "\<not> Option.is_none (serve_steps counter sample_limits_config sample_mk [SessionEnds 0, SlotReturns] s)"
    by (auto simp only: map_option_eq_Some prod.inject)
  then obtain s' where s': "serve_steps counter sample_limits_config sample_mk [SessionEnds 0, SlotReturns] s = Some s'"
    unfolding Option.is_none_def by blast
  have "tasks s' = []" using drain_after_serve [OF s(2) s'] s(3) by (simp add: connections_def del: serve_steps.simps)
  with s s' show ?thesis by blast
qed

end
