(* ===== verification/Spec2Isabelle.thy ===== *)
theory Spec2Isabelle
  imports Shared_State Session_Account Command_Forms Shutdown Process_Globals Receipt_Log Listener_Safety
begin

text \<open>
  A verification library for \<open>smtp-proxy\<close>, the SMTP submission proxy whose sources are under \<open>src/src\<close>.

  \<^bold>\<open>The program.\<close> A client connects, upgrades to TLS, logs in and submits a message. The proxy asks a REST API
  whether this user may send this message from this sender, adds or removes the headers the API names, and
  relays the message to one upstream server, whose answer it hands back. It stores nothing: the body is
  streamed through. The parts are a server (\<open>server/\<close>) that runs one session per connection over the pieces
  of the protocol (\<open>smtp/\<close>), an application behind it (\<open>proxy.rs\<close>) that is reached through the traits \<open>Handler\<close>
  and \<open>BodySink\<close>, a client for the API (\<open>api.rs\<close>), a client for the upstream (\<open>relay.rs\<close>), a rate limiter, a wire
  log, and the start-up (\<open>config.rs\<close>, \<open>main.rs\<close>, \<open>privdrop.rs\<close>, \<open>logging.rs\<close>, \<open>shutdown.rs\<close>).

  \<^bold>\<open>How it is modelled.\<close> A byte is a \<^typ>\<open>char\<close>; a \<open>Vec<u8>\<close> and a \<open>str\<close> are lists of them. A struct is a record and an
  enum a datatype with the source's constructors; each function is one definition under its own name where
  that is free. An error is \<open>Inl\<close> of a sum, a panic is \<^const>\<open>None\<close>; so that a function does not panic is a
  theorem and not an assumption. An \<open>async fn\<close> with \<open>&mut self\<close> takes and returns its state. What comes from
  outside is data in the state, arbitrary in the theorems: the reads of a socket with the time before each,
  the outcome of each write, the HTTP exchanges, the connections to the upstream, the clock, what other
  sessions do to shared state, and when the shutdown token fires. Third-party code (TLS, HTTP, JSON, base64,
  clap, the semaphore) is a parameter. Integers are words where a width matters, and the doubles of the
  rate limiter are rationals with the rounding of IEEE 754 written out.

  \<^bold>\<open>The theories\<close>, in the order they build on each other:
  \<^item> \<open>Prelude\<close>: the byte classes and string functions of the Rust standard library, UTF-8, decimal numbers, lists.
  \<^item> \<open>Params\<close>, \<open>Command\<close>, \<open>Command_Forms\<close>, \<open>Dsn\<close>, \<open>Reply\<close>, \<open>Extensions\<close>: \<open>smtp/params.rs\<close>, \<open>command.rs\<close>, \<open>dsn.rs\<close>,
    \<open>reply.rs\<close>, \<open>extensions.rs\<close>. The parser never panics, accepts exactly the lines of the grammar, and gives exactly
    the commands that are well formed; DSN parameters are those of RFC 3461; a reply is one line per text, printable and within 512 octets; the EHLO of an upstream is
    read back.
  \<^item> \<open>Auth_Decode\<close>, \<open>Message_Data\<close>, \<open>Streams\<close>, \<open>Smtp_Log\<close>: \<open>server/auth.rs\<close>, \<open>server/data.rs\<close>, the sockets, \<open>smtplog.rs\<close>.
    The header collector gives the block back within its cap; the framer's output is the body with CRLF line
    endings however it is cut, never holds a terminator, and stops at the first one of the input and nowhere else; the log hides credentials.
  \<^item> \<open>Handler_Interface\<close>: the traits of \<open>server/mod.rs\<close> as a record of operations, and the contract the session
    relies on as the locale \<open>handler_contract\<close>.
  \<^item> \<open>Session\<close>, \<open>Session_Safety\<close>: \<open>server/session.rs\<close>, the whole state machine, with a trace of what it did. Within
    the locale \<open>session_env\<close>, over any handler that keeps the contract: a session ends, never panics, keeps to the
    order of the protocol, and holds a bounded buffer.
  \<^item> \<open>Body_Reading\<close>: the loop that reads a body, once more as a big-step relation with a rule for each way a turn can
    go; the two are the same, and the properties of the loop are proved by rule induction.
  \<^item> \<open>Session_Frame\<close>: a frame rule for sessions as the locale \<open>session_frame\<close>: what survives each elementary thing a session
    does survives the session. \<open>Session_Waits\<close> interprets it for the waits: all have an end but the TLS handshake and
    the writes to the client. \<open>Session_Log\<close> interprets it for the wire log: it holds every reply and no secret.
  \<^item> \<open>Receipt_Log\<close>: the debug line for each megabyte of \<open>DATA\<close>, \<open>ReceiptLog\<close> of \<open>server/session.rs\<close>.
  \<^item> \<open>Segmentation\<close>, \<open>Segmented_Session\<close>: a session compared with itself on the same bytes in other reads. The relation
    \<open>sim\<close> on states is kept by every operation, so the cuts of the network do not show.
  \<^item> \<open>Relay\<close>, \<open>Relay_Safety\<close>: \<open>relay.rs\<close>. Required TLS sends no envelope and no message in the clear, however connecting ends; the lines sent parse back to
    the envelope, connecting does not panic.
  \<^item> \<open>Float64\<close>, \<open>Rate_Limit\<close>: \<open>ratelimit.rs\<close>. The number of buckets is bounded, each key behaves as one bucket of
    its own, forgetting idle ones changes no answer, and in any window, after any idling, the rate is kept up to rounding.
  \<^item> \<open>Api\<close>, \<open>Headers\<close>, \<open>Proxy\<close>: \<open>api.rs\<close> and \<open>proxy.rs\<close>. A message goes out only if the API allowed it; headers come
    back from the wire as they were checked. The interpretation \<open>proxy\<close> discharges the handler contract for the
    proxy's operations.
  \<^item> \<open>Accepted_Message\<close>: from an accepted message back, over any handler: what the client sent up to the terminator, what of it
    reached the sink, flush included, and in which order the answers came.
  \<^item> \<open>Relayed_Message\<close>, \<open>Proxy_Session\<close>: session, proxy and relay together. A message the upstream accepts with a 2xx is the
    client's message, whole, with one terminator; a 250 is only ever the upstream's, after its 2xx; and the lemmas of
    \<open>session_env\<close> as theorems about this program, through the interpretation \<open>psession\<close>.
  \<^item> \<open>Session_Account\<close>: session and proxy agree on what the client said. The frame rule is interpreted for the proxy's
    handler: what the API is asked is computed from the calls in the trace. The theorem about the wire log is here too.
  \<^item> \<open>Shared_State\<close>: what a session does to the state all sessions share. The handler contract is interpreted once
    more, with an invariant that records by which operations that state came about; the interference a session
    allows the others is what it gives them itself.
  \<^item> \<open>Net_Addr\<close>, \<open>Listener\<close>, \<open>Listener_Safety\<close>: addresses with the parser of the standard library, and
    \<open>server/listener.rs\<close>. Accept loops, sessions and semaphore permits are events that interleave in any order; the
    two halves of taking and of giving back a permit are events of their own. \<open>try_acquire\<close> refines a gate
    over the list of live connections; the limits hold in every run, no slot leaks, and after \<open>serve\<close> has
    returned no session starts. The semaphore is a parameter with the laws of the locale \<open>counting_semaphore\<close>,
    which a counter interprets.
  \<^item> \<open>Config\<close>, \<open>Logging\<close>, \<open>Startup\<close>: \<open>config.rs\<close>, \<open>logging.rs\<close>, \<open>main.rs\<close>, \<open>privdrop.rs\<close>, with the loading of certificates.
    The start-up is a sequence of steps with a trace of what it does to the system; the order of the
    privilege drop, and what ends it, are theorems.
  \<^item> \<open>Process_Globals\<close>: \<open>lib.rs\<close> and the end of \<open>init\<close> in \<open>logging.rs\<close>: the crypto provider and the subscriber, of which a process
    has one. The cells that the packages keep them in are a parameter with the laws of the locale \<open>set_once\<close>, which an
    option interprets; which provider a started program runs with is a lemma.
  \<^item> \<open>Shutdown\<close>: \<open>shutdown.rs\<close> and the two waits of \<open>main.rs\<close> that signals end. A second signal ends the process, also one
    that comes while nobody waits. \<open>serve\<close> is a future that starts when a wait first asks it, which a signal that
    is already there may prevent. The signal streams are a parameter with the laws of the locale \<open>signal_stream\<close>,
    which a flag interprets.
  \<^item> This theory: what the program enforces from its command line to a session.

  \<^bold>\<open>Bounds and fuel.\<close> The loop of a session reads until the client is gone, so \<open>serve_loop\<close> has fuel. \<open>run\<close> gives it one
  more than \<open>remaining\<close>, the size of what the client still sends, and \<open>session_ends\<close> shows that this is
  enough for every input. The loops inside a session (lines, headers, body, replies of the upstream) recurse
  on the input they consume. All other functions are total. A wait without end, in the TLS handshake of
  a client, in a write to it, or in a drain without a limit, is a value of its own and not a lack of fuel.

  \<^bold>\<open>What is not modelled.\<close> Where the lines of the main log are written and the counters kept only for them (a \<open>ReceiptLog\<close>
  is modelled by itself, not as part of a session); the address and id of a client, which only label log
  lines; the building of the tokio runtime; a poisoned mutex (no code panics while it holds one). Memory and threads are out of reach of
  the model. State that several tasks share changes before each access of a task to it, and an access is one
  operation on an atomic or one critical section: a function that makes three, as \<open>note_upstream_caps\<close> does, is
  three steps with room for the others between them. That \<open>Relaxed\<close> accesses to different atomics may also
  be seen in different orders by different threads is covered as far as it is such an interleaving. The TLS \<open>close_notify\<close> of a
  \<open>shutdown\<close> is a step that completes.

  \<^bold>\<open>Findings.\<close> A client that stalls in the TLS handshake holds its session for ever, and so does one that
  does not read what is written to it (\<open>handshake_untimed\<close>, \<open>first_write_untimed\<close>); a
  \<open>--max_connections\<close> beyond what the semaphore holds is accepted and panics (\<open>max_connections_panics\<close>); the TLS of the
  server is set up before the crypto provider is installed, against the comment on \<open>install_crypto_provider\<close>
  (\<open>start_up_order\<close>).
\<close>

section \<open>The program as it is started\<close>

text \<open>The configuration the program serves with is the strict one, whatever the command line.\<close>

lemma run_boot_strict:
  assumes "run_boot E g = (t, Inr p)"
  shows "require_starttls (prog_server p)" "require_auth (prog_server p)" "has_drain (prog_server p)"
  by (rule run_boot_Inr [OF assms], simp add: server_config_of_def)+

definition strict_step :: "event list \<Rightarrow> event \<Rightarrow> bool" where
  "strict_step pre e \<longleftrightarrow>
     (case e of
        AuthCall _ \<Rightarrow> TlsUp \<in> set pre
      | MailCall _ _ \<Rightarrow> TlsUp \<in> set pre \<and> AuthCall True \<in> set pre
      | RcptCall _ _ \<Rightarrow> TlsUp \<in> set pre \<and> AuthCall True \<in> set pre
      | OpenCall _ _ \<Rightarrow> TlsUp \<in> set pre \<and> AuthCall True \<in> set pre
      | _ \<Rightarrow> True)"

lemma step_ok_strict:
  assumes "require_starttls c" "require_auth c" "step_ok c None pre e"
  shows "strict_step pre e"
  using assms by (cases e) (simp_all add: strict_step_def secured_def authorised_def)

text \<open>
  C5. What the program as it is started enforces, from the command line to the session: whatever flags it was
  given, in every session no credentials reach the handler before TLS is up, and no sender, no recipient
  and no message before TLS is up and a login was accepted. No flag turns this off.
\<close>

theorem production_policy:
  assumes "run_boot E g = (t, Inr p)"
  shows "\<exists>r s. run (proxy_env (prog_server p) (prog_proxy p) d) reads tlso ws drains (proxy_start (prog_proxy p) xs w) =
           Some (Some r, s) \<and>
         list_all (\<lambda>i. strict_step (take i (trace s)) (trace s ! i)) [0 ..< length (trace s)]"
proof -
  let ?E = "proxy_env (prog_server p) (prog_proxy p) d"
  obtain r s where r: "run ?E reads tlso ws drains (proxy_start (prog_proxy p) xs w) = Some (Some r, s)"
    and s: "sinv ?E proxy_inv None (remaining (new_session reads tlso ws drains (proxy_start (prog_proxy p) xs w))) s"
    using psession.run_safe [OF proxy_start_inv] by metis
  have "trace_ok (prog_server p) None (trace s)" using s by (simp add: sinv_def)
  then have "strict_step (take i (trace s)) (trace s ! i)" if "i < length (trace s)" for i
    using that step_ok_strict [OF run_boot_strict(1,2) [OF assms]] by (simp add: trace_ok_def)
  then show ?thesis using r by (auto simp: list_all_iff)
qed

theorem production_policy_witness:
  "\<exists>g t p r s. sample_args = Inr g \<and> run_boot sample_boot g = (t, Inr p) \<and>
     run (proxy_env (prog_server p) (prog_proxy p) Some) [Arrives 0 (''MAIL FROM:<a@b>'' @ CRLF)] HandshakeStalls [] []
       (proxy_start (prog_proxy p) [] sample_world) = Some (Some r, s) \<and>
     list_all (\<lambda>i. strict_step (take i (trace s)) (trace s ! i)) [0 ..< length (trace s)]"
proof -
  obtain g t p where g: "sample_args = Inr g" and b: "run_boot sample_boot g = (t, Inr p)"
    using sample_args_accepted by metis
  show ?thesis
    using g b production_policy [OF b, of Some "[Arrives 0 (''MAIL FROM:<a@b>'' @ CRLF)]" HandshakeStalls "[]" "[]" "[]" sample_world]
    by (elim exE conjE) (intro exI conjI; assumption)
qed

end
